(* ===== verification/Cpp_Prelude.thy ===== *)
theory Cpp_Prelude
  imports Main "HOL-Library.Word"
begin

text \<open>
  What every component shares: the C++ integer types and their conversions, memory blocks with
  bounds-checked copies, the faults an operation can end in, the results of a handler and the
  effects it has on the objects it calls (the socket, the server, the logic system).

  \<^item> \<open>char\<close> is a byte, \<open>short\<close> is 16 bits wide, \<open>size_t\<close> is 64 bits wide; a local \<open>int\<close>
    is an \<open>int\<close> (the code never leaves its range). Every conversion the compiler inserts is
    written out: \<open>short_of_int\<close> truncates, \<open>size_of_int\<close> converts, so a negative \<open>short\<close>
    that is compared with a \<open>size_t\<close> becomes a huge number, as it does in the code.
  \<^item> A heap block or an array is a byte list of its allocated size. A copy that leaves a block, or
    whose count is not the size of any object (at most \<open>PTRDIFF_MAX\<close>), is the value
    \<open>Inl Out_Of_Bounds\<close> (undefined behaviour of the program), never a default value.
\<close>

named_theorems cpp_conv \<open>conversions between the integer types, as facts about unat and sint\<close>
named_theorems mem_simps \<open>bounds-checked copies whose bounds hold\<close>

section \<open>Integer types\<close>

type_synonym byte = "8 word"
type_synonym short = "16 word"
type_synonym size_t = "64 word"

definition short_of_int :: "int \<Rightarrow> short" where
  "short_of_int i = word_of_int i"

definition size_of_int :: "int \<Rightarrow> size_t" where
  "size_of_int i = word_of_int i"

lemma sint_short_of_int [cpp_conv]:
  "- 32768 \<le> i \<Longrightarrow> i < 32768 \<Longrightarrow> sint (short_of_int i) = i"
  by (simp add: short_of_int_def int_word_sint)

lemma sint_short_wrap:
  assumes "32768 \<le> i" "i < 98304"
  shows "sint (short_of_int i) = i - 65536"
proof -
  have "(i + 32768) mod 65536 = (i - 32768) mod 65536"
    using mod_add_self2 [of "i - 32768" 65536] by (simp add: add.commute)
  also have "\<dots> = i - 32768" using assms by (intro mod_pos_pos_trivial) auto
  finally show ?thesis by (simp add: short_of_int_def int_word_sint)
qed

lemma short_of_int_sint [simp]: "short_of_int (sint w) = w"
  by (simp add: short_of_int_def)

lemma unat_size_of_int [cpp_conv]:
  "0 \<le> i \<Longrightarrow> i < 2 ^ 63 \<Longrightarrow> unat (size_of_int i) = nat i"
  by (simp add: size_of_int_def unat_eq_nat_uint uint_word_of_int)

lemma unat_size_of_int_neg:
  assumes "- (2 ^ 62) \<le> i" "i < 0"
  shows "unat (size_of_int i) = nat (2 ^ 64 + i)"
proof -
  have "i mod 2 ^ 64 = (2 ^ 64 + i) mod 2 ^ 64" by simp
  also have "\<dots> = 2 ^ 64 + i" using assms by (intro mod_pos_pos_trivial) auto
  finally show ?thesis by (simp add: size_of_int_def unat_eq_nat_uint uint_word_of_int)
qed

lemma sint_short_bounds: "- 32768 \<le> sint (w :: short)" "sint (w :: short) < 32768"
  using sint_greater_eq [of w] sint_lt [of w] by simp_all

lemma sint_add_short [cpp_conv]:
  assumes "- 32768 \<le> sint a + k" "sint a + k < 32768"
  shows "sint (a + short_of_int k) = sint a + k"
proof -
  have "a + short_of_int k = short_of_int (sint a + k)"
    by (simp add: short_of_int_def)
  then show ?thesis using assms by (simp add: sint_short_of_int)
qed

lemma sint_add_ucast:
  assumes "sint (a :: short) = int c" "c + unat (n :: size_t) < 32768"
  shows "sint (a + ucast n) = int (c + unat n)"
proof -
  have "(ucast n :: short) = short_of_int (int (unat n))"
    by (simp add: short_of_int_def)
  then have "sint (a + ucast n) = sint (a + short_of_int (int (unat n)))" by (simp only:)
  also have "\<dots> = int c + int (unat n)"
    using assms sint_add_short [of a "int (unat n)"] by linarith
  finally show ?thesis by simp
qed

text \<open>The comparisons and subtractions of the read loop, where the counts are small.\<close>

lemma size_add_less_iff:
  assumes "unat n \<le> 65536" "0 \<le> c" "c \<le> 32768" "0 \<le> k" "k \<le> 32768"
  shows "n + size_of_int c < size_of_int k \<longleftrightarrow> unat n + nat c < nat k"
proof -
  have "unat (n + size_of_int c) = unat n + nat c"
    using assms by (simp add: unat_word_ariths unat_size_of_int)
  then show ?thesis using assms by (simp add: word_less_nat_alt unat_size_of_int)
qed

lemma size_less_iff:
  "0 \<le> k \<Longrightarrow> k < 2 ^ 63 \<Longrightarrow> n < size_of_int k \<longleftrightarrow> unat n < nat k"
  by (simp add: word_less_nat_alt unat_size_of_int)

lemma size_less_neg:
  "- (2 ^ 62) \<le> k \<Longrightarrow> k < 0 \<Longrightarrow> unat n \<le> 65536 \<Longrightarrow> n < size_of_int k"
  by (simp add: word_less_nat_alt unat_size_of_int_neg)

lemma unat_size_sub [cpp_conv]:
  "0 \<le> k \<Longrightarrow> k < 2 ^ 63 \<Longrightarrow> nat k \<le> unat n \<Longrightarrow>
     unat (n - size_of_int k) = unat n - nat k"
  by (simp add: unat_sub word_le_nat_alt unat_size_of_int)

text \<open>A converted count that is small enough to be the size of an object was not negative.\<close>

lemma size_of_int_small_nonneg:
  assumes "unat (size_of_int i) < 2 ^ 63" "- (2 ^ 62) \<le> i"
  shows "0 \<le> i"
proof (rule ccontr)
  assume "\<not> 0 \<le> i"
  with assms unat_size_of_int_neg [of i] show False by simp
qed

lemma size_sub_le:
  assumes "\<not> n < size_of_int k" "0 \<le> k" "k < 2 ^ 63"
  shows "unat (n - size_of_int k) = unat n - nat k"
  using assms by (simp add: size_less_iff unat_size_sub)

text \<open>A sum of \<open>size_t\<close>s that reached \<open>K\<close> did not wrap around.\<close>

lemma head_sum_no_wrap:
  assumes "\<not> n + size_of_int c < size_of_int K" "0 \<le> c" "c \<le> K" "K < 2 ^ 63"
  shows "nat (K - c) \<le> unat n"
proof -
  have "nat K \<le> (unat n + nat c) mod 2 ^ 64"
    using assms by (simp add: word_less_nat_alt unat_word_ariths unat_size_of_int not_less)
  also have "\<dots> \<le> unat n + nat c" by simp
  finally show ?thesis using assms by linarith
qed

text \<open>Counts are kept as \<open>unat\<close>, the natural number of bytes.\<close>

declare of_nat_unat [simp del]

section \<open>Faults and results\<close>

text \<open>
  How a call can fail. The first group are C++ exceptions derived from \<open>std::exception\<close>; the
  others are undefined behaviour, which no handler catches.
\<close>

datatype fault =
    Bad_Array_New_Length  \<comment> \<open>\<open>new char[n]\<close> with negative \<open>n\<close>\<close>
  | Json_Exception        \<comment> \<open>thrown by the JSON library\<close>
  | System_Exception      \<comment> \<open>\<open>std::system_error\<close>\<close>
  | Out_Of_Bounds         \<comment> \<open>an access outside a block\<close>
  | Null_Deref            \<comment> \<open>an access through a null pointer\<close>
  | Empty_Queue           \<comment> \<open>\<open>front\<close> or \<open>pop\<close> on an empty \<open>std::queue\<close>\<close>
  | Use_After_Free        \<comment> \<open>a call on an object whose lifetime has ended\<close>
  | Missing_Return        \<comment> \<open>the end of a function that has to return a value\<close>

fun is_exception :: "fault \<Rightarrow> bool" where
  "is_exception Bad_Array_New_Length = True"
| "is_exception Json_Exception = True"
| "is_exception System_Exception = True"
| "is_exception Out_Of_Bounds = False"
| "is_exception Null_Deref = False"
| "is_exception Empty_Queue = False"
| "is_exception Use_After_Free = False"
| "is_exception Missing_Return = False"

text \<open>A finished call: it returned, or it ended in a fault; the state it left is kept.\<close>

datatype 's outcome = Returned 's | Raised fault 's

text \<open>One iteration of a read loop: return from the handler, fault, or go round again.\<close>

datatype 's flow = Return 's | Raise fault 's | Continue 's size_t int

text \<open>What a handler does to the objects around the session, in program order.\<close>

datatype 'm effect =
    Print string                \<comment> \<open>the raw-data trace on standard output\<close>
  | Async_Read                  \<comment> \<open>\<open>_socket.async_read_some\<close> into the read buffer\<close>
  | Async_Write "byte list"     \<comment> \<open>\<open>boost::asio::async_write\<close> of these bytes\<close>
  | Socket_Close                \<comment> \<open>\<open>_socket.close()\<close>\<close>
  | Clear_Session string        \<comment> \<open>the server's \<open>clear_session\<close>\<close>
  | Post 'm                     \<comment> \<open>the logic system's \<open>PostMsgtoQueue\<close>\<close>

fun posted :: "'m effect list \<Rightarrow> 'm list" where
  "posted [] = []"
| "posted (Post m # es) = m # posted es"
| "posted (_ # es) = posted es"

fun written :: "'m effect list \<Rightarrow> byte list list" where
  "written [] = []"
| "written (Async_Write bs # es) = bs # written es"
| "written (_ # es) = written es"

lemma posted_append [simp]: "posted (es @ fs) = posted es @ posted fs"
  by (induction es rule: posted.induct) auto

lemma written_append [simp]: "written (es @ fs) = written es @ written fs"
  by (induction es rule: written.induct) auto

lemma posted_map_Post [simp]: "posted (map Post ms) = ms"
  by (induction ms) auto

section \<open>Memory\<close>

definition mem_read :: "byte list \<Rightarrow> int \<Rightarrow> size_t \<Rightarrow> fault + byte list" where
  "mem_read buf off n =
     (if 0 \<le> off \<and> nat off + unat n \<le> length buf \<and> unat n < 2 ^ 63
      then Inr (take (unat n) (drop (nat off) buf)) else Inl Out_Of_Bounds)"

definition mem_write :: "byte list \<Rightarrow> int \<Rightarrow> byte list \<Rightarrow> fault + byte list" where
  "mem_write buf off src =
     (if 0 \<le> off \<and> nat off + length src \<le> length buf
      then Inr (take (nat off) buf @ src @ drop (nat off + length src) buf)
      else Inl Out_Of_Bounds)"

text \<open>\<open>memcpy(dst + doff, src + soff, n)\<close>.\<close>

definition memcpy :: "byte list \<Rightarrow> int \<Rightarrow> byte list \<Rightarrow> int \<Rightarrow> size_t \<Rightarrow> fault + byte list" where
  "memcpy dst doff src soff n =
     (case mem_read src soff n of Inl f \<Rightarrow> Inl f | Inr xs \<Rightarrow> mem_write dst doff xs)"

text \<open>\<open>memset(buf, 0, n)\<close>.\<close>

definition memset0 :: "byte list \<Rightarrow> size_t \<Rightarrow> fault + byte list" where
  "memset0 buf n =
     (if unat n \<le> length buf \<and> unat n < 2 ^ 63 then Inr (replicate (unat n) 0 @ drop (unat n) buf)
      else Inl Out_Of_Bounds)"

lemma mem_read_ok [mem_simps]:
  "0 \<le> off \<Longrightarrow> nat off + unat n \<le> length buf \<Longrightarrow> unat n < 2 ^ 63 \<Longrightarrow>
     mem_read buf off n = Inr (take (unat n) (drop (nat off) buf))"
  by (simp add: mem_read_def)

lemma mem_write_ok [mem_simps]:
  "0 \<le> off \<Longrightarrow> nat off + length src \<le> length buf \<Longrightarrow>
     mem_write buf off src = Inr (take (nat off) buf @ src @ drop (nat off + length src) buf)"
  by (simp add: mem_write_def)

lemma memcpy_ok [mem_simps]:
  "0 \<le> doff \<Longrightarrow> nat doff + unat n \<le> length dst \<Longrightarrow>
   0 \<le> soff \<Longrightarrow> nat soff + unat n \<le> length src \<Longrightarrow> unat n < 2 ^ 63 \<Longrightarrow>
     memcpy dst doff src soff n =
       Inr (take (nat doff) dst @ take (unat n) (drop (nat soff) src) @ drop (nat doff + unat n) dst)"
  by (simp add: memcpy_def mem_read_ok mem_write_ok)

lemma memcpy_InrD:
  "memcpy dst doff src soff n = Inr d \<Longrightarrow>
     0 \<le> doff \<and> nat doff + unat n \<le> length dst \<and> 0 \<le> soff \<and> nat soff + unat n \<le> length src \<and> unat n < 2 ^ 63 \<and>
     d = take (nat doff) dst @ take (unat n) (drop (nat soff) src) @ drop (nat doff + unat n) dst"
  by (auto simp: memcpy_def mem_read_def mem_write_def split: if_splits)

lemma memset0_ok [mem_simps]:
  "unat n \<le> length buf \<Longrightarrow> unat n < 2 ^ 63 \<Longrightarrow>
     memset0 buf n = Inr (replicate (unat n) 0 @ drop (unat n) buf)"
  by (simp add: memset0_def)

lemma memcpy_length: "memcpy dst doff src soff n = Inr d \<Longrightarrow> length d = length dst"
  by (drule memcpy_InrD) auto

section \<open>The unread part of the read buffer\<close>

text \<open>
  The read loop walks the first \<open>bytes_transferred\<close> bytes of the buffer with an offset
  \<open>copy_len\<close>. \<open>pending buf n off\<close> are the bytes it has still to look at.
\<close>

definition pending :: "byte list \<Rightarrow> size_t \<Rightarrow> int \<Rightarrow> byte list" where
  "pending buf n off = take (unat n) (drop (nat off) buf)"

lemma length_pending:
  "0 \<le> off \<Longrightarrow> nat off + unat n \<le> length buf \<Longrightarrow> length (pending buf n off) = unat n"
  by (simp add: pending_def)

lemma take_pending:
  "k \<le> unat n \<Longrightarrow> take k (pending buf n off) = take k (drop (nat off) buf)"
  by (simp add: pending_def min_def)

lemma pending_advance:
  assumes "0 \<le> off" "0 \<le> k" "k < 2 ^ 63" "nat k \<le> unat n"
  shows "pending buf (n - size_of_int k) (off + k) = drop (nat k) (pending buf n off)"
  using assms by (simp add: pending_def unat_size_sub drop_take nat_add_distrib add.commute)

end
