(* ===== verification/Byte_Order.thy ===== *)
theory Byte_Order
  imports Cpp_Prelude
begin

text \<open>
  The byte order of the host and the conversions the code takes from
  \<open>boost::asio::detail::socket_ops\<close>. The three conversion functions are not part of the
  repository, so they are fields of a \<open>platform\<close>, together with the two properties of the host the
  code depends on: the order in which an integer is laid out in memory (it copies integers with
  \<open>memcpy\<close>) and the signedness of \<open>char\<close> (it prints bytes through \<open>int(data[i])\<close>).

  The locale \<open>network_order\<close> states what Boost documents: the \<open>host_to_network\<close> functions give a
  value whose memory image is big-endian, and \<open>network_to_host_short\<close> reads one. It is interpreted
  on the two hosts there are.
\<close>

datatype endian = Little_Endian | Big_Endian

record platform =
  endianness :: endian
  char_is_signed :: bool
  host_to_network_short :: "16 word \<Rightarrow> 16 word"
  network_to_host_short :: "16 word \<Rightarrow> 16 word"
  host_to_network_long :: "32 word \<Rightarrow> 32 word"

unbundle bit_operations_syntax

section \<open>The memory image of an integer\<close>

definition high_byte :: "short \<Rightarrow> byte" where
  "high_byte w = ucast (drop_bit 8 w)"

definition low_byte :: "short \<Rightarrow> byte" where
  "low_byte w = ucast w"

definition short_of_bytes :: "byte \<Rightarrow> byte \<Rightarrow> short" where
  "short_of_bytes h l = word_of_int (256 * uint h + uint l)"

definition byte_of_long :: "nat \<Rightarrow> 32 word \<Rightarrow> byte" where
  "byte_of_long k w = ucast (drop_bit (8 * k) w)"

definition store_short :: "platform \<Rightarrow> short \<Rightarrow> byte list" where
  "store_short P w =
     (case endianness P of
        Little_Endian \<Rightarrow> [low_byte w, high_byte w]
      | Big_Endian \<Rightarrow> [high_byte w, low_byte w])"

definition store_long :: "platform \<Rightarrow> 32 word \<Rightarrow> byte list" where
  "store_long P w =
     (case endianness P of
        Little_Endian \<Rightarrow> map (\<lambda>k. byte_of_long k w) [0, 1, 2, 3]
      | Big_Endian \<Rightarrow> map (\<lambda>k. byte_of_long k w) [3, 2, 1, 0])"

text \<open>\<open>short x; memcpy(&x, bs, 2)\<close>, for the two bytes \<open>a\<close> and \<open>b\<close> in address order.\<close>

definition load_short :: "platform \<Rightarrow> byte \<Rightarrow> byte \<Rightarrow> short" where
  "load_short P a b =
     (case endianness P of
        Little_Endian \<Rightarrow> short_of_bytes b a
      | Big_Endian \<Rightarrow> short_of_bytes a b)"

text \<open>\<open>short x = 0; memcpy(&x, buf + off, 2); x = network_to_host_short(x)\<close>.\<close>

definition read_net_short :: "platform \<Rightarrow> byte list \<Rightarrow> int \<Rightarrow> fault + short" where
  "read_net_short P buf off =
     (case mem_read buf off 2 of
        Inl f \<Rightarrow> Inl f
      | Inr bs \<Rightarrow> Inr (network_to_host_short P (load_short P (bs ! 0) (bs ! 1))))"

lemma length_store_short [simp]: "length (store_short P w) = 2"
  by (simp add: store_short_def split: endian.split)

lemma length_store_long [simp]: "length (store_long P w) = 4"
  by (simp add: store_long_def split: endian.split)

lemma uint_high_byte: "uint (high_byte w) = uint w div 256"
proof -
  have "uint w < 65536" "0 \<le> uint w" using uint_lt2p [of w] by simp_all
  then have "uint w div 256 < 256" "0 \<le> uint w div 256"
    by (simp_all add: pos_imp_zdiv_nonneg_iff)
  then have "uint w div 256 mod 256 = uint w div 256" by (intro mod_pos_pos_trivial)
  then show ?thesis
    unfolding high_byte_def unsigned_ucast_eq unsigned_drop_bit_eq
    by (simp add: drop_bit_eq_div take_bit_eq_mod)
qed

lemma uint_low_byte: "uint (low_byte w) = uint w mod 256"
  unfolding low_byte_def unsigned_ucast_eq by (simp add: take_bit_eq_mod)

lemma uint_low_high: "256 * uint (high_byte w) + uint (low_byte w) = uint w"
  by (simp add: uint_high_byte uint_low_byte)

lemma short_of_bytes_high_low [simp]: "short_of_bytes (high_byte w) (low_byte w) = w"
  by (simp add: short_of_bytes_def uint_low_high)

lemma uint_short_of_bytes: "uint (short_of_bytes h l) = 256 * uint h + uint l"
proof -
  have "uint h < 256" "uint l < 256" using uint_lt2p [of h] uint_lt2p [of l] by simp_all
  then show ?thesis unfolding short_of_bytes_def uint_word_of_int by simp
qed

lemma high_byte_short_of_bytes [simp]: "high_byte (short_of_bytes h l) = h"
  and low_byte_short_of_bytes [simp]: "low_byte (short_of_bytes h l) = l"
proof -
  have b: "uint h < 256" "uint l < 256" "0 \<le> uint l"
    using uint_lt2p [of h] uint_lt2p [of l] by simp_all
  then show "high_byte (short_of_bytes h l) = h" and "low_byte (short_of_bytes h l) = l"
    by (simp_all add: word_uint_eq_iff uint_high_byte uint_low_byte uint_short_of_bytes)
qed

section \<open>The documented behaviour of the conversions\<close>

locale network_order =
  fixes P :: platform
  assumes to_network: "store_short P (host_to_network_short P w) = [high_byte w, low_byte w]"
    and to_host: "network_to_host_short P (load_short P a b) = short_of_bytes a b"
    and long_to_network:
      "store_long P (host_to_network_long P x) = map (\<lambda>k. byte_of_long k x) [3, 2, 1, 0]"
begin

lemma read_net_short_ok:
  assumes "0 \<le> off" "nat off + 2 \<le> length buf"
  shows "read_net_short P buf off = Inr (short_of_bytes (buf ! nat off) (buf ! (nat off + 1)))"
  using assms by (simp add: read_net_short_def mem_read_def to_host)

text \<open>A short stored in network order at some offset is read back.\<close>

lemma read_stored_short:
  assumes "store_short P (host_to_network_short P w) = take 2 (drop k buf)" "k + 2 \<le> length buf"
  shows "read_net_short P buf (int k) = Inr w"
proof -
  have "take 2 (drop k buf) = [buf ! k, buf ! (k + 1)]"
    using assms(2) by (auto intro!: nth_equalityI simp: less_Suc_eq numeral_2_eq_2)
  with assms(1) have "buf ! k = high_byte w" "buf ! (k + 1) = low_byte w"
    by (simp_all add: to_network)
  then show ?thesis using assms(2) by (simp add: read_net_short_ok)
qed

end

text \<open>The two kinds of host: on a little-endian one the conversions swap bytes, on a big-endian one
  they do nothing.\<close>

definition swap_short :: "short \<Rightarrow> short" where
  "swap_short w = short_of_bytes (low_byte w) (high_byte w)"

definition swap_long :: "32 word \<Rightarrow> 32 word" where
  "swap_long w =
     push_bit 24 (ucast (byte_of_long 0 w)) OR push_bit 16 (ucast (byte_of_long 1 w))
     OR push_bit 8 (ucast (byte_of_long 2 w)) OR ucast (byte_of_long 3 w)"

definition x86_host :: platform where
  "x86_host = \<lparr>endianness = Little_Endian, char_is_signed = True,
     host_to_network_short = swap_short, network_to_host_short = swap_short,
     host_to_network_long = swap_long\<rparr>"

definition s390_host :: platform where
  "s390_host = \<lparr>endianness = Big_Endian, char_is_signed = False,
     host_to_network_short = (\<lambda>w. w), network_to_host_short = (\<lambda>w. w),
     host_to_network_long = (\<lambda>w. w)\<rparr>"

lemma byte_of_swap_long:
  "byte_of_long 0 (swap_long w) = byte_of_long 3 w"
  "byte_of_long (Suc 0) (swap_long w) = byte_of_long 2 w"
  "byte_of_long 2 (swap_long w) = byte_of_long (Suc 0) w"
  "byte_of_long 3 (swap_long w) = byte_of_long 0 w"
  by (rule bit_word_eqI; auto simp: byte_of_long_def swap_long_def bit_simps)+

interpretation x86: network_order x86_host
proof
  show "store_short x86_host (host_to_network_short x86_host w) = [high_byte w, low_byte w]" for w
    by (simp add: store_short_def x86_host_def swap_short_def)
  show "network_to_host_short x86_host (load_short x86_host a b) = short_of_bytes a b" for a b
    by (simp add: load_short_def x86_host_def swap_short_def)
  show "store_long x86_host (host_to_network_long x86_host x) =
      map (\<lambda>k. byte_of_long k x) [3, 2, 1, 0]" for x
    by (simp add: store_long_def x86_host_def byte_of_swap_long)
qed

interpretation s390: network_order s390_host
  by unfold_locales
    (simp_all add: store_short_def load_short_def store_long_def s390_host_def)

end
