(* ===== verification/Msg_Node.thy ===== *)
theory Msg_Node
  imports Byte_Order
begin

text \<open>
  Message nodes (\<open>Server-version-3/MsgNode.h\<close>, \<open>MsgNode.cpp\<close>, \<open>const.h\<close>): the base class with its
  \<open>new[]\<close>-allocated buffer, the received node and the node to send. A subclass is a record
  extension. \<open>_data\<close> points to a block of its own, so the block itself is the field; it has one byte
  more than \<open>_total_len\<close>.
\<close>

section \<open>Constants\<close>

abbreviation HEAD_TOTAL_LEN :: int where "HEAD_TOTAL_LEN \<equiv> 4"
abbreviation HEAD_ID_LEN :: int where "HEAD_ID_LEN \<equiv> 2"
abbreviation HEAD_DATA_LEN :: int where "HEAD_DATA_LEN \<equiv> 2"
abbreviation MAX_LENGTH :: int where "MAX_LENGTH \<equiv> 1024 * 2"
abbreviation HEAD_LENGTH :: int where "HEAD_LENGTH \<equiv> 2"
abbreviation MAX_SENDQUEUE :: nat where "MAX_SENDQUEUE \<equiv> 1000"
abbreviation MSG_HELLO_WORD :: int where "MSG_HELLO_WORD \<equiv> 1001"

section \<open>The base node\<close>

record msg_node =
  cur_len :: short
  total_len :: short
  node_data :: "byte list"

text \<open>\<open>new char[n]()\<close>: value-initialised, and an exception where \<open>n\<close> is negative.\<close>

definition new_array :: "int \<Rightarrow> fault + byte list" where
  "new_array n = (if n < 0 then Inl Bad_Array_New_Length else Inr (replicate (nat n) 0))"

definition v3_MsgNode :: "short \<Rightarrow> fault + msg_node" where
  "v3_MsgNode max_len =
     (case new_array (sint max_len + 1) of
        Inl f \<Rightarrow> Inl f
      | Inr d \<Rightarrow>
          (case mem_write d (sint max_len) [0] of
             Inl f \<Rightarrow> Inl f
           | Inr d' \<Rightarrow> Inr \<lparr>cur_len = 0, total_len = max_len, node_data = d'\<rparr>))"

definition Clear :: "'a msg_node_scheme \<Rightarrow> fault + 'a msg_node_scheme" where
  "Clear nd =
     (case memset0 (node_data nd) (size_of_int (sint (total_len nd))) of
        Inl f \<Rightarrow> Inl f
      | Inr d \<Rightarrow> Inr (nd\<lparr>node_data := d, cur_len := 0\<rparr>))"

text \<open>The bytes received so far, \<open>std::string(_data, _cur_len)\<close>.\<close>

definition node_text :: "'a msg_node_scheme \<Rightarrow> byte list" where
  "node_text nd = take (nat (sint (cur_len nd))) (node_data nd)"

text \<open>The buffer an \<open>async_write\<close> of the node sends, \<open>buffer(_data, _total_len)\<close>.\<close>

definition node_buffer :: "'a msg_node_scheme \<Rightarrow> fault + byte list" where
  "node_buffer nd = mem_read (node_data nd) 0 (size_of_int (sint (total_len nd)))"

definition node_wire :: "'a msg_node_scheme \<Rightarrow> byte list" where
  "node_wire nd = (case node_buffer nd of Inl _ \<Rightarrow> [] | Inr bs \<Rightarrow> bs)"

section \<open>Received nodes and nodes to send\<close>

record recv_node = msg_node +
  recv_msg_id :: short

record send_node = msg_node +
  send_msg_id :: short

definition v3_ReciveNode :: "short \<Rightarrow> short \<Rightarrow> fault + recv_node" where
  "v3_ReciveNode max_len msg_id =
     (case v3_MsgNode max_len of
        Inl f \<Rightarrow> Inl f
      | Inr nd \<Rightarrow> Inr \<lparr>cur_len = cur_len nd, total_len = total_len nd, node_data = node_data nd,
                        recv_msg_id = msg_id\<rparr>)"

text \<open>
  \<open>msg\<close> is the block the source pointer points into. \<open>max_len + HEAD_TOTAL_LEN\<close> is an \<open>int\<close> that
  the base constructor's parameter truncates to a \<open>short\<close>.
\<close>

definition v3_SendNode :: "platform \<Rightarrow> byte list \<Rightarrow> short \<Rightarrow> short \<Rightarrow> fault + send_node" where
  "v3_SendNode P msg max_len msg_id =
     (case v3_MsgNode (short_of_int (sint max_len + HEAD_TOTAL_LEN)) of
        Inl f \<Rightarrow> Inl f
      | Inr nd \<Rightarrow>
     (case mem_write (node_data nd) 0 (store_short P (host_to_network_short P msg_id)) of
        Inl f \<Rightarrow> Inl f
      | Inr d1 \<Rightarrow>
     (case mem_write d1 HEAD_ID_LEN (store_short P (host_to_network_short P max_len)) of
        Inl f \<Rightarrow> Inl f
      | Inr d2 \<Rightarrow>
     (case memcpy d2 HEAD_TOTAL_LEN msg 0 (size_of_int (sint max_len)) of
        Inl f \<Rightarrow> Inl f
      | Inr d3 \<Rightarrow> Inr \<lparr>cur_len = cur_len nd, total_len = total_len nd, node_data = d3,
                        send_msg_id = msg_id\<rparr>))))"

section \<open>What the constructors do\<close>

lemma new_array_ok [mem_simps]: "0 \<le> n \<Longrightarrow> new_array n = Inr (replicate (nat n) 0)"
  by (simp add: new_array_def)

lemma v3_MsgNode_ok:
  assumes "0 \<le> sint max_len"
  shows "v3_MsgNode max_len =
    Inr \<lparr>cur_len = 0, total_len = max_len, node_data = replicate (Suc (nat (sint max_len))) 0\<rparr>"
proof -
  define n where "n = nat (sint max_len)"
  have "replicate n 0 @ [0 :: byte] = replicate (Suc n) 0"
    by (simp add: replicate_append_same)
  moreover have "nat (sint max_len + 1) = Suc n" using assms by (simp add: n_def)
  ultimately show ?thesis
    using assms by (simp add: v3_MsgNode_def mem_simps n_def [symmetric] del: replicate_Suc)
qed

lemma v3_MsgNode_minus_one: "sint max_len = - 1 \<Longrightarrow> v3_MsgNode max_len = Inl Out_Of_Bounds"
  by (simp add: v3_MsgNode_def mem_simps mem_write_def)

lemma v3_MsgNode_negative:
  "sint max_len < - 1 \<Longrightarrow> v3_MsgNode max_len = Inl Bad_Array_New_Length"
  by (simp add: v3_MsgNode_def new_array_def)

text \<open>Bytes copied behind those received so far extend the node's text.\<close>

lemma node_text_append:
  "sint (cur_len nd) = int c \<Longrightarrow> sint cur = int (c + length ys) \<Longrightarrow> c \<le> length (node_data nd) \<Longrightarrow>
     node_text (nd\<lparr>node_data := take c (node_data nd) @ ys @ rest, cur_len := cur\<rparr>) = node_text nd @ ys"
  by (simp add: node_text_def)

lemma Clear_ok:
  assumes "0 \<le> sint (total_len nd)" "nat (sint (total_len nd)) \<le> length (node_data nd)"
  shows "Clear nd = Inr (nd\<lparr>node_data := replicate (nat (sint (total_len nd))) 0 @
      drop (nat (sint (total_len nd))) (node_data nd), cur_len := 0\<rparr>)"
  using assms sint_short_bounds [of "total_len nd"]
  by (simp add: Clear_def mem_simps unat_size_of_int)

lemma v3_ReciveNode_ok:
  "0 \<le> sint max_len \<Longrightarrow> v3_ReciveNode max_len msg_id =
     Inr \<lparr>cur_len = 0, total_len = max_len, node_data = replicate (Suc (nat (sint max_len))) 0,
          recv_msg_id = msg_id\<rparr>"
  by (simp add: v3_ReciveNode_def v3_MsgNode_ok)

lemma v3_ReciveNode_minus_one:
  "sint max_len = - 1 \<Longrightarrow> v3_ReciveNode max_len msg_id = Inl Out_Of_Bounds"
  by (simp add: v3_ReciveNode_def v3_MsgNode_minus_one)

lemma v3_ReciveNode_negative:
  "sint max_len < - 1 \<Longrightarrow> v3_ReciveNode max_len msg_id = Inl Bad_Array_New_Length"
  by (simp add: v3_ReciveNode_def v3_MsgNode_negative)

section \<open>The wire format\<close>

text \<open>A frame: message id and body length in network order, then the body.\<close>

definition frame :: "short \<Rightarrow> byte list \<Rightarrow> byte list" where
  "frame msg_id body =
     [high_byte msg_id, low_byte msg_id,
      high_byte (short_of_int (int (length body))), low_byte (short_of_int (int (length body)))] @ body"

lemma length_frame [simp]: "length (frame msg_id body) = 4 + length body"
  by (simp add: frame_def)

text \<open>
  A node built for \<open>max_len\<close> bytes holds the frame of those bytes and a terminating zero. The bound
  is where \<open>max_len + HEAD_TOTAL_LEN\<close> still fits into a \<open>short\<close>.
\<close>

lemma v3_SendNode_frame:
  assumes P: "network_order P" and n: "0 \<le> sint max_len" "sint max_len \<le> 32763"
    and len: "nat (sint max_len) \<le> length msg"
  defines "body \<equiv> take (nat (sint max_len)) msg"
  shows "v3_SendNode P msg max_len msg_id =
    Inr \<lparr>cur_len = 0, total_len = short_of_int (sint max_len + 4),
         node_data = frame msg_id body @ [0], send_msg_id = msg_id\<rparr>"
proof -
  define n where "n = nat (sint max_len)"
  have T: "sint (short_of_int (sint max_len + 4)) = int n + 4"
    using n by (simp add: sint_short_of_int n_def)
  have len_eq: "short_of_int (int (length body)) = max_len"
    using n len by (simp add: body_def)
  have base: "v3_MsgNode (short_of_int (sint max_len + 4)) =
      Inr \<lparr>cur_len = 0, total_len = short_of_int (sint max_len + 4),
           node_data = replicate 4 0 @ replicate (Suc n) 0\<rparr>"
    using v3_MsgNode_ok [of "short_of_int (sint max_len + 4)"] T
    by (simp add: replicate_add [symmetric] nat_add_distrib del: replicate_Suc)
  have w: "mem_write (replicate 4 0 @ replicate (Suc n) 0) 0 [a, b] = Inr ([a, b, 0, 0] @ replicate (Suc n) 0)"
    "mem_write ([a, b, 0, 0] @ replicate (Suc n) 0) HEAD_ID_LEN [c, d]
      = Inr ([a, b, c, d] @ replicate (Suc n) 0)" for a b c d :: byte
    by (simp_all add: mem_simps numeral_eq_Suc)
  have cp: "memcpy ([a, b, c, d] @ replicate (Suc n) 0) HEAD_TOTAL_LEN msg 0 (size_of_int (sint max_len))
      = Inr ([a, b, c, d] @ body @ [0])" for a b c d :: byte
  proof -
    have "drop (4 + n) (a # b # c # d # xs) = drop n xs" for xs
      by (simp add: eval_nat_numeral)
    moreover have "drop n (replicate (Suc n) 0) = [0 :: byte]"
      by (simp only: drop_replicate) simp
    moreover have "unat (size_of_int (sint max_len)) = n" "n < 2 ^ 63"
      using n by (simp_all add: unat_size_of_int n_def)
    ultimately show ?thesis
      using n len by (simp add: memcpy_ok body_def n_def [symmetric])
  qed
  show ?thesis
    using base by (simp add: v3_SendNode_def network_order.to_network [OF P] w cp frame_def len_eq
        del: append_Cons replicate_Suc)
qed

text \<open>
  \<open>len\<close> is the \<open>int\<close> or \<open>size_t\<close> the caller passes: only its low 16 bits reach the constructor, so
  the frame holds \<open>len mod 65536\<close> bytes of the message.
\<close>

lemma v3_SendNode_truncates:
  assumes P: "network_order P" and len: "0 \<le> len" "len mod 65536 \<le> 32763" "nat (len mod 65536) \<le> length msg"
  defines "body \<equiv> take (nat (len mod 65536)) msg"
  shows "\<exists>nd. v3_SendNode P msg (short_of_int len) msg_id = Inr nd \<and> node_buffer nd = Inr (frame msg_id body)"
proof -
  have "short_of_int len = short_of_int (len mod 65536)"
    unfolding short_of_int_def by (rule word_of_int_eq_iff [THEN iffD2]) (simp add: take_bit_eq_mod)
  moreover have "sint (short_of_int (len mod 65536)) = len mod 65536"
    using len by (intro sint_short_of_int) auto
  ultimately have s: "sint (short_of_int len) = len mod 65536" by simp
  define n where "n = nat (len mod 65536)"
  have n: "len mod 65536 = int n" "n \<le> 32763" using len by (simp_all add: n_def)
  have node: "v3_SendNode P msg (short_of_int len) msg_id =
      Inr \<lparr>cur_len = 0, total_len = short_of_int (int n + 4), node_data = frame msg_id body @ [0], send_msg_id = msg_id\<rparr>"
    using v3_SendNode_frame [OF P, of "short_of_int len" msg msg_id] len s n by (simp add: body_def)
  have "length (frame msg_id body) = n + 4" using len n by (simp add: body_def)
  moreover have "unat (size_of_int (sint (short_of_int (int n + 4)))) = n + 4"
    using n by (simp add: sint_short_of_int unat_size_of_int nat_add_distrib)
  ultimately show ?thesis
    using n by (simp add: node node_buffer_def mem_simps)
qed

end
