(* ===== verification/Framing.thy ===== *)
theory Framing
  imports Cpp_Prelude
begin

text \<open>
  The abstract specification of a connection's receiving side: a machine that looks at the byte
  stream one byte at a time. It collects \<open>K\<close> header bytes, asks \<open>dec\<close> what they announce, and then
  either refuses the stream, crashes, or collects the announced number of body bytes and delivers
  the message. Nothing in it knows how the stream was cut into reads, so an implementation that
  refines it cannot depend on that either; this is what the locale \<open>stream_reader\<close> proves once for
  the three servers.
\<close>

datatype 'h verdict = Refuse | Crash fault | Expect 'h int

datatype 'h pstate =
    Head "byte list"
  | Body 'h int "byte list"
  | Refused
  | Crashed fault

definition head_done :: "(byte list \<Rightarrow> 'h verdict) \<Rightarrow> byte list \<Rightarrow> 'h pstate \<times> ('h \<times> byte list) list" where
  "head_done dec hs =
     (case dec hs of
        Refuse \<Rightarrow> (Refused, [])
      | Crash f \<Rightarrow> (Crashed f, [])
      | Expect h len \<Rightarrow> if len = 0 then (Head [], [(h, [])]) else (Body h len [], []))"

fun pstep :: "nat \<Rightarrow> (byte list \<Rightarrow> 'h verdict) \<Rightarrow> 'h pstate \<Rightarrow> byte \<Rightarrow> 'h pstate \<times> ('h \<times> byte list) list" where
  "pstep K dec (Head hs) b =
     (if Suc (length hs) < K then (Head (hs @ [b]), []) else head_done dec (hs @ [b]))"
| "pstep K dec (Body h len acc) b =
     (if len < 0 then (Crashed Out_Of_Bounds, [])
      else if int (Suc (length acc)) < len then (Body h len (acc @ [b]), [])
      else (Head [], [(h, acc @ [b])]))"
| "pstep K dec Refused b = (Refused, [])"
| "pstep K dec (Crashed f) b = (Crashed f, [])"

fun prun :: "nat \<Rightarrow> (byte list \<Rightarrow> 'h verdict) \<Rightarrow> 'h pstate \<Rightarrow> byte list \<Rightarrow> 'h pstate \<times> ('h \<times> byte list) list" where
  "prun K dec a [] = (a, [])"
| "prun K dec a (b # bs) =
     (let (a1, ms) = pstep K dec a b; (a2, ms') = prun K dec a1 bs in (a2, ms @ ms'))"

definition running :: "'h pstate \<Rightarrow> bool" where
  "running a \<longleftrightarrow> (case a of Head _ \<Rightarrow> True | Body _ _ _ \<Rightarrow> True | _ \<Rightarrow> False)"

lemma running_simps [simp]:
  "running (Head hs)" "running (Body h len acc)" "\<not> running Refused" "\<not> running (Crashed f)"
  by (simp_all add: running_def)

section \<open>Runs over concatenated input\<close>

lemma prun_append:
  "prun K dec a (xs @ ys) =
     (let (a1, ms) = prun K dec a xs; (a2, ms') = prun K dec a1 ys in (a2, ms @ ms'))"
  by (induction xs arbitrary: a) (auto simp: Let_def split: prod.splits)

lemma prun_appendI:
  "prun K dec a xs = (a1, ms) \<Longrightarrow> prun K dec a1 ys = (a2, ms') \<Longrightarrow>
     prun K dec a (xs @ ys) = (a2, ms @ ms')"
  by (simp add: prun_append)

lemma prun_Refused [simp]: "prun K dec Refused xs = (Refused, [])"
  by (induction xs) auto

lemma prun_Crashed [simp]: "prun K dec (Crashed f) xs = (Crashed f, [])"
  by (induction xs) auto

lemma prun_halted: "\<not> running a \<Longrightarrow> prun K dec a xs = (a, [])"
  by (cases a) simp_all

text \<open>The machine crashes only for a refused header or a body of negative length.\<close>

lemma prun_faults:
  assumes "\<And>hs f. dec hs = Crash f \<Longrightarrow> f \<in> F" "Out_Of_Bounds \<in> F"
  shows "fst (prun K dec a bs) = Crashed f \<Longrightarrow> (\<And>g. a = Crashed g \<Longrightarrow> g \<in> F) \<Longrightarrow> f \<in> F"
proof (induction bs arbitrary: a)
  case (Cons b bs)
  obtain a1 ms where step: "pstep K dec a b = (a1, ms)" by fastforce
  have "g \<in> F" if "a1 = Crashed g" for g
    using that step assms Cons.prems(2)
    by (cases a) (auto simp: head_done_def split: if_splits verdict.splits)
  with Cons.IH [of a1] Cons.prems(1) step show ?case by (auto split: prod.splits)
qed simp

section \<open>Whole pieces at a time\<close>

text \<open>The four ways a read can meet the current header or body, as the code distinguishes them.\<close>

lemma prun_head_short:
  "length hs + length xs < K \<Longrightarrow> prun K dec (Head hs) xs = (Head (hs @ xs), [])"
  by (induction xs arbitrary: hs) auto

lemma prun_head_full:
  assumes "length hs + length xs = K" "xs \<noteq> []"
  shows "prun K dec (Head hs) xs = head_done dec (hs @ xs)"
proof -
  obtain ys b where xs: "xs = ys @ [b]" using assms(2) by (cases xs rule: rev_cases) auto
  have "prun K dec (Head hs) ys = (Head (hs @ ys), [])"
    using assms(1) by (intro prun_head_short) (simp add: xs)
  moreover have "pstep K dec (Head (hs @ ys)) b = head_done dec (hs @ xs)"
    using assms(1) by (simp add: xs)
  ultimately show ?thesis by (simp add: xs prun_append Let_def split: prod.splits)
qed

lemma prun_body_short:
  "int (length acc + length xs) < len \<Longrightarrow>
     prun K dec (Body h len acc) xs = (Body h len (acc @ xs), [])"
  by (induction xs arbitrary: acc) auto

lemma prun_body_full:
  assumes "int (length acc + length xs) = len" "xs \<noteq> []"
  shows "prun K dec (Body h len acc) xs = (Head [], [(h, acc @ xs)])"
proof -
  obtain ys b where xs: "xs = ys @ [b]" using assms(2) by (cases xs rule: rev_cases) auto
  have "prun K dec (Body h len acc) ys = (Body h len (acc @ ys), [])"
    using assms(1) by (intro prun_body_short) (simp add: xs)
  moreover have "pstep K dec (Body h len (acc @ ys)) b = (Head [], [(h, acc @ xs)])"
    using assms(1) by (auto simp: xs)
  ultimately show ?thesis by (simp add: xs prun_append Let_def)
qed

lemma prun_body_neg:
  "len < 0 \<Longrightarrow> xs \<noteq> [] \<Longrightarrow> prun K dec (Body h len acc) xs = (Crashed Out_Of_Bounds, [])"
  by (cases xs) simp_all

text \<open>After \<open>k\<close> bytes that end a header announcing \<open>t\<close>: the rest begins the body, or completes it.\<close>

lemma prun_begun:
  assumes "prun K dec a (take k xs) = (if t = 0 then (Head [], [(h, [])]) else (Body h (int t) [], []))"
    and "k \<le> length xs" "length xs < k + t"
  shows "prun K dec a xs = (Body h (int t) (drop k xs), [])"
proof -
  have "prun K dec a (take k xs @ drop k xs) = (Body h (int t) ([] @ drop k xs), [] @ [])"
    using assms by (intro prun_appendI [of _ _ a _ "Body h (int t) []"] prun_body_short) auto
  then show ?thesis by simp
qed

lemma prun_completed:
  assumes "prun K dec a (take k xs) = (if t = 0 then (Head [], [(h, [])]) else (Body h (int t) [], []))"
    and "k + t \<le> length xs"
  shows "prun K dec a (take (k + t) xs) = (Head [], [(h, take t (drop k xs))])"
proof (cases "t = 0")
  case False
  then have "prun K dec a (take k xs @ take t (drop k xs)) = (Head [], [] @ [(h, [] @ take t (drop k xs))])"
    using assms by (intro prun_appendI [of _ _ a _ "Body h (int t) []"] prun_body_full) auto
  then show ?thesis by (simp add: take_add)
qed (use assms in simp)

text \<open>Any part of a stream that leads to a halt decides the whole.\<close>

lemma prun_halts_early:
  assumes "prun K dec a (take k xs) = (b, ms)" "\<not> running b"
  shows "prun K dec a xs = (b, ms)"
  using prun_appendI [OF assms(1) prun_halted [OF assms(2)], of "drop k xs"] by simp

lemma prun_split:
  "prun K dec a (take k xs) = (b, ms) \<Longrightarrow> prun K dec b (drop k xs) = (c, ms') \<Longrightarrow> prun K dec a xs = (c, ms @ ms')"
  using prun_appendI [of K dec a "take k xs" b ms "drop k xs" c ms'] by simp

text \<open>A whole frame: a header that announces \<open>len\<close> bytes, then those bytes.\<close>

lemma prun_frame:
  assumes "length hs = K" "0 < K" "dec hs = Expect h (int (length body))"
  shows "prun K dec (Head []) (hs @ body) = (Head [], [(h, body)])"
proof -
  have "hs \<noteq> []" using assms(1,2) by auto
  then have hd: "prun K dec (Head []) hs = head_done dec hs"
    using prun_head_full [of "[]" hs K dec] assms(1) by simp
  show ?thesis
  proof (cases "body = []")
    case True
    with hd assms(3) show ?thesis by (simp add: head_done_def)
  next
    case False
    with hd assms(3) have "prun K dec (Head []) hs = (Body h (int (length body)) [], [])"
      by (simp add: head_done_def)
    moreover have "prun K dec (Body h (int (length body)) []) body = (Head [], [(h, body)])"
      using False by (simp add: prun_body_full)
    ultimately show ?thesis by (simp add: prun_append)
  qed
qed

lemma prun_frames:
  assumes "0 < K"
    and "\<And>m. m \<in> set ms \<Longrightarrow> length (hd_of m) = K \<and> dec (hd_of m) = Expect (fst m) (int (length (snd m)))"
  shows "prun K dec (Head []) (concat (map (\<lambda>m. hd_of m @ snd m) ms)) = (Head [], ms)"
  using assms(2)
proof (induction ms)
  case Nil
  then show ?case by simp
next
  case (Cons m ms)
  have "prun K dec (Head []) (hd_of m @ snd m) = (Head [], [(fst m, snd m)])"
    using Cons.prems [of m] assms(1) by (intro prun_frame) auto
  moreover have "prun K dec (Head []) (concat (map (\<lambda>m. hd_of m @ snd m) ms)) = (Head [], ms)"
    using Cons by simp
  ultimately have "prun K dec (Head []) ((hd_of m @ snd m) @ concat (map (\<lambda>m. hd_of m @ snd m) ms))
      = (Head [], [(fst m, snd m)] @ ms)"
    by (rule prun_appendI)
  then show ?case by simp
qed

section \<open>The contract of a receiving handler\<close>

text \<open>
  \<open>on_read\<close> is one completion of the connection's outstanding read. It promises to do what the
  specification does with the bytes of that read, and to hand the completed messages over
  (\<open>deliver\<close>) to the state \<open>sink\<close> of whoever takes them. From one such promise per read follow the
  facts about whole connections.
\<close>

locale stream_reader =
  fixes K :: nat
    and dec :: "byte list \<Rightarrow> 'h verdict"
    and inv :: "'s \<Rightarrow> bool"
    and chunk_ok :: "byte list \<Rightarrow> bool"
    and abs :: "'s \<Rightarrow> 'h pstate"
    and sink :: "'s \<Rightarrow> 'w"
    and deliver :: "'h \<times> byte list \<Rightarrow> 'w \<Rightarrow> 'w"
    and on_read :: "'s \<Rightarrow> byte list \<Rightarrow> 's"
  assumes refines:
    "inv s \<Longrightarrow> chunk_ok c \<Longrightarrow> prun K dec (abs s) c = (a, ms) \<Longrightarrow>
       inv (on_read s c) \<and> abs (on_read s c) = a \<and> sink (on_read s c) = fold deliver ms (sink s)"
begin

lemma reads_refine:
  assumes "inv s" "\<forall>c\<in>set cs. chunk_ok c" "prun K dec (abs s) (concat cs) = (a, ms)"
  shows "inv (foldl on_read s cs) \<and> abs (foldl on_read s cs) = a \<and>
    sink (foldl on_read s cs) = fold deliver ms (sink s)"
  using assms
proof (induction cs arbitrary: s ms)
  case Nil
  then show ?case by simp
next
  case (Cons c cs)
  obtain a1 ms1 where r1: "prun K dec (abs s) c = (a1, ms1)" by fastforce
  obtain a2 ms2 where r2: "prun K dec a1 (concat cs) = (a2, ms2)" by fastforce
  have "inv (on_read s c) \<and> abs (on_read s c) = a1 \<and> sink (on_read s c) = fold deliver ms1 (sink s)"
    using Cons.prems r1 by (intro refines) auto
  moreover have "a = a2" "ms = ms1 @ ms2"
    using Cons.prems(3) r1 r2 by (simp_all add: prun_append)
  ultimately show ?case
    using Cons.IH [of "on_read s c" ms2] Cons.prems(2) r2 by simp
qed

text \<open>How the stream was cut into reads has no effect on what is delivered.\<close>

lemma fragmentation_irrelevant:
  assumes "inv s" "\<forall>c\<in>set cs. chunk_ok c" "\<forall>c\<in>set ds. chunk_ok c" "concat cs = concat ds"
  shows "sink (foldl on_read s cs) = sink (foldl on_read s ds) \<and>
    abs (foldl on_read s cs) = abs (foldl on_read s ds)"
proof -
  obtain a ms where "prun K dec (abs s) (concat cs) = (a, ms)" by fastforce
  with reads_refine [of s cs a ms] reads_refine [of s ds a ms] assms show ?thesis by simp
qed

text \<open>Well-formed frames, cut up in any way, are delivered in order and nothing else is.\<close>

lemma frames_delivered:
  assumes "inv s" "abs s = Head []" "\<forall>c\<in>set cs. chunk_ok c" "0 < K"
    and "\<And>m. m \<in> set ms \<Longrightarrow> length (hd_of m) = K \<and> dec (hd_of m) = Expect (fst m) (int (length (snd m)))"
    and "concat cs = concat (map (\<lambda>m. hd_of m @ snd m) ms)"
  shows "abs (foldl on_read s cs) = Head [] \<and> sink (foldl on_read s cs) = fold deliver ms (sink s)"
proof -
  have "prun K dec (abs s) (concat cs) = (Head [], ms)"
    using prun_frames [OF assms(4) assms(5)] assms(2) by (simp add: assms(6))
  from reads_refine [OF assms(1) assms(3) this] show ?thesis by simp
qed

end

end
