(* ===== verification/Session_State.thy ===== *)
theory Session_State
  imports Msg_Node Framing
begin

text \<open>
  The data members of \<open>CSession\<close>, which the three servers share up to the classes of their nodes
  (\<open>'r\<close> received, \<open>'q\<close> queued), the node a session posts to the logic system, and the raw-data trace
  \<open>PrintRecvData\<close>. A \<open>shared_ptr\<close> to a session is represented by the session's uuid.
\<close>

record ('r, 'q) csession =
  uuid :: string
  data_buf :: "byte list"             \<comment> \<open>\<open>char _data[MAX_LENGTH]\<close>\<close>
  b_close :: bool
  send_que :: "'q list"
  recv_msg_node :: "'r option"
  b_head_parse :: bool
  recv_head_node :: msg_node

record logic_node =
  ln_session :: string
  ln_recvnode :: recv_node

text \<open>
  The multi-threaded server declares the same nodes; the one \<open>MsgNode\<close> of the echo server serves for received
  and queued messages.
\<close>

type_synonym mt_node = msg_node
type_synonym mt_recv_node = recv_node
type_synonym mt_send_node = send_node
type_synonym mt_logic_node = logic_node
type_synonym v2_msg_node = msg_node

text \<open>\<open>CSession\<close> of each server. In the echo server received and queued nodes are plain \<open>MsgNode\<close>s.\<close>

type_synonym v3_session = "(recv_node, send_node) csession"
type_synonym mt_session = "(mt_recv_node, mt_send_node) csession"
type_synonym v2_session = "(v2_msg_node, v2_msg_node) csession"

text \<open>What \<open>HandleWrite\<close> prints of a node: \<open>_data + HEAD_LENGTH\<close>, up to the first zero byte.\<close>

definition sent_trace :: "'a msg_node_scheme \<Rightarrow> byte list" where
  "sent_trace nd = takeWhile (\<lambda>b. b \<noteq> 0) (drop (nat HEAD_LENGTH) (node_data nd))"

text \<open>\<open>::memset(_data, 0, MAX_LENGTH)\<close>, which precedes every \<open>async_read_some\<close>.\<close>

definition clear_data :: "('r, 'q) csession \<Rightarrow> ('r, 'q) csession" where
  "clear_data s = s\<lparr>data_buf := replicate 2048 0\<rparr>"

section \<open>A measure for the read loop\<close>

text \<open>
  Every iteration that goes round again leaves an empty head, and has consumed at least one byte
  unless the head was not empty before. The measure is the number of unread bytes, then whether a
  head or a body is begun.
\<close>

definition fresh :: "('r, 'q) csession \<Rightarrow> bool" where
  "fresh s \<longleftrightarrow> \<not> b_head_parse s \<and> cur_len (recv_head_node s) = 0"

definition loop_rel :: "((('r, 'q) csession \<times> size_t) \<times> (('r, 'q) csession \<times> size_t)) set" where
  "loop_rel = measures [\<lambda>(s, n). unat n, \<lambda>(s, n). if fresh s then 0 else 1]"

lemma wf_loop_rel: "wf loop_rel"
  by (simp add: loop_rel_def)

section \<open>The raw-data trace\<close>

text \<open>
  \<open>int(data[i])\<close> sign-extends where \<open>char\<close> is signed; \<open>hex\<close> prints the unsigned 32-bit value;
  \<open>setw(2)\<close> with fill \<open>0\<close> pads to two digits and never cuts.
\<close>

definition hex_digit :: "nat \<Rightarrow> char" where
  "hex_digit d = (if d < 10 then char_of (48 + d) else char_of (87 + d))"

fun hex_digits :: "nat \<Rightarrow> string" where
  "hex_digits n = (if n < 16 then [hex_digit n] else hex_digits (n div 16) @ [hex_digit (n mod 16)])"

declare hex_digits.simps [simp del]

definition int_of_char :: "platform \<Rightarrow> byte \<Rightarrow> int" where
  "int_of_char P b = (if char_is_signed P then sint b else uint b)"

definition hex_token :: "platform \<Rightarrow> byte \<Rightarrow> string" where
  "hex_token P b =
     (let h = hex_digits (nat (int_of_char P b mod 2 ^ 32))
      in if length h < 2 then CHR ''0'' # h else h)"

definition v3_PrintRecvData :: "platform \<Rightarrow> byte list \<Rightarrow> int \<Rightarrow> fault + string" where
  "v3_PrintRecvData P buf len =
     (if len \<le> int (length buf)
      then Inr (''0x'' @ concat (map (hex_token P) (take (nat len) buf)))
      else Inl Out_Of_Bounds)"

lemma v3_PrintRecvData_ok [mem_simps]:
  "len \<le> int (length buf) \<Longrightarrow> v3_PrintRecvData P buf len =
     Inr (''0x'' @ concat (map (hex_token P) (take (nat len) buf)))"
  by (simp add: v3_PrintRecvData_def)

text \<open>A byte takes two digits, a sign-extended one eight.\<close>

lemma length_hex_digits: "16 ^ k \<le> n \<Longrightarrow> n < 16 ^ Suc k \<Longrightarrow> length (hex_digits n) = Suc k"
proof (induction k arbitrary: n)
  case 0
  then show ?case by (subst hex_digits.simps) simp
next
  case (Suc k)
  have "1 \<le> (16 :: nat) ^ k" by simp
  then have "16 \<le> (16 :: nat) ^ Suc k" unfolding power_Suc by linarith
  with Suc.prems(1) have "\<not> n < 16" by linarith
  moreover have "16 ^ k \<le> n div 16" using Suc.prems(1) by (simp add: less_eq_div_iff_mult_less_eq mult.commute)
  moreover have "n div 16 < 16 ^ Suc k" using Suc.prems(2) by (simp add: div_less_iff_less_mult mult.commute)
  ultimately show ?case using Suc.IH [of "n div 16"] by (subst hex_digits.simps) simp
qed

lemma length_hex_digits_small: "n < 16 \<Longrightarrow> length (hex_digits n) = 1"
  by (subst hex_digits.simps) simp

lemma length_hex_token: "length (hex_token P b) = (if char_is_signed P \<and> 128 \<le> uint b then 8 else 2)"
proof -
  have u: "0 \<le> uint b" "uint b < 256" using uint_lt2p [of b] by simp_all
  have s: "sint b = (uint b + 128) mod 256 - 128"
    using int_word_sint [of "uint b", where 'a = 8] by simp
  define n where "n = nat (int_of_char P b mod 2 ^ 32)"
  consider "n < 16" "\<not> (char_is_signed P \<and> 128 \<le> uint b)" | "16 \<le> n" "n < 256" "\<not> (char_is_signed P \<and> 128 \<le> uint b)"
    | "16 ^ 7 \<le> n" "n < 16 ^ 8" "char_is_signed P" "128 \<le> uint b"
  proof (cases "char_is_signed P \<and> 128 \<le> uint b")
    case True
    then have "(uint b + 128) mod 256 = uint b - 128"
      using u mod_pos_pos_trivial [of "uint b - 128" 256] mod_add_self2 [of "uint b - 128" 256]
      by (simp add: add.commute)
    then have "int_of_char P b = uint b - 256" using True s by (simp add: int_of_char_def)
    moreover have "(uint b - 256) mod 2 ^ 32 = uint b - 256 + 2 ^ 32"
      using u mod_pos_pos_trivial [of "uint b - 256 + 2 ^ 32" "2 ^ 32"] mod_add_self2 [of "uint b - 256" "2 ^ 32"] by simp
    ultimately have "16 ^ 7 \<le> n" "n < 16 ^ 8" using True u by (auto simp: n_def)
    with True that(3) show ?thesis by blast
  next
    case False
    then have "int_of_char P b = uint b" using u s by (auto simp: int_of_char_def)
    then have "int n < 256" using u by (simp add: n_def del: nat_uint_eq)
    then have "n < 256" by simp
    with False that show ?thesis by (meson not_less)
  qed
  moreover have "hex_token P b = (let h = hex_digits n in if length h < 2 then CHR ''0'' # h else h)"
    by (simp only: hex_token_def n_def)
  ultimately show ?thesis
    using length_hex_digits [of 1 n] length_hex_digits [of 7 n]
    by cases (auto simp: Let_def length_hex_digits_small)
qed

section \<open>A connection\<close>

text \<open>
  A session together with everything its handlers have done so far. \<open>Reading\<close> means that a read is
  outstanding; without one the session gets no more input. Only the completion of an outstanding
  read calls \<open>HandleRead\<close>, with at least one and at most \<open>MAX_LENGTH\<close> bytes (what
  \<open>async_read_some\<close> into a buffer of that size promises).
\<close>

datatype status = Reading | Idle | Faulted fault

record ('r, 'q, 'm) connection =
  sess :: "('r, 'q) csession"
  trace :: "'m effect list"
  state :: status

text \<open>The status a connection is in follows from where its stream stands.\<close>

fun status_of :: "'h pstate \<Rightarrow> status" where
  "status_of (Head _) = Reading"
| "status_of (Body _ _ _) = Reading"
| "status_of Refused = Idle"
| "status_of (Crashed f) = Faulted f"

definition fill_buffer :: "byte list \<Rightarrow> ('r, 'q) csession \<Rightarrow> ('r, 'q) csession" where
  "fill_buffer chunk s = s\<lparr>data_buf := chunk @ drop (length chunk) (data_buf s)\<rparr>"

definition chunk_ok :: "byte list \<Rightarrow> bool" where
  "chunk_ok chunk \<longleftrightarrow> chunk \<noteq> [] \<and> length chunk \<le> 2048"

fun after_read ::
  "'m effect list \<Rightarrow> 'm effect list \<times> ('r, 'q) csession outcome \<Rightarrow> ('r, 'q, 'm) connection" where
  "after_read tr (es, Returned s) =
     \<lparr>sess = s, trace = tr @ es, state = (if Async_Read \<in> set es then Reading else Idle)\<rparr>"
| "after_read tr (es, Raised f s) = \<lparr>sess = s, trace = tr @ es, state = Faulted f\<rparr>"

text \<open>The count \<open>asio\<close> passes on is the number of bytes it put into the buffer.\<close>

lemma chunk_count:
  assumes "chunk_ok chunk"
  shows "unat (word_of_nat (length chunk) :: size_t) = length chunk"
    and "(word_of_nat (length chunk) :: size_t) \<noteq> 0"
proof -
  show u: "unat (word_of_nat (length chunk) :: size_t) = length chunk"
    using assms by (simp add: chunk_ok_def unat_of_nat)
  show "(word_of_nat (length chunk) :: size_t) \<noteq> 0"
    using u assms by (auto simp: chunk_ok_def)
qed

lemma chunk_trace_length:
  assumes "chunk_ok chunk"
  shows "sint (ucast (word_of_nat (length chunk) :: size_t) :: 32 word) = int (length chunk)"
proof -
  let ?w = "word_of_nat (length chunk) :: size_t"
  have "uint ?w = int (length chunk)"
    using chunk_count(1) [OF assms] by (simp add: uint_nat)
  moreover have "(ucast ?w :: 32 word) = word_of_int (uint ?w)" by simp
  ultimately have "sint (ucast ?w :: 32 word) = sint (word_of_int (int (length chunk)) :: 32 word)"
    by (simp only:)
  also have "\<dots> = int (length chunk)"
    using assms by (subst int_word_sint) (simp add: chunk_ok_def)
  finally show ?thesis .
qed

lemma pending_fill_buffer:
  assumes "chunk_ok chunk" "length (data_buf s) = 2048"
  shows "pending (data_buf (fill_buffer chunk s)) (word_of_nat (length chunk)) 0 = chunk"
  using assms by (simp add: pending_def fill_buffer_def chunk_count)

section \<open>The read loop's place in the buffer\<close>

text \<open>
  \<open>xs\<close> are the bytes of the read, of which the loop has consumed \<open>k\<close>; \<open>n\<close> is what it takes to be left
  (\<open>bytes_transferred\<close>), from the offset \<open>off\<close> of the buffer on (\<open>copy_len\<close>).
\<close>

definition cursor :: "byte list \<Rightarrow> byte list \<Rightarrow> nat \<Rightarrow> size_t \<Rightarrow> int \<Rightarrow> bool" where
  "cursor buf xs k n off \<longleftrightarrow>
     length buf = 2048 \<and> 0 \<le> off \<and> nat off + unat n \<le> 2048 \<and> k \<le> length xs \<and> pending buf n off = drop k xs"

lemma cursor_start:
  "length buf = 2048 \<Longrightarrow> 0 \<le> off \<Longrightarrow> nat off + unat n \<le> 2048 \<Longrightarrow> cursor buf (pending buf n off) 0 n off"
  by (simp add: cursor_def)

lemma cursor_length:
  assumes "cursor buf xs k n off"
  shows "length xs = k + unat n" "unat n \<le> 2048" "length buf = 2048"
proof -
  have "length (pending buf n off) = unat n" using assms by (intro length_pending) (auto simp: cursor_def)
  then have "length (drop k xs) = unat n" using assms by (simp only: cursor_def)
  moreover have "k \<le> length xs" using assms by (simp only: cursor_def)
  ultimately show "length xs = k + unat n" by simp
qed (use assms in \<open>auto simp: cursor_def\<close>)

lemma cursor_copy:
  assumes at: "cursor buf xs k n off" and m: "unat m \<le> unat n" and d: "c + unat m \<le> length d"
  shows "memcpy d (int c) buf off m = Inr (take c d @ take (unat m) (drop k xs) @ drop (c + unat m) d)"
proof -
  have "take (unat m) (drop k xs) = take (unat m) (drop (nat off) buf)"
    using at take_pending [OF m] by (metis cursor_def)
  then show ?thesis using assms by (simp add: cursor_def mem_simps)
qed

lemma cursor_advance:
  assumes at: "cursor buf xs k n off" and j: "j \<le> unat n"
  shows "cursor buf xs (k + j) (n - size_of_int (int j)) (off + int j)"
proof -
  have "unat (n - size_of_int (int j)) = unat n - j"
    using j cursor_length(2) [OF at] by (simp add: unat_size_sub)
  moreover have "pending buf (n - size_of_int (int j)) (off + int j) = drop (k + j) xs"
    using assms cursor_length(2) [OF at] by (simp add: cursor_def pending_advance add.commute)
  ultimately show ?thesis
    using assms cursor_length(1) [OF at] by (simp add: cursor_def nat_add_distrib)
qed

lemma cursor_end: "cursor buf xs k 0 off \<Longrightarrow> take k xs = xs"
  using cursor_length(1) [of buf xs k 0 off] by simp

lemma unat_size_small [cpp_conv]: "j \<le> 2048 \<Longrightarrow> unat (size_of_int (int j)) = j"
  by (simp add: unat_size_of_int)

end
