(* ===== verification/Send_Queue.thy ===== *)
theory Send_Queue
  imports Cpp_Prelude
begin

text \<open>
  The sending side of a connection, abstractly: frames that have been written to the socket, frames
  that wait (the first of them is being written), and whether a write has failed. The locale
  \<open>write_queue\<close> states what \<open>Send\<close> and \<open>HandleWrite\<close> promise about one call each; that any
  interleaving of calls and completions behaves like the abstract channel, with never two writes
  outstanding, is proved from it once for the three servers. The calls are serialised by the
  session's \<open>_send_lock\<close>, so an interleaving is a list of events.
\<close>

section \<open>The abstract channel\<close>

datatype 'x chan_event = Submit 'x | Completed | Failed

record 'x channel =
  wire :: "'x list"
  waiting :: "'x list"
  stuck :: bool

definition empty_channel :: "'x channel" where
  "empty_channel = \<lparr>wire = [], waiting = [], stuck = False\<rparr>"

fun chan_step :: "nat \<Rightarrow> 'x channel \<Rightarrow> 'x chan_event \<Rightarrow> 'x channel" where
  "chan_step limit ch (Submit x) =
     (if length (waiting ch) \<le> limit then ch\<lparr>waiting := waiting ch @ [x]\<rparr> else ch)"
| "chan_step limit ch Completed =
     (if stuck ch then ch
      else case waiting ch of [] \<Rightarrow> ch | x # xs \<Rightarrow> ch\<lparr>wire := wire ch @ [x], waiting := xs\<rparr>)"
| "chan_step limit ch Failed = (if waiting ch = [] then ch else ch\<lparr>stuck := True\<rparr>)"

fun submissions :: "'x chan_event list \<Rightarrow> 'x list" where
  "submissions [] = []"
| "submissions (Submit x # es) = x # submissions es"
| "submissions (_ # es) = submissions es"

lemma submissions_append [simp]: "submissions (es @ fs) = submissions es @ submissions fs"
  by (induction es rule: submissions.induct) auto

text \<open>The queue never exceeds the limit by more than one.\<close>

lemma chan_step_bound: "length (waiting ch) \<le> Suc limit \<Longrightarrow> length (waiting (chan_step limit ch e)) \<le> Suc limit"
  by (cases e) (auto split: list.splits)

lemma chan_bound:
  "length (waiting ch) \<le> Suc limit \<Longrightarrow> length (waiting (foldl (chan_step limit) ch es)) \<le> Suc limit"
  by (induction es arbitrary: ch) (auto simp: chan_step_bound)

text \<open>Nothing is lost, duplicated or reordered until the queue is full.\<close>

lemma chan_step_contents:
  "wire (chan_step limit ch e) @ waiting (chan_step limit ch e) =
     (wire ch @ waiting ch) @ (if length (waiting ch) \<le> limit then submissions [e] else [])"
  by (cases e) (auto split: list.splits)

lemma chan_fifo:
  assumes "length (waiting ch) + length (submissions es) \<le> Suc limit"
  shows "wire (foldl (chan_step limit) ch es) @ waiting (foldl (chan_step limit) ch es) =
    (wire ch @ waiting ch) @ submissions es"
  using assms
proof (induction es arbitrary: ch)
  case Nil
  then show ?case by simp
next
  case (Cons e es)
  let ?ch = "chan_step limit ch e"
  have "length (waiting ?ch) \<le> length (waiting ch) + length (submissions [e])"
    by (cases e) (auto split: list.splits)
  moreover have "submissions (e # es) = submissions [e] @ submissions es"
    using submissions_append [of "[e]" es] by simp
  ultimately have "wire (foldl (chan_step limit) ?ch es) @ waiting (foldl (chan_step limit) ?ch es) =
      (wire ?ch @ waiting ?ch) @ submissions es"
    using Cons by (intro Cons.IH) simp
  moreover have "length (waiting ch) \<le> limit \<or> submissions [e] = []"
    using Cons.prems by (cases e) auto
  ultimately show ?case
    using chan_step_contents [of limit ch e] submissions_append [of "[e]" es] by auto
qed

text \<open>After a failed write nothing more is written.\<close>

lemma chan_stuck:
  "stuck ch \<Longrightarrow> wire (foldl (chan_step limit) ch es) = wire ch \<and> stuck (foldl (chan_step limit) ch es)"
proof (induction es arbitrary: ch)
  case (Cons e es)
  have "wire (chan_step limit ch e) = wire ch" "stuck (chan_step limit ch e)"
    using Cons.prems by (cases e; simp)+
  with Cons.IH show ?case by simp
qed simp

section \<open>Events around a session\<close>

text \<open>
  The session with the write that \<open>asio\<close> is carrying out for it. Only an outstanding write can
  complete; \<open>overlap\<close> records whether a write was ever started while another was outstanding.
\<close>

record 's writer =
  wsess :: 's
  in_flight :: "byte list option"
  on_wire :: "byte list list"
  overlap :: bool
  crashed :: "fault option"

definition idle_writer :: "'s \<Rightarrow> 's writer" where
  "idle_writer s = \<lparr>wsess = s, in_flight = None, on_wire = [], overlap = False, crashed = None\<rparr>"

fun after_call :: "'s writer \<Rightarrow> 'm effect list \<times> 's outcome \<Rightarrow> 's writer" where
  "after_call w (es, Returned s) =
     w\<lparr>wsess := s,
       in_flight := (if written es = [] then in_flight w else Some (hd (written es))),
       overlap := (overlap w \<or> 1 < length (written es) \<or> written es \<noteq> [] \<and> in_flight w \<noteq> None)\<rparr>"
| "after_call w (es, Raised f s) = w\<lparr>wsess := s, crashed := Some f\<rparr>"

fun write_event ::
  "('a \<Rightarrow> 's \<Rightarrow> 'm effect list \<times> 's outcome) \<Rightarrow> (bool \<Rightarrow> 's \<Rightarrow> 'm effect list \<times> 's outcome) \<Rightarrow>
   's writer \<Rightarrow> 'a chan_event \<Rightarrow> 's writer" where
  "write_event send handle_write w (Submit a) = after_call w (send a (wsess w))"
| "write_event send handle_write w Completed =
     (case in_flight w of
        None \<Rightarrow> w
      | Some bs \<Rightarrow> after_call (w\<lparr>in_flight := None, on_wire := on_wire w @ [bs]\<rparr>) (handle_write False (wsess w)))"
| "write_event send handle_write w Failed =
     (case in_flight w of
        None \<Rightarrow> w
      | Some bs \<Rightarrow> after_call (w\<lparr>in_flight := None\<rparr>) (handle_write True (wsess w)))"

section \<open>The contract of a send queue\<close>

locale write_queue =
  fixes send :: "'a \<Rightarrow> 's \<Rightarrow> 'm effect list \<times> 's outcome"
    and handle_write :: "bool \<Rightarrow> 's \<Rightarrow> 'm effect list \<times> 's outcome"
    and queue :: "'s \<Rightarrow> byte list list"
    and inv :: "'s \<Rightarrow> bool"
    and arg_ok :: "'a \<Rightarrow> bool"
    and frame_of :: "'a \<Rightarrow> byte list"
    and limit :: nat
  assumes send_full: "inv s \<Longrightarrow> arg_ok a \<Longrightarrow> limit < length (queue s) \<Longrightarrow> send a s = ([], Returned s)"
    and send_queued: "inv s \<Longrightarrow> arg_ok a \<Longrightarrow> length (queue s) \<le> limit \<Longrightarrow>
      \<exists>es s'. send a s = (es, Returned s') \<and> inv s' \<and> queue s' = queue s @ [frame_of a] \<and>
        written es = (if queue s = [] then [frame_of a] else [])"
    and write_done: "inv s \<Longrightarrow> queue s = f # fs \<Longrightarrow>
      \<exists>es s'. handle_write False s = (es, Returned s') \<and> inv s' \<and> queue s' = fs \<and> written es = take 1 fs"
    and write_failed: "inv s \<Longrightarrow>
      \<exists>es s'. handle_write True s = (es, Returned s') \<and> inv s' \<and> queue s' = queue s \<and> written es = []"
begin

definition represents :: "'s writer \<Rightarrow> byte list channel \<Rightarrow> bool" where
  "represents w ch \<longleftrightarrow> inv (wsess w) \<and> crashed w = None \<and> \<not> overlap w \<and>
     on_wire w = wire ch \<and> queue (wsess w) = waiting ch \<and> (stuck ch \<longrightarrow> waiting ch \<noteq> []) \<and>
     in_flight w = (if stuck ch \<or> waiting ch = [] then None else Some (hd (waiting ch)))"

lemma represents_idle: "inv s \<Longrightarrow> queue s = [] \<Longrightarrow> represents (idle_writer s) empty_channel"
  by (simp add: represents_def idle_writer_def empty_channel_def)

lemma submit_simulates:
  assumes r: "represents w ch" and a: "arg_ok a"
  shows "represents (write_event send handle_write w (Submit a)) (chan_step limit ch (Submit (frame_of a)))"
proof (cases "length (waiting ch) \<le> limit")
  case True
  then obtain es s' where "send a (wsess w) = (es, Returned s')" "inv s'"
    "queue s' = queue (wsess w) @ [frame_of a]"
    "written es = (if queue (wsess w) = [] then [frame_of a] else [])"
    using send_queued [of "wsess w" a] r a by (auto simp: represents_def)
  with True r show ?thesis by (auto simp: represents_def)
next
  case False
  then have "send a (wsess w) = ([], Returned (wsess w))"
    using send_full [of "wsess w" a] r a by (auto simp: represents_def)
  with False r show ?thesis by (auto simp: represents_def)
qed

lemma completed_simulates:
  assumes r: "represents w ch"
  shows "represents (write_event send handle_write w Completed) (chan_step limit ch Completed)"
proof (cases "stuck ch \<or> waiting ch = []")
  case True
  then show ?thesis using r by (auto simp: represents_def split: list.splits)
next
  case False
  then obtain f fs where q: "waiting ch = f # fs" "\<not> stuck ch" by (cases "waiting ch") auto
  then obtain es s' where "handle_write False (wsess w) = (es, Returned s')" "inv s'" "queue s' = fs"
    "written es = take 1 fs"
    using write_done [of "wsess w" f fs] r by (auto simp: represents_def)
  with q r show ?thesis by (cases fs) (auto simp: represents_def)
qed

lemma failed_simulates:
  assumes r: "represents w ch"
  shows "represents (write_event send handle_write w Failed) (chan_step limit ch Failed)"
proof (cases "stuck ch \<or> waiting ch = []")
  case True
  then show ?thesis using r by (auto simp: represents_def)
next
  case False
  obtain es s' where "handle_write True (wsess w) = (es, Returned s')" "inv s'"
    "queue s' = queue (wsess w)" "written es = []"
    using write_failed [of "wsess w"] r by (auto simp: represents_def)
  with False r show ?thesis by (auto simp: represents_def)
qed

definition event_ok :: "'a chan_event \<Rightarrow> bool" where
  "event_ok e \<longleftrightarrow> (case e of Submit a \<Rightarrow> arg_ok a | _ \<Rightarrow> True)"

theorem simulates:
  assumes "represents w ch" "list_all event_ok es"
  shows "represents (foldl (write_event send handle_write) w es)
    (foldl (chan_step limit) ch (map (map_chan_event frame_of) es))"
  using assms
proof (induction es arbitrary: w ch)
  case Nil
  then show ?case by simp
next
  case (Cons e es)
  have "represents (write_event send handle_write w e) (chan_step limit ch (map_chan_event frame_of e))"
    using Cons.prems submit_simulates completed_simulates failed_simulates
    by (cases e) (auto simp: event_ok_def)
  with Cons show ?case by simp
qed

text \<open>What a client of the queue may rely on, for a session that starts with an empty queue.\<close>

lemma writer_channel:
  assumes "inv s" "queue s = []" "list_all event_ok es"
  defines "w \<equiv> foldl (write_event send handle_write) (idle_writer s) es"
    and "ch \<equiv> foldl (chan_step limit) empty_channel (map (map_chan_event frame_of) es)"
  shows "crashed w = None" and "\<not> overlap w" and "on_wire w = wire ch" and "queue (wsess w) = waiting ch"
    and "in_flight w = (if stuck ch \<or> waiting ch = [] then None else Some (hd (waiting ch)))"
  using simulates [OF represents_idle [OF assms(1,2)] assms(3)]
  by (simp_all add: represents_def w_def ch_def)

lemma queue_bounded:
  assumes "inv s" "queue s = []" "list_all event_ok es"
  shows "length (queue (wsess (foldl (write_event send handle_write) (idle_writer s) es))) \<le> Suc limit"
  using writer_channel(4) [OF assms] by (simp add: chan_bound empty_channel_def)

lemma frames_in_order:
  assumes "inv s" "queue s = []" "list_all event_ok es" "length (submissions es) \<le> Suc limit"
  defines "w \<equiv> foldl (write_event send handle_write) (idle_writer s) es"
  shows "on_wire w @ queue (wsess w) = map frame_of (submissions es)"
proof -
  have "submissions (map (map_chan_event frame_of) es) = map frame_of (submissions es)"
    by (induction es rule: submissions.induct) auto
  then show ?thesis
    using chan_fifo [of empty_channel "map (map_chan_event frame_of) es" limit] assms(4)
      writer_channel(3,4) [OF assms(1-3)]
    by (simp add: w_def empty_channel_def)
qed

end

end
