(* ===== verification/Endpoint.thy ===== *)
theory Endpoint
  imports Session_State Send_Queue "HOL-Library.Sublist"
begin

text \<open>
  Both directions of a connection at once. An \<open>endpoint\<close> is a session with what \<open>asio\<close> is carrying out
  for it and with the bytes that have crossed the TCP connection; completions of reads and writes come
  in any order. The locale \<open>session_contract\<close> extends \<open>write_queue\<close> by what the read handler promises,
  and derives what an endpoint of any of the three servers may be relied on for.
\<close>

section \<open>Effects carried out\<close>

record ('s, 'm) endpoint =
  ep_sess :: 's
  read_pending :: bool
  write_pending :: "byte list option"
  received :: "byte list"          \<comment> \<open>the bytes of all completed reads\<close>
  on_tcp :: "byte list list"       \<comment> \<open>the buffers of all completed writes\<close>
  inbox :: "'m list"               \<comment> \<open>what has been posted to the logic system\<close>
  socket_open :: bool
  cleared :: bool                  \<comment> \<open>whether it asked the server to be cleared\<close>
  clear_calls :: nat               \<comment> \<open>how often it did\<close>
  overlapping :: bool              \<comment> \<open>whether two reads or two writes were ever outstanding\<close>
  ended :: "fault option"          \<comment> \<open>the fault a handler ended in, which ends the process\<close>

definition fresh_endpoint :: "'s \<Rightarrow> ('s, 'm) endpoint" where
  "fresh_endpoint s = \<lparr>ep_sess = s, read_pending = False, write_pending = None, received = [], on_tcp = [],
     inbox = [], socket_open = True, cleared = False, clear_calls = 0, overlapping = False, ended = None\<rparr>"

fun perform :: "('s, 'm) endpoint \<Rightarrow> 'm effect \<Rightarrow> ('s, 'm) endpoint" where
  "perform ep (Print _) = ep"
| "perform ep Async_Read = ep\<lparr>read_pending := True, overlapping := (overlapping ep \<or> read_pending ep)\<rparr>"
| "perform ep (Async_Write bs) =
     ep\<lparr>write_pending := Some bs, overlapping := (overlapping ep \<or> write_pending ep \<noteq> None)\<rparr>"
| "perform ep Socket_Close = ep\<lparr>socket_open := False\<rparr>"
| "perform ep (Clear_Session _) = ep\<lparr>cleared := True, clear_calls := Suc (clear_calls ep)\<rparr>"
| "perform ep (Post m) = ep\<lparr>inbox := inbox ep @ [m]\<rparr>"

fun finish_call :: "('s, 'm) endpoint \<Rightarrow> 'm effect list \<times> 's outcome \<Rightarrow> ('s, 'm) endpoint" where
  "finish_call ep (es, Returned s) = (foldl perform ep es)\<lparr>ep_sess := s\<rparr>"
| "finish_call ep (es, Raised f s) = (foldl perform ep es)\<lparr>ep_sess := s, ended := Some f\<rparr>"

text \<open>Only what is outstanding completes, with the bytes it read or wrote or with an error.\<close>

datatype net_event = Got "byte list" | Read_Failed | Wrote | Write_Failed

fun ep_event ::
  "(byte list \<Rightarrow> 's \<Rightarrow> 'm effect list \<times> 's outcome) \<Rightarrow> ('s \<Rightarrow> 'm effect list \<times> 's outcome) \<Rightarrow>
   (bool \<Rightarrow> 's \<Rightarrow> 'm effect list \<times> 's outcome) \<Rightarrow> ('s, 'm) endpoint \<Rightarrow> net_event \<Rightarrow> ('s, 'm) endpoint" where
  "ep_event rd rd_err wr ep (Got chunk) =
     (if read_pending ep
      then finish_call (ep\<lparr>read_pending := False, received := received ep @ chunk\<rparr>) (rd chunk (ep_sess ep)) else ep)"
| "ep_event rd rd_err wr ep Read_Failed =
     (if read_pending ep then finish_call (ep\<lparr>read_pending := False\<rparr>) (rd_err (ep_sess ep)) else ep)"
| "ep_event rd rd_err wr ep Wrote =
     (case write_pending ep of
        None \<Rightarrow> ep
      | Some bs \<Rightarrow> finish_call (ep\<lparr>write_pending := None, on_tcp := on_tcp ep @ [bs]\<rparr>) (wr False (ep_sess ep)))"
| "ep_event rd rd_err wr ep Write_Failed =
     (case write_pending ep of
        None \<Rightarrow> ep
      | Some bs \<Rightarrow> finish_call (ep\<lparr>write_pending := None\<rparr>) (wr True (ep_sess ep)))"

section \<open>What a list of effects amounts to\<close>

definition reads :: "'m effect list \<Rightarrow> nat" where
  "reads es = length (filter (\<lambda>e. e = Async_Read) es)"

definition clears :: "'m effect list \<Rightarrow> bool" where
  "clears es \<longleftrightarrow> (\<exists>u. Clear_Session u \<in> set es)"

lemma reads_simps [simp]:
  "reads [] = 0" "reads (Async_Read # es) = Suc (reads es)" "reads (Print t # es) = reads es"
  "reads (Async_Write bs # es) = reads es" "reads (Socket_Close # es) = reads es"
  "reads (Clear_Session u # es) = reads es" "reads (Post m # es) = reads es" "reads (es @ fs) = reads es + reads fs"
  "reads (map Post ms) = 0" "reads (map Async_Write ws) = 0"
  by (simp_all add: reads_def filter_empty_conv)

lemma clears_simps [simp]:
  "\<not> clears []" "clears (Async_Read # es) = clears es" "clears (Print t # es) = clears es"
  "clears (Async_Write bs # es) = clears es" "clears (Socket_Close # es) = clears es"
  "clears (Clear_Session u # es)" "clears (Post m # es) = clears es" "clears (es @ fs) \<longleftrightarrow> clears es \<or> clears fs"
  "\<not> clears (map Post ms)" "\<not> clears (map Async_Write ws)"
  by (auto simp: clears_def)

lemma concat_map_Nil [simp]: "concat (map (\<lambda>_. []) xs) = []"
  by (induction xs) simp_all

lemma written_map_Post [simp]: "written (map Post ms) = []"
  by (induction ms) auto

lemma posted_map_Async_Write [simp]: "posted (map Async_Write ws) = []"
  by (induction ws) auto

text \<open>What \<open>perform\<close> never touches, and what a run of it adds.\<close>

lemma perform_frame [simp]:
  "ep_sess (foldl perform ep es) = ep_sess ep" "received (foldl perform ep es) = received ep"
  "on_tcp (foldl perform ep es) = on_tcp ep" "ended (foldl perform ep es) = ended ep"
proof -
  have "ep_sess (perform ep e) = ep_sess ep \<and> received (perform ep e) = received ep \<and>
      on_tcp (perform ep e) = on_tcp ep \<and> ended (perform ep e) = ended ep" for ep :: "('a, 'b) endpoint" and e
    by (cases e) simp_all
  then show "ep_sess (foldl perform ep es) = ep_sess ep" "received (foldl perform ep es) = received ep"
    "on_tcp (foldl perform ep es) = on_tcp ep" "ended (foldl perform ep es) = ended ep"
    by (induction es arbitrary: ep) simp_all
qed

lemma perform_run [simp]:
  "read_pending (foldl perform ep es) \<longleftrightarrow> read_pending ep \<or> 0 < reads es"
  "inbox (foldl perform ep es) = inbox ep @ posted es"
  "cleared (foldl perform ep es) \<longleftrightarrow> cleared ep \<or> clears es"
  "write_pending (foldl perform ep es) = (if written es = [] then write_pending ep else Some (last (written es)))"
proof (induction es arbitrary: ep)
  case (Cons e es)
  {
    case 1
    show ?case using Cons.IH(1) by (cases e) auto
  next
    case 2
    show ?case using Cons.IH(2) by (cases e) auto
  next
    case 3
    show ?case using Cons.IH(3) by (cases e) auto
  next
    case 4
    show ?case using Cons.IH(4) by (cases e) auto
  }
qed simp_all

lemma perform_overlapping:
  "overlapping (foldl perform ep es) \<longleftrightarrow> overlapping ep \<or>
     1 < reads es + (if read_pending ep then 1 else 0) \<and> 0 < reads es \<or>
     1 < length (written es) + (if write_pending ep = None then 0 else 1) \<and> written es \<noteq> []"
proof (induction es arbitrary: ep)
  case (Cons e es)
  show ?case unfolding foldl_Cons Cons.IH by (cases e) auto
qed simp

lemma finish_call_frame [simp]:
  "received (finish_call ep (es, r)) = received ep" "on_tcp (finish_call ep (es, r)) = on_tcp ep"
  "inbox (finish_call ep (es, r)) = inbox ep @ posted es"
  "cleared (finish_call ep (es, r)) \<longleftrightarrow> cleared ep \<or> clears es"
  "read_pending (finish_call ep (es, r)) \<longleftrightarrow> read_pending ep \<or> 0 < reads es"
  "write_pending (finish_call ep (es, r)) = (if written es = [] then write_pending ep else Some (last (written es)))"
  by (cases r; simp)+

text \<open>An endpoint forgets neither what it posted nor that it was cleared.\<close>

lemma finish_call_same [simp]: "finish_call ep ([], Returned (ep_sess ep)) = ep"
  by simp

lemma ep_event_grows:
  "\<exists>ms. inbox (ep_event rd rd_err wr ep e) = inbox ep @ ms" "cleared ep \<Longrightarrow> cleared (ep_event rd rd_err wr ep e)"
proof -
  obtain es r where "rd (case e of Got chunk \<Rightarrow> chunk | _ \<Rightarrow> []) (ep_sess ep) = (es, r)" by fastforce
  moreover obtain es1 r1 where "rd_err (ep_sess ep) = (es1, r1)" by fastforce
  moreover obtain es2 r2 where "wr (e = Write_Failed) (ep_sess ep) = (es2, r2)" by fastforce
  ultimately show "\<exists>ms. inbox (ep_event rd rd_err wr ep e) = inbox ep @ ms"
    "cleared ep \<Longrightarrow> cleared (ep_event rd rd_err wr ep e)"
    by (cases e; cases "write_pending ep"; simp)+
qed

text \<open>Each call of the server's \<open>clear_session\<close> counts, also that of a session that was cleared before.\<close>

lemma perform_clear_calls:
  "clear_calls ep \<le> clear_calls (foldl perform ep es) \<and>
   (clear_calls ep < clear_calls (foldl perform ep es) \<longleftrightarrow> clears es)"
proof (induction es arbitrary: ep)
  case (Cons e es)
  from Cons [of "perform ep e"] show ?case by (cases e) auto
qed simp

lemma finish_call_clear_calls: "clear_calls ep < clear_calls (finish_call ep (es, r)) \<longleftrightarrow> clears es"
  using perform_clear_calls [of ep es] by (cases r) simp_all

lemma ep_event_clears:
  "cleared (ep_event rd rd_err wr ep e) \<longleftrightarrow> cleared ep \<or> clear_calls ep < clear_calls (ep_event rd rd_err wr ep e)"
proof -
  have fin: "cleared (finish_call ep' c) \<longleftrightarrow> cleared ep' \<or> clear_calls ep' < clear_calls (finish_call ep' c)"
    for ep' :: "('s, 'm) endpoint" and c
    by (cases c) (simp add: finish_call_clear_calls del: finish_call.simps)
  show ?thesis
  proof (cases e)
    case (Got chunk)
    with fin [of "ep\<lparr>read_pending := False, received := received ep @ chunk\<rparr>"] show ?thesis by simp
  next
    case Read_Failed
    with fin [of "ep\<lparr>read_pending := False\<rparr>"] show ?thesis by simp
  next
    case Wrote
    show ?thesis
    proof (cases "write_pending ep")
      case (Some bs)
      with Wrote fin [of "ep\<lparr>write_pending := None, on_tcp := on_tcp ep @ [bs]\<rparr>"] show ?thesis by simp
    qed (simp add: Wrote)
  next
    case Write_Failed
    with fin [of "ep\<lparr>write_pending := None\<rparr>"] show ?thesis by (simp split: option.split)
  qed
qed

section \<open>Submissions\<close>

text \<open>
  One submission to a queue that accepts up to \<open>limit\<close> waiting frames and starts a write if it was
  empty: the frames queued and the writes started.
\<close>

fun submit :: "nat \<Rightarrow> byte list \<Rightarrow> byte list list \<times> byte list list \<Rightarrow> byte list list \<times> byte list list" where
  "submit limit f (q, ws) =
     (if length q \<le> limit then (q @ [f], if q = [] then ws @ [f] else ws) else (q, ws))"

lemma fold_submit:
  "\<exists>gs. fold (submit limit) fs (q, ws) = (q @ gs, ws @ (if q = [] then take 1 gs else [])) \<and> subseq gs fs \<and>
     (length q + length fs \<le> Suc limit \<longrightarrow> gs = fs)"
proof (induction fs arbitrary: q ws)
  case (Cons f fs)
  show ?case
  proof (cases "length q \<le> limit")
    case True
    obtain gs where "fold (submit limit) fs (q @ [f], if q = [] then ws @ [f] else ws) =
        ((q @ [f]) @ gs, if q = [] then ws @ [f] else ws)"
      "subseq gs fs" "length (q @ [f]) + length fs \<le> Suc limit \<longrightarrow> gs = fs"
      using Cons.IH [of "q @ [f]" "if q = [] then ws @ [f] else ws"] by auto
    with True show ?thesis by (intro exI [of _ "f # gs"]) auto
  next
    case False
    then obtain gs where "fold (submit limit) fs (q, ws) = (q @ gs, ws @ (if q = [] then take 1 gs else []))"
      "subseq gs fs"
      using Cons.IH [of q ws] by auto
    with False show ?thesis by (intro exI [of _ gs]) (auto intro: list_emb_Cons)
  qed
qed simp

section \<open>The contract of a session\<close>

text \<open>The fault a run ends the process with; \<open>fatal\<close> are the faults the handler does not catch.\<close>

fun crash :: "(fault \<Rightarrow> bool) \<Rightarrow> 'h pstate \<Rightarrow> fault option" where
  "crash fatal (Crashed f) = (if fatal f then Some f else None)"
| "crash fatal _ = None"

definition ends_as :: "fault option \<Rightarrow> 's \<Rightarrow> 's outcome" where
  "ends_as f s = (case f of None \<Rightarrow> Returned s | Some f \<Rightarrow> Raised f s)"

lemma ends_as_simps [simp]: "ends_as None s = Returned s" "ends_as (Some f) s = Raised f s"
  by (simp_all add: ends_as_def)

locale session_contract = write_queue send wr queue wr_inv arg_ok frame_of limit
  for send :: "'a \<Rightarrow> 's \<Rightarrow> 'm effect list \<times> 's outcome"
    and wr :: "bool \<Rightarrow> 's \<Rightarrow> 'm effect list \<times> 's outcome"
    and queue :: "'s \<Rightarrow> byte list list"
    and wr_inv :: "'s \<Rightarrow> bool"
    and arg_ok :: "'a \<Rightarrow> bool"
    and frame_of :: "'a \<Rightarrow> byte list"
    and limit :: nat +
  fixes rd :: "byte list \<Rightarrow> 's \<Rightarrow> 'm effect list \<times> 's outcome"
    and rd_err :: "'s \<Rightarrow> 'm effect list \<times> 's outcome"
    and K :: nat
    and dec :: "byte list \<Rightarrow> 'h verdict"
    and rd_abs :: "'s \<Rightarrow> 'h pstate"
    and rd_inv :: "'s \<Rightarrow> bool"
    and fatal :: "fault \<Rightarrow> bool"
    and echo :: "'h \<times> byte list \<Rightarrow> byte list list"
    and tag :: "'h \<times> byte list \<Rightarrow> 'v list"
    and view :: "'m \<Rightarrow> 'v"
  assumes read_step: "wr_inv s \<Longrightarrow> rd_inv s \<Longrightarrow> chunk_ok chunk \<Longrightarrow> prun K dec (rd_abs s) chunk = (b, ms) \<Longrightarrow>
      \<exists>es s'. rd chunk s = (es, ends_as (crash fatal b) s') \<and> (running b \<longrightarrow> rd_inv s' \<and> rd_abs s' = b) \<and>
        reads es = (if running b then 1 else 0) \<and> (clears es \<longleftrightarrow> b = Refused) \<and>
        map view (posted es) = concat (map tag ms) \<and>
        (crash fatal b = None \<longrightarrow> wr_inv s' \<and>
          (queue s', written es) = fold (submit limit) (concat (map echo ms)) (queue s, []))"
    and read_fails: "wr_inv s \<Longrightarrow> \<exists>es s'. rd_err s = (es, Returned s') \<and> wr_inv s' \<and> queue s' = queue s \<and>
        reads es = 0 \<and> clears es \<and> posted es = [] \<and> written es = []"
    and send_keeps: "send a s = (es, Returned s') \<Longrightarrow>
        (rd_inv s' \<longleftrightarrow> rd_inv s) \<and> rd_abs s' = rd_abs s \<and> reads es = 0 \<and> \<not> clears es \<and> posted es = []"
    and write_keeps: "wr error s = (es, Returned s') \<Longrightarrow>
        (rd_inv s' \<longleftrightarrow> rd_inv s) \<and> rd_abs s' = rd_abs s \<and> reads es = 0 \<and> (clears es \<longleftrightarrow> error) \<and> posted es = []"
begin

abbreviation "event \<equiv> ep_event rd rd_err wr"

definition stream_of :: "('s, 'm) endpoint \<Rightarrow> 'h pstate" where
  "stream_of ep = fst (prun K dec (Head []) (received ep))"

definition messages_of :: "('s, 'm) endpoint \<Rightarrow> ('h \<times> byte list) list" where
  "messages_of ep = snd (prun K dec (Head []) (received ep))"

text \<open>
  The invariant of an endpoint: what was posted is what the bytes received say, a read is outstanding
  unless the session was cleared or crashed, the write outstanding is that of the first frame queued.
\<close>

definition ep_ok :: "('s, 'm) endpoint \<Rightarrow> bool" where
  "ep_ok ep \<longleftrightarrow> ended ep = None \<and> \<not> overlapping ep \<and> wr_inv (ep_sess ep) \<and>
     map view (inbox ep) = concat (map tag (messages_of ep)) \<and>
     (read_pending ep \<longrightarrow> rd_inv (ep_sess ep) \<and> rd_abs (ep_sess ep) = stream_of ep \<and> running (stream_of ep)) \<and>
     (\<not> read_pending ep \<longrightarrow> cleared ep \<or> (\<exists>f. stream_of ep = Crashed f)) \<and>
     (case write_pending ep of
        None \<Rightarrow> queue (ep_sess ep) = [] \<or> cleared ep
      | Some bs \<Rightarrow> \<exists>q. queue (ep_sess ep) = bs # q)"

text \<open>All frames accepted for the client, written or still queued.\<close>

definition backlog :: "('s, 'm) endpoint \<Rightarrow> byte list list" where
  "backlog ep = on_tcp ep @ queue (ep_sess ep)"

text \<open>Completions for which nothing is outstanding do not occur.\<close>

lemma event_idle [simp]:
  "\<not> read_pending ep \<Longrightarrow> event ep (Got chunk) = ep" "\<not> read_pending ep \<Longrightarrow> event ep Read_Failed = ep"
  "write_pending ep = None \<Longrightarrow> event ep Wrote = ep" "write_pending ep = None \<Longrightarrow> event ep Write_Failed = ep"
  by simp_all

text \<open>
  A read: the process goes on unless the bytes crash it, and then the endpoint is fine; what it echoes
  joins the backlog, all of it while there is room.
\<close>

lemma got_step:
  assumes ok: "ep_ok ep" and pend: "read_pending ep" and chunk: "chunk_ok chunk"
  defines "ep' \<equiv> event ep (Got chunk)"
  shows "received ep' = received ep @ chunk" and "ended ep' = crash fatal (stream_of ep')"
    and "ended ep' = None \<Longrightarrow> ep_ok ep'"
    and "ended ep' = None \<Longrightarrow> \<exists>ms gs. messages_of ep' = messages_of ep @ ms \<and> backlog ep' = backlog ep @ gs \<and>
      subseq gs (concat (map echo ms)) \<and>
      (length (queue (ep_sess ep)) + length (concat (map echo ms)) \<le> Suc limit \<longrightarrow> gs = concat (map echo ms))"
proof -
  let ?s = "ep_sess ep"
  have inv: "wr_inv ?s" "rd_inv ?s" "rd_abs ?s = stream_of ep" using ok pend by (simp_all add: ep_ok_def)
  obtain b ms where run: "prun K dec (rd_abs ?s) chunk = (b, ms)" by fastforce
  obtain es s' where es: "rd chunk ?s = (es, ends_as (crash fatal b) s')"
    and rd: "running b \<longrightarrow> rd_inv s' \<and> rd_abs s' = b" "reads es = (if running b then 1 else 0)"
      "clears es \<longleftrightarrow> b = Refused" "map view (posted es) = concat (map tag ms)"
    and q: "crash fatal b = None \<longrightarrow> wr_inv s' \<and>
      (queue s', written es) = fold (submit limit) (concat (map echo ms)) (queue ?s, [])"
    using read_step [OF inv(1,2) chunk run] by metis
  have prun: "prun K dec (Head []) (received ep @ chunk) = (b, messages_of ep @ ms)"
    using run inv(3) by (cases "prun K dec (Head []) (received ep)") (simp add: prun_append stream_of_def messages_of_def)
  have ep': "ep' = finish_call (ep\<lparr>read_pending := False, received := received ep @ chunk\<rparr>) (es, ends_as (crash fatal b) s')"
    using pend by (simp add: ep'_def es)
  show rcv: "received ep' = received ep @ chunk" by (simp add: ep')
  have st: "stream_of ep' = b" and msg: "messages_of ep' = messages_of ep @ ms"
    by (simp_all add: stream_of_def messages_of_def rcv prun)
  show "ended ep' = crash fatal (stream_of ep')"
    using ok by (simp add: st) (simp add: ep' ends_as_def ep_ok_def split: option.split)
  assume "ended ep' = None"
  then have ok_end: "crash fatal b = None" by (auto simp: ep' ends_as_def split: option.splits)
  obtain gs where gs: "queue s' = queue ?s @ gs" "written es = (if queue ?s = [] then take 1 gs else [])"
    "subseq gs (concat (map echo ms))"
    "length (queue ?s) + length (concat (map echo ms)) \<le> Suc limit \<longrightarrow> gs = concat (map echo ms)"
    using q ok_end fold_submit [of limit "concat (map echo ms)" "queue ?s" "[]"] by auto
  have sess: "ep_sess ep' = s'" "on_tcp ep' = on_tcp ep" by (simp_all add: ep' ok_end)
  show "\<exists>ms gs. messages_of ep' = messages_of ep @ ms \<and> backlog ep' = backlog ep @ gs \<and>
      subseq gs (concat (map echo ms)) \<and>
      (length (queue ?s) + length (concat (map echo ms)) \<le> Suc limit \<longrightarrow> gs = concat (map echo ms))"
    using gs by (intro exI [of _ ms] exI [of _ gs]) (simp add: msg backlog_def sess)
  have no_overlap: "\<not> overlapping ep'"
    using ok rd(2) gs(2) by (auto simp: ep' ok_end perform_overlapping ep_ok_def take_Suc split: option.splits)
  have writing: "case write_pending ep' of None \<Rightarrow> queue s' = [] \<or> cleared ep' | Some bs \<Rightarrow> \<exists>q. queue s' = bs # q"
    using ok gs(1,2) by (cases gs) (auto simp: ep' ok_end ep_ok_def split: option.splits)
  have reading: "read_pending ep' \<longleftrightarrow> running b" "cleared ep' \<longleftrightarrow> cleared ep \<or> b = Refused"
    "inbox ep' = inbox ep @ posted es"
    using rd by (auto simp: ep' ok_end)
  have "running b \<or> b = Refused \<or> (\<exists>f. b = Crashed f)" by (cases b) simp_all
  then have "\<not> read_pending ep' \<Longrightarrow> cleared ep' \<or> (\<exists>f. b = Crashed f)" using reading by blast
  moreover have "map view (inbox ep') = concat (map tag (messages_of ep'))"
    using ok rd(4) by (simp add: reading(3) msg ep_ok_def)
  ultimately show "ep_ok ep'"
    using writing no_overlap reading(1) q rd(1) ok_end \<open>ended ep' = None\<close>
    unfolding ep_ok_def st sess by blast
qed

text \<open>Bytes after which the stream goes on leave the session served, with its next read outstanding.\<close>

lemma got_running:
  assumes ok: "ep_ok ep" and pend: "read_pending ep" and chunk: "chunk_ok chunk"
    and run: "running (fst (prun K dec (Head []) (received ep @ chunk)))"
  defines "ep' \<equiv> event ep (Got chunk)"
  shows "ended ep' = None" "read_pending ep'" "cleared ep' = cleared ep"
proof -
  let ?s = "ep_sess ep"
  have inv: "wr_inv ?s" "rd_inv ?s" "rd_abs ?s = stream_of ep" using ok pend by (simp_all add: ep_ok_def)
  obtain b ms where b: "prun K dec (rd_abs ?s) chunk = (b, ms)" by fastforce
  obtain es s' where es: "rd chunk ?s = (es, ends_as (crash fatal b) s')" "reads es = (if running b then 1 else 0)"
    "clears es \<longleftrightarrow> b = Refused"
    using read_step [OF inv(1,2) chunk b] by metis
  have "prun K dec (Head []) (received ep @ chunk) = (b, messages_of ep @ ms)"
    using b inv(3) by (cases "prun K dec (Head []) (received ep)") (simp add: prun_append stream_of_def messages_of_def)
  then have "running b" using run by simp
  moreover have "\<not> running Refused" by simp
  ultimately have go: "crash fatal b = None" "b \<noteq> Refused" "running b" by (cases b; auto)+
  have "ep' = finish_call (ep\<lparr>read_pending := False, received := received ep @ chunk\<rparr>) (es, Returned s')"
    using pend by (simp add: ep'_def es(1) go)
  with es(2,3) go ok show "ended ep' = None" "read_pending ep'" "cleared ep' = cleared ep" by (simp_all add: ep_ok_def)
qed

text \<open>A failed read, and completed or failed writes.\<close>

lemma other_step:
  assumes ok: "ep_ok ep" and e: "e = Read_Failed \<or> e = Wrote \<or> e = Write_Failed"
  defines "ep' \<equiv> event ep e"
  shows "ep_ok ep'" and "backlog ep' = backlog ep" and "received ep' = received ep"
proof -
  let ?s = "ep_sess ep"
  have inv: "wr_inv ?s" using ok by (simp add: ep_ok_def)
  have "ep_ok ep' \<and> backlog ep' = backlog ep \<and> received ep' = received ep"
  proof (cases "read_pending ep \<and> e = Read_Failed \<or> write_pending ep \<noteq> None \<and> e \<noteq> Read_Failed")
    case False
    then have "ep' = ep" using e by (auto simp: ep'_def)
    with ok show ?thesis by simp
  next
    case True
    consider (read) "read_pending ep" "e = Read_Failed"
      | (wrote) bs where "write_pending ep = Some bs" "e = Wrote"
      | (failed) bs where "write_pending ep = Some bs" "e = Write_Failed"
      using True e by blast
    then show ?thesis
    proof cases
      case read
      obtain es s' where es: "rd_err ?s = (es, Returned s')" "wr_inv s'" "queue s' = queue ?s" "reads es = 0"
        "clears es" "posted es = []" "written es = []"
        using read_fails [OF inv] by blast
      then have "ep' = finish_call (ep\<lparr>read_pending := False\<rparr>) (es, Returned s')" using read by (simp add: ep'_def)
      with ok es show ?thesis
        by (auto simp: ep_ok_def backlog_def messages_of_def stream_of_def perform_overlapping split: option.splits)
    next
      case (wrote bs)
      then obtain q where q: "queue ?s = bs # q" using ok by (auto simp: ep_ok_def)
      obtain es s' where es: "wr False ?s = (es, Returned s')" "wr_inv s'" "queue s' = q" "written es = take 1 q"
        using write_done [OF inv q] by blast
      have ep': "ep' = finish_call (ep\<lparr>write_pending := None, on_tcp := on_tcp ep @ [bs]\<rparr>) (es, Returned s')"
        using wrote es(1) by (simp add: ep'_def)
      with ok es q write_keeps [OF es(1)] show ?thesis
        by (cases q) (auto simp: ep_ok_def backlog_def messages_of_def stream_of_def perform_overlapping)
    next
      case (failed bs)
      obtain es s' where es: "wr True ?s = (es, Returned s')" "wr_inv s'" "queue s' = queue ?s" "written es = []"
        using write_failed [OF inv] by blast
      then have "ep' = finish_call (ep\<lparr>write_pending := None\<rparr>) (es, Returned s')" using failed by (simp add: ep'_def)
      with ok es write_keeps [OF es(1)] show ?thesis
        by (auto simp: ep_ok_def backlog_def messages_of_def stream_of_def perform_overlapping)
    qed
  qed
  then show "ep_ok ep'" "backlog ep' = backlog ep" "received ep' = received ep" by simp_all
qed

text \<open>Each operation that fails calls the server's \<open>clear_session\<close>.\<close>

lemma failure_clears:
  assumes ok: "ep_ok ep"
    and fails: "e = Read_Failed \<and> read_pending ep \<or> e = Write_Failed \<and> write_pending ep \<noteq> None"
  shows "clear_calls ep < clear_calls (event ep e)"
proof -
  have inv: "wr_inv (ep_sess ep)" using ok by (simp add: ep_ok_def)
  from fails show ?thesis
  proof (elim disjE conjE)
    assume e: "e = Read_Failed" "read_pending ep"
    obtain es s' where es: "rd_err (ep_sess ep) = (es, Returned s')" "clears es" using read_fails [OF inv] by blast
    with e finish_call_clear_calls [of "ep\<lparr>read_pending := False\<rparr>" es "Returned s'"] show ?thesis
      by (simp del: finish_call.simps)
  next
    assume e: "e = Write_Failed" "write_pending ep \<noteq> None"
    obtain es s' where es: "wr True (ep_sess ep) = (es, Returned s')" using write_failed [OF inv] by blast
    then have "clears es" using write_keeps by blast
    with e es finish_call_clear_calls [of "ep\<lparr>write_pending := None\<rparr>" es "Returned s'"] show ?thesis
      by (auto simp del: finish_call.simps)
  qed
qed

text \<open>A write that succeeds puts the first frame of the queue on the connection.\<close>

lemma wrote_step:
  assumes ok: "ep_ok ep" and pend: "write_pending ep = Some bs"
  shows "ended (event ep Wrote) = None" "on_tcp (event ep Wrote) = on_tcp ep @ [bs]"
    "inbox (event ep Wrote) = inbox ep" "cleared (event ep Wrote) = cleared ep" "read_pending (event ep Wrote) = read_pending ep"
    "received (event ep Wrote) = received ep" "queue (ep_sess ep) = bs # queue (ep_sess (event ep Wrote))"
    "\<not> clear_calls ep < clear_calls (event ep Wrote)"
proof -
  have "ep_ok (event ep Wrote)" by (rule other_step(1) [OF ok]) simp
  then show "ended (event ep Wrote) = None" unfolding ep_ok_def by blast
  obtain q where q: "queue (ep_sess ep) = bs # q" using ok pend by (auto simp: ep_ok_def)
  have "wr_inv (ep_sess ep)" using ok by (simp add: ep_ok_def)
  from write_done [OF this q] obtain es s' where es: "wr False (ep_sess ep) = (es, Returned s')" "queue s' = q" by blast
  note keeps = write_keeps [OF es(1)]
  have e: "event ep Wrote = finish_call (ep\<lparr>write_pending := None, on_tcp := on_tcp ep @ [bs]\<rparr>) (es, Returned s')"
    using pend es(1) by simp
  show "on_tcp (event ep Wrote) = on_tcp ep @ [bs]" "inbox (event ep Wrote) = inbox ep"
    "cleared (event ep Wrote) = cleared ep" "read_pending (event ep Wrote) = read_pending ep"
    "received (event ep Wrote) = received ep"
    unfolding e finish_call_frame using keeps by simp_all
  show "queue (ep_sess ep) = bs # queue (ep_sess (event ep Wrote))" unfolding e using q es(2) by simp
  have "\<not> clears es" using keeps by simp
  then show "\<not> clear_calls ep < clear_calls (event ep Wrote)"
    using finish_call_clear_calls [of "ep\<lparr>write_pending := None, on_tcp := on_tcp ep @ [bs]\<rparr>" es "Returned s'"]
    unfolding e by (simp del: finish_call.simps)
qed

text \<open>Any completion.\<close>

lemma event_step:
  assumes ok: "ep_ok ep" and sized: "\<And>chunk. e = Got chunk \<Longrightarrow> chunk_ok chunk" and up: "ended (event ep e) = None"
  shows "ep_ok (event ep e)"
    and "\<exists>ms gs. messages_of (event ep e) = messages_of ep @ ms \<and> backlog (event ep e) = backlog ep @ gs \<and>
      subseq gs (concat (map echo ms)) \<and>
      (length (queue (ep_sess ep)) + length (concat (map echo ms)) \<le> Suc limit \<longrightarrow> gs = concat (map echo ms))"
proof -
  have "ep_ok (event ep e) \<and>
    (\<exists>ms gs. messages_of (event ep e) = messages_of ep @ ms \<and> backlog (event ep e) = backlog ep @ gs \<and>
      subseq gs (concat (map echo ms)) \<and>
      (length (queue (ep_sess ep)) + length (concat (map echo ms)) \<le> Suc limit \<longrightarrow> gs = concat (map echo ms)))"
  proof (cases "\<exists>chunk. e = Got chunk \<and> read_pending ep")
    case True
    then obtain chunk where "e = Got chunk" "read_pending ep" by blast
    with got_step [OF ok, of chunk] sized up show ?thesis by metis
  next
    case False
    show ?thesis
    proof (cases "e = Read_Failed \<or> e = Wrote \<or> e = Write_Failed")
      case True
      note step = other_step [OF ok True]
      then have "messages_of (event ep e) = messages_of ep @ []" by (simp add: messages_of_def)
      with step show ?thesis by (intro conjI exI [of _ "[]"]) simp_all
    next
      case other: False
      then obtain chunk where "e = Got chunk" by (cases e) auto
      with False have "event ep e = ep" by simp
      with ok show ?thesis by (intro conjI exI [of _ "[]"]) simp_all
    qed
  qed
  then show "ep_ok (event ep e)"
    "\<exists>ms gs. messages_of (event ep e) = messages_of ep @ ms \<and> backlog (event ep e) = backlog ep @ gs \<and>
      subseq gs (concat (map echo ms)) \<and>
      (length (queue (ep_sess ep)) + length (concat (map echo ms)) \<le> Suc limit \<longrightarrow> gs = concat (map echo ms))"
    by simp_all
qed

text \<open>The only way to end the process: bytes that crash the stream with a fault nobody catches.\<close>

lemma event_ends:
  assumes ok: "ep_ok ep" and sized: "\<And>chunk. e = Got chunk \<Longrightarrow> chunk_ok chunk"
  shows "ended (event ep e) = Some f \<longleftrightarrow>
    (\<exists>chunk. e = Got chunk \<and> read_pending ep \<and> fst (prun K dec (Head []) (received ep @ chunk)) = Crashed f \<and> fatal f)"
proof (cases "\<exists>chunk. e = Got chunk \<and> read_pending ep")
  case True
  then obtain chunk where e: "e = Got chunk" "read_pending ep" by blast
  have "crash fatal a = Some f \<longleftrightarrow> a = Crashed f \<and> fatal f" for a :: "'h pstate"
    by (cases a) auto
  with got_step(1,2) [OF ok e(2) sized [OF e(1)]] e show ?thesis
    by (simp del: ep_event.simps add: stream_of_def)
next
  case False
  have "ended (event ep e) = None"
  proof (cases "e = Read_Failed \<or> e = Wrote \<or> e = Write_Failed")
    case True
    show ?thesis using other_step(1) [OF ok True] by (simp add: ep_ok_def)
  next
    case other: False
    then obtain chunk where "e = Got chunk" by (cases e) auto
    with False ok show ?thesis by (simp add: ep_ok_def)
  qed
  with False show ?thesis by auto
qed

text \<open>A call of \<open>Send\<close> from elsewhere: the frame joins the backlog if there is room.\<close>

lemma send_step:
  assumes ok: "ep_ok ep" and a: "arg_ok a"
  defines "ep' \<equiv> finish_call ep (send a (ep_sess ep))"
  shows "ep_ok ep'" and "received ep' = received ep"
    and "backlog ep' = backlog ep @ (if length (queue (ep_sess ep)) \<le> limit then [frame_of a] else [])"
proof -
  let ?s = "ep_sess ep"
  have inv: "wr_inv ?s" using ok by (simp add: ep_ok_def)
  obtain es s' where es: "send a ?s = (es, Returned s')" "wr_inv s'"
    "queue s' = queue ?s @ (if length (queue ?s) \<le> limit then [frame_of a] else [])"
    "written es = (if queue ?s = [] then [frame_of a] else [])"
  proof (cases "length (queue ?s) \<le> limit")
    case True
    then show ?thesis using that send_queued [OF inv a] by auto
  next
    case False
    then have "queue ?s \<noteq> []" by auto
    with False show ?thesis using that [of "[]" ?s] send_full [OF inv a] inv by auto
  qed
  have ep': "ep' = (foldl perform ep es)\<lparr>ep_sess := s'\<rparr>" by (simp add: ep'_def es(1))
  have no_write: "queue ?s = [] \<Longrightarrow> write_pending ep = None" using ok by (auto simp: ep_ok_def split: option.splits)
  show "received ep' = received ep"
    "backlog ep' = backlog ep @ (if length (queue ?s) \<le> limit then [frame_of a] else [])"
    using es(3) by (simp_all add: ep' backlog_def)
  show "ep_ok ep'"
    using ok es send_keeps [OF es(1)] no_write
    by (auto simp: ep' ep_ok_def messages_of_def stream_of_def perform_overlapping split: option.splits)
qed

text \<open>
  A session is attended while it will hear from its client again: a read is outstanding, unless it was
  cleared or stopped by a fault that the handler caught. So a session that serves has a read outstanding,
  except for caught faults, and one that holds frames has the write of the first outstanding.
\<close>

definition attended :: "('s, 'm) endpoint \<Rightarrow> bool" where
  "attended ep \<longleftrightarrow> read_pending ep \<or> cleared ep \<or> (\<exists>f. stream_of ep = Crashed f \<and> \<not> fatal f)"

lemma attended_event:
  assumes ok: "ep_ok ep" and att: "attended ep" and sized: "\<And>chunk. e = Got chunk \<Longrightarrow> chunk_ok chunk"
    and up: "ended (event ep e) = None"
  shows "attended (event ep e)"
proof (cases "\<exists>chunk. e = Got chunk \<and> read_pending ep")
  case True
  then obtain chunk where e: "e = Got chunk" "read_pending ep" by blast
  note step = got_step(2,3) [OF ok e(2) sized [OF e(1)], folded e(1)]
  have "crash fatal (stream_of (event ep e)) = None" "ep_ok (event ep e)" using step up by simp_all
  then show ?thesis by (auto simp: attended_def ep_ok_def split: if_splits)
next
  case False
  consider (same) "event ep e = ep" | (read) "e = Read_Failed" "read_pending ep"
    | (written) "e = Wrote \<or> e = Write_Failed"
    using False by (cases e; cases "read_pending ep") auto
  then show ?thesis
  proof cases
    case read
    have "wr_inv (ep_sess ep)" using ok by (simp add: ep_ok_def)
    from read_fails [OF this] read show ?thesis by (auto simp: attended_def)
  next
    case written
    have "received (event ep e) = received ep" using other_step(3) [OF ok] written by blast
    moreover have "read_pending ep \<Longrightarrow> read_pending (event ep e)"
      using written by (cases "wr False (ep_sess ep)"; cases "wr True (ep_sess ep)") (auto split: option.split)
    ultimately show ?thesis using att ep_event_grows(2) [of ep rd rd_err wr e] by (auto simp: attended_def stream_of_def)
  qed (use att in simp)
qed

lemma attended_finish: "attended ep \<Longrightarrow> attended (finish_call ep (es, r))"
  by (auto simp: attended_def stream_of_def simp del: finish_call.simps)

lemma attended_reads:
  assumes "ep_ok ep" "attended ep" "\<not> cleared ep"
  shows "read_pending ep \<or> (\<exists>f. stream_of ep = Crashed f \<and> \<not> fatal f)"
    and "queue (ep_sess ep) = [] \<and> write_pending ep = None \<or> (\<exists>f q. queue (ep_sess ep) = f # q \<and> write_pending ep = Some f)"
  using assms by (auto simp: attended_def ep_ok_def split: option.splits)

end

end
