(* ===== verification/V3_Session.thy ===== *)
theory V3_Session
  imports Session_State
begin

text \<open>
  \<open>CSession\<close> of \<open>Server-version-3/Session.cpp\<close>: construction, the read loop, sending and the write
  completion. A method returns its effects in program order and its outcome. In the read loop,
  \<open>n\<close> is \<open>bytes_transferred\<close> and \<open>copy_len\<close> is the offset of the first unread byte.
\<close>

type_synonym v3_effect = "logic_node effect"

section \<open>Construction and closing\<close>

text \<open>\<open>junk\<close> is the content of the uninitialised read buffer.\<close>

definition v3_CSession :: "string \<Rightarrow> byte list \<Rightarrow> fault + v3_session" where
  "v3_CSession a_uuid junk =
     (case v3_MsgNode (short_of_int HEAD_TOTAL_LEN) of
        Inl f \<Rightarrow> Inl f
      | Inr head \<Rightarrow> Inr \<lparr>uuid = a_uuid, data_buf = junk, b_close = False, send_que = [],
                        recv_msg_node = None, b_head_parse = False, recv_head_node = head\<rparr>)"

definition v3_Start :: "v3_session \<Rightarrow> v3_effect list \<times> v3_session" where
  "v3_Start s = ([Async_Read], clear_data s)"

definition v3_Close :: "v3_session \<Rightarrow> v3_effect list \<times> v3_session" where
  "v3_Close s = ([Socket_Close], s\<lparr>b_close := True\<rparr>)"

section \<open>Sending\<close>

text \<open>\<open>async_write\<close> of the node at the front of the send queue.\<close>

definition v3_write_front :: "v3_session \<Rightarrow> v3_effect list \<times> v3_session outcome" where
  "v3_write_front s =
     (case send_que s of
        [] \<Rightarrow> ([], Raised Empty_Queue s)
      | nd # _ \<Rightarrow>
          (case node_buffer nd of
             Inl f \<Rightarrow> ([], Raised f s)
           | Inr bs \<Rightarrow> ([Async_Write bs], Returned s)))"

text \<open>\<open>Send(char *msg, int max_length, short msg_id)\<close>; \<open>msg\<close> is the block pointed into.\<close>

definition v3_Send_chars ::
  "platform \<Rightarrow> byte list \<Rightarrow> int \<Rightarrow> short \<Rightarrow> v3_session \<Rightarrow> v3_effect list \<times> v3_session outcome" where
  "v3_Send_chars P msg max_length msg_id s =
     (let send_queue_size = length (send_que s) in
      if send_queue_size > MAX_SENDQUEUE then ([], Returned s)
      else case v3_SendNode P msg (short_of_int max_length) msg_id of
             Inl f \<Rightarrow> ([], Raised f s)
           | Inr nd \<Rightarrow>
               (let s1 = s\<lparr>send_que := send_que s @ [nd]\<rparr> in
                if send_queue_size > 0 then ([], Returned s1) else v3_write_front s1))"

text \<open>\<open>Send(std::string msg, short msg_id)\<close>: the bytes of \<open>c_str()\<close> end in a zero.\<close>

definition v3_Send_string ::
  "platform \<Rightarrow> byte list \<Rightarrow> short \<Rightarrow> v3_session \<Rightarrow> v3_effect list \<times> v3_session outcome" where
  "v3_Send_string P msg msg_id s =
     (let send_queue_size = length (send_que s) in
      if send_queue_size > MAX_SENDQUEUE then ([], Returned s)
      else case v3_SendNode P (msg @ [0]) (short_of_int (int (length msg))) msg_id of
             Inl f \<Rightarrow> ([], Raised f s)
           | Inr nd \<Rightarrow>
               (let s1 = s\<lparr>send_que := send_que s @ [nd]\<rparr> in
                if send_queue_size > 0 then ([], Returned s1) else v3_write_front s1))"

definition v3_HandleWrite :: "bool \<Rightarrow> v3_session \<Rightarrow> v3_effect list \<times> v3_session outcome" where
  "v3_HandleWrite error s =
     (if \<not> error
      then (case send_que s of
              [] \<Rightarrow> ([], Raised Empty_Queue s)
            | _ # rest \<Rightarrow>
                (let s1 = s\<lparr>send_que := rest\<rparr> in
                 if rest \<noteq> [] then v3_write_front s1 else ([], Returned s1)))
      else (let (es, s1) = v3_Close s in (es @ [Clear_Session (uuid s1)], Returned s1)))"

section \<open>Receiving\<close>

text \<open>\<open>LogicNode\<close>: the session and the message, as they are posted.\<close>

definition v3_LogicNode :: "string \<Rightarrow> recv_node \<Rightarrow> logic_node" where
  "v3_LogicNode session recvNode = \<lparr>ln_session = session, ln_recvnode = recvNode\<rparr>"

declare v3_LogicNode_def [simp]

text \<open>The message node is complete: terminate it, post it, reset the head, and read on.\<close>

definition v3_finish ::
  "v3_session \<Rightarrow> recv_node \<Rightarrow> size_t \<Rightarrow> int \<Rightarrow> v3_effect list \<times> v3_session flow" where
  "v3_finish s nd n copy_len =
     (case mem_write (node_data nd) (sint (total_len nd)) [0] of
        Inl f \<Rightarrow> ([], Raise f s)
      | Inr d \<Rightarrow>
          (let nd1 = nd\<lparr>node_data := d\<rparr>;
               post = Post (v3_LogicNode (uuid s) nd1);
               s1 = s\<lparr>recv_msg_node := Some nd1, b_head_parse := False\<rparr>
           in case Clear (recv_head_node s1) of
                Inl f \<Rightarrow> ([post], Raise f s1)
              | Inr head \<Rightarrow>
                  (let s2 = s1\<lparr>recv_head_node := head\<rparr> in
                   if n = 0 then ([post, Async_Read], Return (clear_data s2))
                   else ([post], Continue s2 n copy_len))))"

text \<open>The message node exists and the head has been read: take what belongs to the body.\<close>

definition v3_on_body ::
  "v3_session \<Rightarrow> recv_node \<Rightarrow> size_t \<Rightarrow> int \<Rightarrow> v3_effect list \<times> v3_session flow" where
  "v3_on_body s nd n copy_len =
     (let remain_msg = sint (total_len nd) - sint (cur_len nd) in
      if n < size_of_int remain_msg
      then (case memcpy (node_data nd) (sint (cur_len nd)) (data_buf s) copy_len n of
              Inl f \<Rightarrow> ([], Raise f s)
            | Inr d \<Rightarrow>
                ([Async_Read], Return (clear_data (s\<lparr>recv_msg_node :=
                   Some (nd\<lparr>node_data := d, cur_len := cur_len nd + ucast n\<rparr>)\<rparr>))))
      else (case memcpy (node_data nd) (sint (cur_len nd)) (data_buf s) copy_len (size_of_int remain_msg) of
              Inl f \<Rightarrow> ([], Raise f s)
            | Inr d \<Rightarrow>
                v3_finish s (nd\<lparr>node_data := d, cur_len := cur_len nd + short_of_int remain_msg\<rparr>)
                  (n - size_of_int remain_msg) (copy_len + remain_msg)))"

text \<open>The head is complete in \<open>d\<close>: check what it says and start the message.\<close>

definition v3_parse_head ::
  "platform \<Rightarrow> v3_session \<Rightarrow> byte list \<Rightarrow> size_t \<Rightarrow> int \<Rightarrow> v3_effect list \<times> v3_session flow" where
  "v3_parse_head P s d n copy_len =
     (case read_net_short P d 0 of
        Inl f \<Rightarrow> ([], Raise f s)
      | Inr msg_id \<Rightarrow>
      if sint msg_id > MAX_LENGTH then ([Clear_Session (uuid s)], Return s)
      else
     (case read_net_short P d HEAD_ID_LEN of
        Inl f \<Rightarrow> ([], Raise f s)
      | Inr msg_len \<Rightarrow>
      if sint msg_len > MAX_LENGTH then ([Clear_Session (uuid s)], Return s)
      else
     (case v3_ReciveNode msg_len msg_id of
        Inl f \<Rightarrow> ([], Raise f s)
      | Inr nd \<Rightarrow>
      if n < size_of_int (sint msg_len)
      then (case memcpy (node_data nd) (sint (cur_len nd)) (data_buf s) copy_len n of
              Inl f \<Rightarrow> ([], Raise f s)
            | Inr d' \<Rightarrow>
                ([Async_Read], Return ((clear_data (s\<lparr>recv_msg_node :=
                   Some (nd\<lparr>node_data := d', cur_len := cur_len nd + ucast n\<rparr>)\<rparr>))\<lparr>b_head_parse := True\<rparr>)))
      else (case memcpy (node_data nd) (sint (cur_len nd)) (data_buf s) copy_len (size_of_int (sint msg_len)) of
              Inl f \<Rightarrow> ([], Raise f s)
            | Inr d' \<Rightarrow>
                v3_finish s (nd\<lparr>node_data := d', cur_len := cur_len nd + msg_len\<rparr>)
                  (n - size_of_int (sint msg_len)) (copy_len + sint msg_len)))))"

definition v3_on_head ::
  "platform \<Rightarrow> v3_session \<Rightarrow> size_t \<Rightarrow> int \<Rightarrow> v3_effect list \<times> v3_session flow" where
  "v3_on_head P s n copy_len =
     (let head = recv_head_node s in
      if n + size_of_int (sint (cur_len head)) < size_of_int HEAD_TOTAL_LEN
      then (case memcpy (node_data head) (sint (cur_len head)) (data_buf s) copy_len n of
              Inl f \<Rightarrow> ([], Raise f s)
            | Inr d \<Rightarrow>
                ([Async_Read], Return (clear_data (s\<lparr>recv_head_node :=
                   head\<lparr>node_data := d, cur_len := cur_len head + ucast n\<rparr>\<rparr>))))
      else (let head_remain = HEAD_TOTAL_LEN - sint (cur_len head) in
            case memcpy (node_data head) (sint (cur_len head)) (data_buf s) copy_len (size_of_int head_remain) of
              Inl f \<Rightarrow> ([], Raise f s)
            | Inr d \<Rightarrow>
                v3_parse_head P (s\<lparr>recv_head_node := head\<lparr>node_data := d\<rparr>\<rparr>) d
                  (n - size_of_int head_remain) (copy_len + head_remain)))"

text \<open>One iteration of the \<open>while\<close> loop.\<close>

definition v3_iteration ::
  "platform \<Rightarrow> v3_session \<Rightarrow> size_t \<Rightarrow> int \<Rightarrow> v3_effect list \<times> v3_session flow" where
  "v3_iteration P s n copy_len =
     (if \<not> b_head_parse s then v3_on_head P s n copy_len
      else case recv_msg_node s of
             None \<Rightarrow> ([], Raise Null_Deref s)
           | Some nd \<Rightarrow> v3_on_body s nd n copy_len)"

section \<open>The loop ends\<close>

lemma v3_finish_Continue:
  "v3_finish s nd n copy_len = (es, Continue s' n' copy_len') \<Longrightarrow> n' = n \<and> fresh s'"
  by (auto simp: v3_finish_def Clear_def fresh_def clear_data_def Let_def
      split: sum.splits if_splits)

lemma v3_on_body_Continue:
  assumes "v3_on_body s nd n copy_len = (es, Continue s' n' copy_len')"
  shows "unat n' \<le> unat n \<and> fresh s'"
proof -
  define k where "k = sint (total_len nd) - sint (cur_len nd)"
  from assms have nl: "\<not> n < size_of_int k"
    by (auto simp: v3_on_body_def k_def Let_def split: sum.splits if_splits)
  with assms obtain d nd1 cl1 where
    cp: "memcpy (node_data nd) (sint (cur_len nd)) (data_buf s) copy_len (size_of_int k) = Inr d"
    and fin: "v3_finish s nd1 (n - size_of_int k) cl1 = (es, Continue s' n' copy_len')"
    by (auto simp: v3_on_body_def k_def Let_def split: sum.splits)
  have kb: "- (2 ^ 62) \<le> k" "k < 2 ^ 63"
    using sint_short_bounds [of "total_len nd"] sint_short_bounds [of "cur_len nd"]
    by (simp_all add: k_def)
  with memcpy_InrD [OF cp] have "0 \<le> k" by (auto intro: size_of_int_small_nonneg)
  with nl kb have "unat (n - size_of_int k) = unat n - nat k" by (intro size_sub_le)
  with v3_finish_Continue [OF fin] show ?thesis by simp
qed

lemma v3_parse_head_Continue:
  assumes "v3_parse_head P s d n copy_len = (es, Continue s' n' copy_len')"
  shows "unat n' \<le> unat n \<and> fresh s'"
proof -
  from assms obtain msg_len msg_id nd nd1 cl1 where
    nd: "v3_ReciveNode msg_len msg_id = Inr nd"
    and nl: "\<not> n < size_of_int (sint msg_len)"
    and fin: "v3_finish s nd1 (n - size_of_int (sint msg_len)) cl1 = (es, Continue s' n' copy_len')"
    by (auto simp: v3_parse_head_def split: sum.splits if_splits)
  have "0 \<le> sint msg_len"
  proof (rule ccontr)
    assume "\<not> 0 \<le> sint msg_len"
    then have "sint msg_len = - 1 \<or> sint msg_len < - 1" by arith
    with nd show False by (auto simp: v3_ReciveNode_minus_one v3_ReciveNode_negative)
  qed
  with nl have "unat (n - size_of_int (sint msg_len)) = unat n - nat (sint msg_len)"
    using sint_short_bounds [of msg_len] by (intro size_sub_le) auto
  with v3_finish_Continue [OF fin] show ?thesis by simp
qed

lemma v3_on_head_Continue:
  assumes "v3_on_head P s n copy_len = (es, Continue s' n' copy_len')"
  shows "fresh s' \<and> unat n' \<le> unat n \<and> (cur_len (recv_head_node s) = 0 \<longrightarrow> unat n' < unat n)"
proof -
  define c k where "c = sint (cur_len (recv_head_node s))" and "k = HEAD_TOTAL_LEN - c"
  from assms have nl: "\<not> n + size_of_int c < size_of_int HEAD_TOTAL_LEN"
    by (auto simp: v3_on_head_def c_def Let_def split: sum.splits if_splits)
  with assms obtain d s1 cl1 where
    cp: "memcpy (node_data (recv_head_node s)) c (data_buf s) copy_len (size_of_int k) = Inr d"
    and ph: "v3_parse_head P s1 d (n - size_of_int k) cl1 = (es, Continue s' n' copy_len')"
    by (auto simp: v3_on_head_def c_def k_def Let_def split: sum.splits)
  have cb: "- 32768 \<le> c" "c < 32768" by (simp_all add: c_def sint_short_bounds)
  from memcpy_InrD [OF cp] have c0: "0 \<le> c" and "unat (size_of_int k) < 2 ^ 63" by auto
  then have k0: "0 \<le> k" using cb by (intro size_of_int_small_nonneg) (auto simp: k_def)
  with nl c0 have "nat k \<le> unat n"
    unfolding k_def by (intro head_sum_no_wrap) auto
  then have "unat (n - size_of_int k) = unat n - nat k"
    using k0 cb by (intro unat_size_sub) (auto simp: k_def)
  moreover have "c = 0 \<Longrightarrow> nat k = 4" by (simp add: k_def)
  moreover have "unat n' \<le> unat (n - size_of_int k) \<and> fresh s'"
    by (rule v3_parse_head_Continue [OF ph])
  ultimately show ?thesis
    using \<open>nat k \<le> unat n\<close> by (auto simp: c_def)
qed

lemma v3_iteration_decreases:
  assumes "v3_iteration P s n copy_len = (es, Continue s' n' copy_len')"
  shows "((s', n'), (s, n)) \<in> loop_rel"
proof (cases "b_head_parse s")
  case True
  with assms obtain nd where "v3_on_body s nd n copy_len = (es, Continue s' n' copy_len')"
    by (auto simp: v3_iteration_def split: option.splits)
  from v3_on_body_Continue [OF this] True show ?thesis
    by (auto simp: loop_rel_def fresh_def)
next
  case False
  with assms have "v3_on_head P s n copy_len = (es, Continue s' n' copy_len')"
    by (simp add: v3_iteration_def)
  from v3_on_head_Continue [OF this] False show ?thesis
    by (auto simp: loop_rel_def fresh_def)
qed

text \<open>\<open>while (bytes_transferred > 0)\<close>, with the effects of all iterations.\<close>

function v3_read_loop ::
  "platform \<Rightarrow> v3_session \<Rightarrow> size_t \<Rightarrow> int \<Rightarrow> v3_effect list \<times> v3_session outcome" where
  "v3_read_loop P s n copy_len =
     (if n = 0 then ([], Returned s)
      else case v3_iteration P s n copy_len of
             (es, Return s') \<Rightarrow> (es, Returned s')
           | (es, Raise f s') \<Rightarrow> (es, Raised f s')
           | (es, Continue s' n' copy_len') \<Rightarrow>
               (let (es', r) = v3_read_loop P s' n' copy_len' in (es @ es', r)))"
  by pat_completeness auto
termination
proof (relation "inv_image loop_rel (\<lambda>(P, s, n, copy_len). (s, n))", goal_cases)
  case 1
  show ?case by (simp add: wf_loop_rel)
next
  case 2
  then show ?case by (simp only: in_inv_image prod.case) (rule v3_iteration_decreases, erule sym)
qed

declare v3_read_loop.simps [simp del]

text \<open>The handler. The two-second pause and the other lines it prints have no effect on the state.\<close>

definition v3_HandleRead ::
  "platform \<Rightarrow> bool \<Rightarrow> size_t \<Rightarrow> v3_session \<Rightarrow> v3_effect list \<times> v3_session outcome" where
  "v3_HandleRead P error n s =
     (if \<not> error
      then (case v3_PrintRecvData P (data_buf s) (sint (ucast n :: 32 word)) of
              Inl f \<Rightarrow> ([], Raised f s)
            | Inr raw \<Rightarrow>
                (let (es, r) = v3_read_loop P s n 0 in (Print raw # es, r)))
      else (let (es, s1) = v3_Close s in (es @ [Clear_Session (uuid s1)], Returned s1)))"

end
