(* ===== verification/V3_Sending.thy ===== *)
theory V3_Sending
  imports V3_Session Send_Queue
begin

text \<open>
  The sending side of \<open>Server-version-3\<close> meets the contract \<open>write_queue\<close>: both overloads of \<open>Send\<close>
  and the write completion, for messages whose length survives the conversion to \<open>short\<close>.
\<close>

datatype send_call =
    Send_Chars "byte list" int short   \<comment> \<open>the block pointed into, \<open>max_length\<close>, the message id\<close>
  | Send_String "byte list" short

fun v3_Send :: "platform \<Rightarrow> send_call \<Rightarrow> v3_session \<Rightarrow> v3_effect list \<times> v3_session outcome" where
  "v3_Send P (Send_Chars msg max_length msg_id) s = v3_Send_chars P msg max_length msg_id s"
| "v3_Send P (Send_String msg msg_id) s = v3_Send_string P msg msg_id s"

text \<open>The calls that build a frame, and the frame they build.\<close>

fun call_ok :: "send_call \<Rightarrow> bool" where
  "call_ok (Send_Chars msg max_length msg_id) \<longleftrightarrow>
     0 \<le> max_length \<and> max_length mod 65536 \<le> 32763 \<and> nat (max_length mod 65536) \<le> length msg"
| "call_ok (Send_String msg msg_id) \<longleftrightarrow> length msg mod 65536 \<le> 32763"

fun call_frame :: "send_call \<Rightarrow> byte list" where
  "call_frame (Send_Chars msg max_length msg_id) = frame msg_id (take (nat (max_length mod 65536)) msg)"
| "call_frame (Send_String msg msg_id) = frame msg_id (take (length msg mod 65536) msg)"

definition v3_queue :: "v3_session \<Rightarrow> byte list list" where
  "v3_queue s = map node_wire (send_que s)"

definition v3_send_inv :: "v3_session \<Rightarrow> bool" where
  "v3_send_inv s \<longleftrightarrow> (\<forall>nd\<in>set (send_que s). node_buffer nd = Inr (node_wire nd))"

lemma v3_call_node:
  assumes P: "network_order P" and ok: "call_ok a"
  obtains nd where "node_buffer nd = Inr (call_frame a)" "node_wire nd = call_frame a"
    "\<And>s. v3_Send P a s =
      (if length (send_que s) > MAX_SENDQUEUE then ([], Returned s)
       else if length (send_que s) > 0 then ([], Returned (s\<lparr>send_que := send_que s @ [nd]\<rparr>))
       else v3_write_front (s\<lparr>send_que := send_que s @ [nd]\<rparr>))"
proof (cases a)
  case (Send_Chars msg max_length msg_id)
  then obtain nd where "v3_SendNode P msg (short_of_int max_length) msg_id = Inr nd"
    "node_buffer nd = Inr (call_frame a)"
    using v3_SendNode_truncates [OF P, of max_length msg msg_id] ok by auto
  with that [of nd] Send_Chars show ?thesis
    by (simp add: v3_Send_chars_def node_wire_def Let_def)
next
  case (Send_String msg msg_id)
  have m: "int (length msg) mod 65536 = int (length msg mod 65536)" by (simp add: zmod_int)
  have "take (length msg mod 65536) (msg @ [0]) = take (length msg mod 65536) msg"
    by simp
  then obtain nd where "v3_SendNode P (msg @ [0]) (short_of_int (int (length msg))) msg_id = Inr nd"
    "node_buffer nd = Inr (call_frame a)"
    using v3_SendNode_truncates [OF P, of "int (length msg)" "msg @ [0]" msg_id] ok Send_String
    by (auto simp: m le_SucI)
  with that [of nd] Send_String show ?thesis
    by (simp add: v3_Send_string_def node_wire_def Let_def)
qed

lemma v3_write_queue:
  assumes P: "network_order P"
  shows "write_queue (v3_Send P) v3_HandleWrite v3_queue v3_send_inv call_ok call_frame MAX_SENDQUEUE"
proof
  fix s a
  assume inv: "v3_send_inv s" and ok: "call_ok a"
  obtain nd where nd: "node_buffer nd = Inr (call_frame a)" "node_wire nd = call_frame a"
    and send: "\<And>s. v3_Send P a s =
      (if length (send_que s) > MAX_SENDQUEUE then ([], Returned s)
       else if length (send_que s) > 0 then ([], Returned (s\<lparr>send_que := send_que s @ [nd]\<rparr>))
       else v3_write_front (s\<lparr>send_que := send_que s @ [nd]\<rparr>))"
    using v3_call_node [OF P ok] by blast
  show "MAX_SENDQUEUE < length (v3_queue s) \<Longrightarrow> v3_Send P a s = ([], Returned s)"
    by (simp add: send v3_queue_def)
  show "length (v3_queue s) \<le> MAX_SENDQUEUE \<Longrightarrow> \<exists>es s'. v3_Send P a s = (es, Returned s') \<and>
      v3_send_inv s' \<and> v3_queue s' = v3_queue s @ [call_frame a] \<and>
      written es = (if v3_queue s = [] then [call_frame a] else [])"
    using inv nd by (auto simp: send v3_queue_def v3_send_inv_def v3_write_front_def)
next
  fix s f fs
  assume inv: "v3_send_inv s" and q: "v3_queue s = f # fs"
  then obtain nd nds where "send_que s = nd # nds" "fs = map node_wire nds"
    by (auto simp: v3_queue_def)
  with inv show "\<exists>es s'. v3_HandleWrite False s = (es, Returned s') \<and> v3_send_inv s' \<and>
      v3_queue s' = fs \<and> written es = take 1 fs"
    by (cases nds) (auto simp: v3_HandleWrite_def v3_write_front_def v3_queue_def v3_send_inv_def)
next
  fix s
  assume "v3_send_inv s"
  then show "\<exists>es s'. v3_HandleWrite True s = (es, Returned s') \<and> v3_send_inv s' \<and>
      v3_queue s' = v3_queue s \<and> written es = []"
    by (auto simp: v3_HandleWrite_def v3_Close_def v3_queue_def v3_send_inv_def)
qed

interpretation v3_out: write_queue "v3_Send x86_host" v3_HandleWrite v3_queue v3_send_inv call_ok
  call_frame MAX_SENDQUEUE
  by (rule v3_write_queue) (rule x86.network_order_axioms)

text \<open>A short reply on a session with nothing queued is written at once.\<close>

lemma send_string_idle:
  assumes P: "network_order P" and len: "length reply \<le> 2048" and idle: "send_que s = []"
  shows "\<exists>s'. v3_Send_string P reply i s = ([Async_Write (frame i reply)], Returned s')"
proof -
  have "call_ok (Send_String reply i)" "call_frame (Send_String reply i) = frame i reply"
    using len by simp_all
  then show ?thesis
    using v3_call_node [OF P, of "Send_String reply i"] idle by (fastforce simp: v3_write_front_def)
qed

section \<open>Lengths that do not fit\<close>

text \<open>A reply of 32764 to 65530 bytes makes the frame length negative: the constructor throws.\<close>

lemma v3_SendNode_throws:
  assumes "32764 \<le> len" "len \<le> 65530"
  shows "v3_SendNode P msg (short_of_int len) msg_id = Inl Bad_Array_New_Length"
proof -
  have "sint (short_of_int (sint (short_of_int len) + HEAD_TOTAL_LEN)) < - 1"
  proof (cases "len < 32768")
    case True
    then have "sint (short_of_int len) = len" using assms by (intro sint_short_of_int) auto
    moreover have "sint (short_of_int (len + HEAD_TOTAL_LEN)) = len + 4 - 65536"
      using True assms by (intro sint_short_wrap) auto
    ultimately show ?thesis using assms by simp
  next
    case False
    then have "sint (short_of_int len) = len - 65536" using assms by (intro sint_short_wrap) auto
    moreover have "sint (short_of_int (len - 65536 + HEAD_TOTAL_LEN)) = len - 65536 + 4"
      using False assms by (intro sint_short_of_int) auto
    ultimately show ?thesis using assms by simp
  qed
  then show ?thesis by (simp add: v3_SendNode_def v3_MsgNode_negative)
qed

end
