(* ===== verification/V3_Receive.thy ===== *)
theory V3_Receive
  imports V3_Session
begin

text \<open>
  The read loop of \<open>Server-version-3\<close> refines the byte machine of \<open>Framing\<close>: the header is four
  bytes, \<open>v3_dec\<close> says what the code makes of it, and \<open>v3_abs\<close> reads the machine's state off the
  session's head node, message node and flag.
\<close>

section \<open>Specification and abstraction\<close>

definition v3_dec :: "byte list \<Rightarrow> short verdict" where
  "v3_dec hs =
     (let msg_id = short_of_bytes (hs ! 0) (hs ! 1); msg_len = short_of_bytes (hs ! 2) (hs ! 3) in
      if sint msg_id > MAX_LENGTH then Refuse
      else if sint msg_len > MAX_LENGTH then Refuse
      else if sint msg_len < - 1 then Crash Bad_Array_New_Length
      else if sint msg_len = - 1 then Crash Out_Of_Bounds
      else Expect msg_id (sint msg_len))"

abbreviation v3_spec :: "short pstate \<Rightarrow> byte list \<Rightarrow> short pstate \<times> (short \<times> byte list) list" where
  "v3_spec \<equiv> prun 4 v3_dec"

definition v3_abs :: "v3_session \<Rightarrow> short pstate" where
  "v3_abs s =
     (if b_head_parse s
      then (case recv_msg_node s of
              None \<Rightarrow> Crashed Null_Deref
            | Some nd \<Rightarrow> Body (recv_msg_id nd) (sint (total_len nd)) (node_text nd))
      else Head (node_text (recv_head_node s)))"

text \<open>
  The invariant between two reads. While a body is collected the head's \<open>_cur_len\<close> is stale (the
  code does not advance it when the head completes), but stays in range.
\<close>

definition head_ok :: "msg_node \<Rightarrow> bool" where
  "head_ok head \<longleftrightarrow> total_len head = 4 \<and> length (node_data head) = 5 \<and>
     0 \<le> sint (cur_len head) \<and> sint (cur_len head) < 4"

definition body_ok :: "recv_node \<Rightarrow> bool" where
  "body_ok nd \<longleftrightarrow> 0 \<le> sint (cur_len nd) \<and> sint (cur_len nd) < sint (total_len nd) \<and>
     sint (total_len nd) \<le> MAX_LENGTH \<and> length (node_data nd) = Suc (nat (sint (total_len nd)))"

definition v3_inv :: "v3_session \<Rightarrow> bool" where
  "v3_inv s \<longleftrightarrow> length (data_buf s) = 2048 \<and> head_ok (recv_head_node s) \<and>
     (b_head_parse s \<longrightarrow> (case recv_msg_node s of None \<Rightarrow> False | Some nd \<Rightarrow> body_ok nd))"

text \<open>The members the receiving side never writes.\<close>

definition same_sender :: "('r, 'q) csession \<Rightarrow> ('r, 'q) csession \<Rightarrow> bool" where
  "same_sender s s' \<longleftrightarrow> uuid s' = uuid s \<and> send_que s' = send_que s \<and> b_close s' = b_close s"

lemma same_sender_refl [simp]: "same_sender s s"
  by (simp add: same_sender_def)

lemma clear_data_simps [simp]:
  "v3_abs (clear_data s) = v3_abs s" "same_sender t (clear_data s) = same_sender t s"
  "recv_msg_node (clear_data s) = recv_msg_node s" "recv_head_node (clear_data s) = recv_head_node s"
  "b_head_parse (clear_data s) = b_head_parse s" "length (data_buf (clear_data s)) = 2048"
  by (simp_all add: v3_abs_def clear_data_def same_sender_def)

lemma v3_inv_clear_data: "v3_inv s \<Longrightarrow> v3_inv (clear_data s)"
  by (simp add: v3_inv_def)

lemma same_sender_trans: "same_sender s t \<Longrightarrow> same_sender t u \<Longrightarrow> same_sender s u"
  by (simp add: same_sender_def)

text \<open>What a posted logic node carries: its session, the message id and the message bytes.\<close>

definition ln_view :: "logic_node \<Rightarrow> string \<times> short \<times> byte list" where
  "ln_view p = (ln_session p, recv_msg_id (ln_recvnode p), node_text (ln_recvnode p))"

section \<open>What one iteration and the whole loop promise\<close>

text \<open>How a run ends: the state it leaves, and the last thing it does around the session.\<close>

definition v3_leaves ::
  "v3_session \<Rightarrow> short pstate \<Rightarrow> v3_effect list \<Rightarrow> v3_session outcome \<Rightarrow> bool" where
  "v3_leaves s a fin r \<longleftrightarrow>
     (case a of
        Refused \<Rightarrow> fin = [Clear_Session (uuid s)] \<and> (\<exists>s'. r = Returned s' \<and> same_sender s s')
      | Crashed f \<Rightarrow> fin = [] \<and> (\<exists>s'. r = Raised f s' \<and> same_sender s s')
      | _ \<Rightarrow> fin = [Async_Read] \<and> (\<exists>s'. r = Returned s' \<and> same_sender s s' \<and> v3_inv s' \<and> v3_abs s' = a))"

definition v3_ends ::
  "v3_session \<Rightarrow> short pstate \<times> (short \<times> byte list) list \<Rightarrow> v3_effect list \<Rightarrow> v3_session outcome \<Rightarrow> bool" where
  "v3_ends s spec es r \<longleftrightarrow>
     (\<exists>ps fin. es = map Post ps @ fin \<and> map ln_view ps = map (Pair (uuid s)) (snd spec) \<and>
        v3_leaves s (fst spec) fin r)"

lemma v3_leaves_trans:
  "v3_leaves s' a fin r \<Longrightarrow> same_sender s s' \<Longrightarrow> v3_leaves s a fin r"
  by (cases a) (auto simp: v3_leaves_def same_sender_def)

definition v3_iter_ok ::
  "v3_session \<Rightarrow> size_t \<Rightarrow> int \<Rightarrow> v3_effect list \<times> v3_session flow \<Rightarrow> bool" where
  "v3_iter_ok s n copy_len res \<longleftrightarrow>
     (let xs = pending (data_buf s) n copy_len in
      case snd res of
        Return s' \<Rightarrow> v3_ends s (v3_spec (v3_abs s) xs) (fst res) (Returned s')
      | Raise f s' \<Rightarrow> v3_ends s (v3_spec (v3_abs s) xs) (fst res) (Raised f s')
      | Continue s' n' copy_len' \<Rightarrow>
          (\<exists>k p m. fst res = [Post p] \<and> ln_view p = (uuid s, m) \<and> same_sender s s' \<and>
             v3_spec (v3_abs s) (take k xs) = (Head [], [m]) \<and>
             v3_inv s' \<and> v3_abs s' = Head [] \<and> n' \<noteq> 0 \<and> cursor (data_buf s') xs k n' copy_len'))"

lemma v3_iter_reading:
  "v3_spec (v3_abs s) (pending (data_buf s) n copy_len) = (a, ms) \<Longrightarrow> running a \<Longrightarrow>
   map ln_view ps = map (Pair (uuid s)) ms \<Longrightarrow> same_sender s s' \<Longrightarrow> v3_inv s' \<Longrightarrow> v3_abs s' = a \<Longrightarrow>
     v3_iter_ok s n copy_len (map Post ps @ [Async_Read], Return s')"
  by (cases a) (auto simp: v3_iter_ok_def v3_ends_def v3_leaves_def)

lemma v3_iter_waiting:
  "v3_spec (v3_abs s) (pending (data_buf s) n copy_len) = (a, []) \<Longrightarrow> running a \<Longrightarrow>
   same_sender s s' \<Longrightarrow> v3_inv s' \<Longrightarrow> v3_abs s' = a \<Longrightarrow>
     v3_iter_ok s n copy_len ([Async_Read], Return s')"
  using v3_iter_reading [where ps = "[]"] by simp

lemma v3_iter_refused:
  "v3_spec (v3_abs s) (pending (data_buf s) n copy_len) = (Refused, []) \<Longrightarrow> same_sender s s' \<Longrightarrow>
     v3_iter_ok s n copy_len ([Clear_Session (uuid s)], Return s')"
  by (simp add: v3_iter_ok_def v3_ends_def v3_leaves_def)

lemma v3_iter_crashed:
  "v3_spec (v3_abs s) (pending (data_buf s) n copy_len) = (Crashed f, []) \<Longrightarrow> same_sender s s' \<Longrightarrow>
     v3_iter_ok s n copy_len ([], Raise f s')"
  by (simp add: v3_iter_ok_def v3_ends_def v3_leaves_def)

section \<open>Completing a message\<close>

lemma v3_finish_eq:
  assumes "sint (total_len nd) = int t" "length (node_data nd) = Suc t"
    and "total_len (recv_head_node s) = 4" "length (node_data (recv_head_node s)) = 5"
  shows "v3_finish s nd n copy_len =
    (let nd1 = nd\<lparr>node_data := take t (node_data nd) @ [0]\<rparr>;
         post = Post \<lparr>ln_session = uuid s, ln_recvnode = nd1\<rparr>;
         s2 = s\<lparr>recv_msg_node := Some nd1, b_head_parse := False, recv_head_node :=
                (recv_head_node s)\<lparr>node_data := replicate 4 0 @ drop 4 (node_data (recv_head_node s)),
                                   cur_len := 0\<rparr>\<rparr>
     in if n = 0 then ([post, Async_Read], Return (clear_data s2)) else ([post], Continue s2 n copy_len))"
  using assms by (simp add: v3_finish_def mem_simps Clear_ok Let_def)

lemma node_text_full:
  "sint (cur_len nd) = int t \<Longrightarrow> t \<le> length (node_data nd) \<Longrightarrow>
     node_text (nd\<lparr>node_data := take t (node_data nd) @ [0]\<rparr>) = take t (node_data nd)"
  by (simp add: node_text_def)

lemma v3_finish_ok:
  fixes s0 n0 copy_len0
  defines "xs \<equiv> pending (data_buf s0) n0 copy_len0"
  assumes nd: "sint (total_len nd) = int t" "sint (cur_len nd) = int t" "length (node_data nd) = Suc t"
    and hd: "total_len (recv_head_node s) = 4" "length (node_data (recv_head_node s)) = 5"
    and s: "same_sender s0 s" and at: "cursor (data_buf s) xs k n copy_len"
    and spec: "v3_spec (v3_abs s0) (take k xs) = (Head [], [(recv_msg_id nd, take t (node_data nd))])"
  shows "v3_iter_ok s0 n0 copy_len0 (v3_finish s nd n copy_len)"
proof -
  define nd1 where "nd1 = nd\<lparr>node_data := take t (node_data nd) @ [0]\<rparr>"
  define p where "p = \<lparr>ln_session = uuid s, ln_recvnode = nd1\<rparr>"
  define s2 where "s2 = s\<lparr>recv_msg_node := Some nd1, b_head_parse := False, recv_head_node :=
     (recv_head_node s)\<lparr>node_data := replicate 4 0 @ drop 4 (node_data (recv_head_node s)), cur_len := 0\<rparr>\<rparr>"
  have eq: "v3_finish s nd n copy_len =
      (if n = 0 then ([Post p, Async_Read], Return (clear_data s2)) else ([Post p], Continue s2 n copy_len))"
    by (simp add: v3_finish_eq [OF nd(1) nd(3) hd] p_def s2_def nd1_def Let_def)
  have view: "ln_view p = (uuid s0, recv_msg_id nd, take t (node_data nd))"
    using s node_text_full [OF nd(2)] nd(3) by (simp add: ln_view_def p_def nd1_def same_sender_def)
  have s2: "v3_inv s2" "v3_abs s2 = Head []" "same_sender s0 s2" "cursor (data_buf s2) xs k n copy_len"
    using s hd at cursor_length(3) [OF at]
    by (simp_all add: v3_inv_def s2_def head_ok_def v3_abs_def node_text_def same_sender_def)
  then have s2c: "v3_inv (clear_data s2)" by (simp add: v3_inv_clear_data)
  show ?thesis
  proof (cases "n = 0")
    case True
    with spec cursor_end at have "v3_spec (v3_abs s0) xs = (Head [], [(recv_msg_id nd, take t (node_data nd))])" by metis
    with view s2 s2c have "v3_iter_ok s0 n0 copy_len0 (map Post [p] @ [Async_Read], Return (clear_data s2))"
      by (intro v3_iter_reading) (auto simp: xs_def)
    then show ?thesis unfolding eq using True by simp
  next
    case False
    with view s2 spec show ?thesis by (auto simp: eq v3_iter_ok_def Let_def xs_def intro!: exI [of _ k])
  qed
qed

section \<open>Bytes of a body\<close>

lemma v3_body_view:
  assumes "v3_inv s" "b_head_parse s" "recv_msg_node s = Some nd"
  obtains c t where "sint (cur_len nd) = int c" "sint (total_len nd) = int t" "c < t" "t \<le> 2048"
    "length (node_data nd) = Suc t" "v3_abs s = Body (recv_msg_id nd) (int t) (node_text nd)"
    "node_text nd = take c (node_data nd)" "head_ok (recv_head_node s)"
  using that [of "nat (sint (cur_len nd))" "nat (sint (total_len nd))"] assms
  by (auto simp: v3_inv_def body_ok_def v3_abs_def node_text_def)

lemma v3_on_body_short:
  fixes s n copy_len
  defines "xs \<equiv> pending (data_buf s) n copy_len"
  assumes inv: "v3_inv s" "b_head_parse s" "recv_msg_node s = Some nd" and at: "cursor (data_buf s) xs 0 n copy_len"
    and short: "n < size_of_int (sint (total_len nd) - sint (cur_len nd))"
  shows "v3_iter_ok s n copy_len (v3_on_body s nd n copy_len)"
proof -
  obtain c t where nd: "sint (cur_len nd) = int c" "sint (total_len nd) = int t" "c < t" "t \<le> 2048"
    "length (node_data nd) = Suc t" and abs: "v3_abs s = Body (recv_msg_id nd) (int t) (node_text nd)"
    and ntext: "node_text nd = take c (node_data nd)" and hd: "head_ok (recv_head_node s)"
    by (rule v3_body_view [OF inv])
  have fits: "c + unat n < t" using short nd by (simp add: size_less_iff nat_diff_distrib')
  note lx = cursor_length [OF at, simplified]
  define nd1 where "nd1 = nd\<lparr>node_data := take c (node_data nd) @ xs @ drop (c + unat n) (node_data nd),
      cur_len := cur_len nd + ucast n\<rparr>"
  define s1 where "s1 = clear_data (s\<lparr>recv_msg_node := Some nd1\<rparr>)"
  have cur: "sint (cur_len nd + ucast n) = int (c + unat n)" using nd fits by (intro sint_add_ucast) auto
  then have ntext1: "node_text nd1 = node_text nd @ xs" using nd lx by (simp add: nd1_def node_text_append)
  have "v3_on_body s nd n copy_len = ([Async_Read], Return s1)"
    using short nd fits lx cursor_copy [OF at order_refl, of c "node_data nd"]
    by (simp add: v3_on_body_def nd1_def s1_def)
  moreover have "v3_inv s1" "v3_abs s1 = Body (recv_msg_id nd) (int t) (node_text nd @ xs)"
    using inv nd fits cur lx hd ntext1 by (simp_all add: v3_inv_def s1_def body_ok_def nd1_def v3_abs_def)
  moreover have "v3_spec (v3_abs s) xs = (Body (recv_msg_id nd) (int t) (node_text nd @ xs), [])"
    using fits nd lx by (simp add: abs prun_body_short ntext)
  moreover have "same_sender s s1" by (simp add: s1_def) (simp add: same_sender_def)
  ultimately show ?thesis by (auto intro: v3_iter_waiting simp: xs_def)
qed

lemma v3_on_body_full:
  fixes s n copy_len
  defines "xs \<equiv> pending (data_buf s) n copy_len"
  assumes inv: "v3_inv s" "b_head_parse s" "recv_msg_node s = Some nd" and at: "cursor (data_buf s) xs 0 n copy_len"
    and full: "\<not> n < size_of_int (sint (total_len nd) - sint (cur_len nd))"
  shows "v3_iter_ok s n copy_len (v3_on_body s nd n copy_len)"
proof -
  obtain c t where nd: "sint (cur_len nd) = int c" "sint (total_len nd) = int t" "c < t" "t \<le> 2048"
    "length (node_data nd) = Suc t" and abs: "v3_abs s = Body (recv_msg_id nd) (int t) (node_text nd)"
    and ntext: "node_text nd = take c (node_data nd)" and hd: "head_ok (recv_head_node s)"
    by (rule v3_body_view [OF inv])
  define k where "k = t - c"
  have k: "int t - int c = int k" "0 < k" "k \<le> unat n" "c + k = t" "k \<le> 2048"
    using full nd by (auto simp: k_def size_less_iff nat_diff_distrib')
  then have u: "unat (size_of_int (int k)) = k" by (intro unat_size_small)
  note lx = cursor_length [OF at, simplified]
  define nd1 where "nd1 = nd\<lparr>node_data := take c (node_data nd) @ take k xs @ drop (c + k) (node_data nd),
      cur_len := cur_len nd + short_of_int (int k)\<rparr>"
  have "memcpy (node_data nd) (int c) (data_buf s) copy_len (size_of_int (int k)) =
      Inr (take c (node_data nd) @ take k xs @ drop (c + k) (node_data nd))"
    using k u nd cursor_copy [OF at, of "size_of_int (int k)" c "node_data nd"] by simp
  then have "v3_on_body s nd n copy_len = v3_finish s nd1 (n - size_of_int (int k)) (copy_len + int k)"
    using full by (simp add: v3_on_body_def Let_def nd(1,2) k(1) nd1_def)
  moreover have "v3_iter_ok s n copy_len (v3_finish s nd1 (n - size_of_int (int k)) (copy_len + int k))"
  proof (rule v3_finish_ok [where t = t and k = k])
    show "sint (total_len nd1) = int t" "sint (cur_len nd1) = int t" "length (node_data nd1) = Suc t"
      using nd k lx by (simp_all add: nd1_def sint_add_short)
    show "cursor (data_buf s) (pending (data_buf s) n copy_len) k (n - size_of_int (int k)) (copy_len + int k)"
      using cursor_advance [OF at k(3)] by (simp add: xs_def)
    have "take t (node_data nd1) = node_text nd @ take k xs"
      using nd k lx by (simp add: nd1_def ntext k_def [symmetric])
    moreover have "v3_spec (v3_abs s) (take k xs) = (Head [], [(recv_msg_id nd, node_text nd @ take k xs)])"
      using k lx nd unfolding abs by (intro prun_body_full) (auto simp: ntext)
    ultimately show "v3_spec (v3_abs s) (take k (pending (data_buf s) n copy_len)) =
        (Head [], [(recv_msg_id nd1, take t (node_data nd1))])"
      by (simp add: xs_def nd1_def)
  qed (use hd in \<open>simp_all add: head_ok_def\<close>)
  ultimately show ?thesis by simp
qed

section \<open>The end of a header\<close>

text \<open>A header that announces a body: the rest of the read starts it or completes it.\<close>

lemma v3_start_body_short:
  fixes s0 n0 copy_len0
  defines "xs \<equiv> pending (data_buf s0) n0 copy_len0"
  assumes len: "sint msg_len = int t" "t \<le> 2048" and hd: "head_ok (recv_head_node s)" and s: "same_sender s0 s"
    and at: "cursor (data_buf s) xs k n copy_len" and short: "unat n < t"
    and spec: "v3_spec (v3_abs s0) (take k xs) =
      (if t = 0 then (Head [], [(msg_id, [])]) else (Body msg_id (int t) [], []))"
    and d: "read_net_short P d 0 = Inr msg_id" "read_net_short P d HEAD_ID_LEN = Inr msg_len" "sint msg_id \<le> MAX_LENGTH"
  shows "v3_iter_ok s0 n0 copy_len0 (v3_parse_head P s d n copy_len)"
proof -
  define nd where "nd = \<lparr>cur_len = 0, total_len = msg_len, node_data = replicate (Suc t) 0, recv_msg_id = msg_id\<rparr>"
  define ys where "ys = drop k xs"
  have nd: "v3_ReciveNode msg_len msg_id = Inr nd"
    using len by (simp add: v3_ReciveNode_ok nd_def del: replicate_Suc)
  note lx = cursor_length [OF at]
  have ly: "length ys = unat n" using lx by (simp add: ys_def)
  define nd1 where "nd1 = nd\<lparr>node_data := ys @ drop (unat n) (node_data nd), cur_len := 0 + ucast n\<rparr>"
  define s1 where "s1 = (clear_data (s\<lparr>recv_msg_node := Some nd1\<rparr>))\<lparr>b_head_parse := True\<rparr>"
  have cur: "sint (0 + ucast n :: short) = int (0 + unat n)" using short len by (intro sint_add_ucast) auto
  have "memcpy (node_data nd) 0 (data_buf s) copy_len n = Inr (ys @ drop (unat n) (node_data nd))"
    using short cursor_copy [OF at order_refl, of 0 "node_data nd"] ly by (simp add: nd_def ys_def [symmetric])
  then have "v3_parse_head P s d n copy_len = ([Async_Read], Return s1)"
    using short d len nd by (simp add: v3_parse_head_def s1_def nd1_def size_less_iff) (simp add: nd_def)
  moreover have "v3_inv s1" "v3_abs s1 = Body msg_id (int t) ys" "same_sender s0 s1"
    using short cur len hd ly s
    by (simp_all add: v3_inv_def s1_def clear_data_def body_ok_def nd1_def nd_def v3_abs_def node_text_def same_sender_def)
  moreover have "v3_spec (v3_abs s0) xs = (Body msg_id (int t) ys, [])"
    unfolding ys_def using spec lx short by (intro prun_begun) auto
  ultimately show ?thesis by (auto intro: v3_iter_waiting simp: xs_def)
qed

lemma v3_start_body_full:
  fixes s0 n0 copy_len0
  defines "xs \<equiv> pending (data_buf s0) n0 copy_len0"
  assumes len: "sint msg_len = int t" "t \<le> 2048" and hd: "head_ok (recv_head_node s)" and s: "same_sender s0 s"
    and at: "cursor (data_buf s) xs k n copy_len" and full: "t \<le> unat n"
    and spec: "v3_spec (v3_abs s0) (take k xs) =
      (if t = 0 then (Head [], [(msg_id, [])]) else (Body msg_id (int t) [], []))"
    and d: "read_net_short P d 0 = Inr msg_id" "read_net_short P d HEAD_ID_LEN = Inr msg_len" "sint msg_id \<le> MAX_LENGTH"
  shows "v3_iter_ok s0 n0 copy_len0 (v3_parse_head P s d n copy_len)"
proof -
  define nd where "nd = \<lparr>cur_len = 0, total_len = msg_len, node_data = replicate (Suc t) 0, recv_msg_id = msg_id\<rparr>"
  define ys where "ys = drop k xs"
  have nd: "v3_ReciveNode msg_len msg_id = Inr nd"
    using len by (simp add: v3_ReciveNode_ok nd_def del: replicate_Suc)
  note lx = cursor_length [OF at]
  have ly: "length ys = unat n" using lx by (simp add: ys_def)
  define nd1 where "nd1 = nd\<lparr>node_data := take t ys @ [0], cur_len := 0 + msg_len\<rparr>"
  have "drop t (replicate (Suc t) (0 :: byte)) = [0]" by (simp only: drop_replicate) simp
  then have "memcpy (node_data nd) 0 (data_buf s) copy_len (size_of_int (int t)) = Inr (take t ys @ [0])"
    using full len cursor_copy [OF at, of "size_of_int (int t)" 0 "node_data nd"]
    by (simp add: nd_def ys_def unat_size_small del: replicate_Suc)
  then have "v3_parse_head P s d n copy_len = v3_finish s nd1 (n - size_of_int (int t)) (copy_len + int t)"
    using full d len nd by (simp add: v3_parse_head_def nd1_def size_less_iff) (simp add: nd_def)
  moreover have "v3_iter_ok s0 n0 copy_len0 (v3_finish s nd1 (n - size_of_int (int t)) (copy_len + int t))"
  proof (rule v3_finish_ok [where t = t and k = "k + t"])
    show "sint (total_len nd1) = int t" "sint (cur_len nd1) = int t" "length (node_data nd1) = Suc t"
      using len full ly by (simp_all add: nd1_def nd_def)
    show "cursor (data_buf s) (pending (data_buf s0) n0 copy_len0) (k + t) (n - size_of_int (int t)) (copy_len + int t)"
      using cursor_advance [OF at full] by (simp add: xs_def)
    show "v3_spec (v3_abs s0) (take (k + t) (pending (data_buf s0) n0 copy_len0)) =
        (Head [], [(recv_msg_id nd1, take t (node_data nd1))])"
      using prun_completed [OF spec] full lx ly by (simp add: nd1_def nd_def xs_def [symmetric] ys_def)
  qed (use s hd in \<open>simp_all add: head_ok_def\<close>)
  ultimately show ?thesis by simp
qed

text \<open>The header as the code decodes it, against \<open>v3_dec\<close>: every verdict.\<close>

lemma v3_dec_fields:
  assumes "length d = 5"
  defines "msg_id \<equiv> short_of_bytes (d ! 0) (d ! 1)" and "msg_len \<equiv> short_of_bytes (d ! 2) (d ! 3)"
  shows "v3_dec (take 4 d) =
     (if sint msg_id > MAX_LENGTH then Refuse
      else if sint msg_len > MAX_LENGTH then Refuse
      else if sint msg_len < - 1 then Crash Bad_Array_New_Length
      else if sint msg_len = - 1 then Crash Out_Of_Bounds
      else Expect msg_id (sint msg_len))"
    and "network_order P \<Longrightarrow> read_net_short P d 0 = Inr msg_id"
    and "network_order P \<Longrightarrow> read_net_short P d HEAD_ID_LEN = Inr msg_len"
  using assms(1) network_order.read_net_short_ok [of P 0 d] network_order.read_net_short_ok [of P 2 d]
  by (simp_all add: v3_dec_def msg_id_def msg_len_def eval_nat_numeral)

lemma v3_parse_head_ok:
  fixes s0 n0 copy_len0
  defines "xs \<equiv> pending (data_buf s0) n0 copy_len0"
  assumes P: "network_order P" and hd: "head_ok (recv_head_node s)" and s: "same_sender s0 s"
    and at: "cursor (data_buf s) xs k n copy_len" and d: "length d = 5"
    and spec: "v3_spec (v3_abs s0) (take k xs) = head_done v3_dec (take 4 d)"
  shows "v3_iter_ok s0 n0 copy_len0 (v3_parse_head P s d n copy_len)"
proof -
  define msg_id msg_len where "msg_id = short_of_bytes (d ! 0) (d ! 1)" and "msg_len = short_of_bytes (d ! 2) (d ! 3)"
  note dec = v3_dec_fields(1) [OF d, folded msg_id_def msg_len_def]
  note rd = v3_dec_fields(2,3) [OF d P, folded msg_id_def msg_len_def]
  have u: "uuid s = uuid s0" using s by (simp add: same_sender_def)
  consider "sint msg_id > MAX_LENGTH \<or> sint msg_len > MAX_LENGTH"
    | "sint msg_id \<le> MAX_LENGTH" "sint msg_len < 0"
    | "sint msg_id \<le> MAX_LENGTH" "0 \<le> sint msg_len" "sint msg_len \<le> MAX_LENGTH"
    by linarith
  then show ?thesis
  proof cases
    case 1
    then have "v3_spec (v3_abs s0) xs = (Refused, [])"
      using spec by - (rule prun_halts_early [where k = k], auto simp: dec head_done_def)
    moreover have "v3_parse_head P s d n copy_len = ([Clear_Session (uuid s0)], Return s)"
      using 1 by (auto simp: v3_parse_head_def rd u)
    ultimately show ?thesis using s by (auto intro: v3_iter_refused simp: xs_def)
  next
    case 2
    let ?f = "if sint msg_len = - 1 then Out_Of_Bounds else Bad_Array_New_Length"
    have "v3_spec (v3_abs s0) xs = (Crashed ?f, [])"
      using 2 spec by - (rule prun_halts_early [where k = k], auto simp: dec head_done_def)
    moreover have "v3_parse_head P s d n copy_len = ([], Raise ?f s)"
      using 2 by (auto simp: v3_parse_head_def rd v3_ReciveNode_negative v3_ReciveNode_minus_one)
    ultimately show ?thesis using s v3_iter_crashed [of s0 n0 copy_len0 ?f s] by (simp add: xs_def)
  next
    case 3
    define t where "t = nat (sint msg_len)"
    have t: "sint msg_len = int t" "t \<le> 2048" using 3 by (simp_all add: t_def)
    have "v3_spec (v3_abs s0) (take k xs) = (if t = 0 then (Head [], [(msg_id, [])]) else (Body msg_id (int t) [], []))"
      using 3 spec by (simp add: dec head_done_def t_def)
    note body = t hd s at [unfolded xs_def] _ this [unfolded xs_def] rd 3(1)
    show ?thesis
    proof (cases "unat n < t")
      case True
      then show ?thesis by (rule v3_start_body_short [OF body])
    next
      case False
      then show ?thesis by (intro v3_start_body_full [OF body]) simp
    qed
  qed
qed

lemma v3_head_view:
  assumes "v3_inv s" "\<not> b_head_parse s"
  obtains c where "sint (cur_len (recv_head_node s)) = int c" "total_len (recv_head_node s) = 4"
    "length (node_data (recv_head_node s)) = 5" "c < 4" "v3_abs s = Head (node_text (recv_head_node s))"
    "node_text (recv_head_node s) = take c (node_data (recv_head_node s))"
  using that [of "nat (sint (cur_len (recv_head_node s)))"] assms
  by (auto simp: v3_inv_def head_ok_def v3_abs_def node_text_def)

lemma v3_on_head_short:
  fixes s n copy_len
  defines "xs \<equiv> pending (data_buf s) n copy_len"
  assumes inv: "v3_inv s" "\<not> b_head_parse s" and at: "cursor (data_buf s) xs 0 n copy_len"
    and short: "n + size_of_int (sint (cur_len (recv_head_node s))) < size_of_int HEAD_TOTAL_LEN"
  shows "v3_iter_ok s n copy_len (v3_on_head P s n copy_len)"
proof -
  define head where "head = recv_head_node s"
  obtain c where hd: "sint (cur_len head) = int c" "total_len head = 4" "length (node_data head) = 5" "c < 4"
    and abs: "v3_abs s = Head (node_text head)" and ntext: "node_text head = take c (node_data head)"
    using v3_head_view [OF inv] by (metis head_def)
  note lx = cursor_length [OF at, simplified]
  have "n + size_of_int (int c) < size_of_int HEAD_TOTAL_LEN \<longleftrightarrow> unat n + c < 4"
    using hd lx by (subst size_add_less_iff) auto
  then have fits: "unat n + c < 4" using short hd by (simp add: head_def [symmetric])
  define head1 where "head1 = head\<lparr>node_data := take c (node_data head) @ xs @ drop (c + unat n) (node_data head),
      cur_len := cur_len head + ucast n\<rparr>"
  define s1 where "s1 = clear_data (s\<lparr>recv_head_node := head1\<rparr>)"
  have cur: "sint (cur_len head + ucast n) = int (c + unat n)" using hd fits by (intro sint_add_ucast) auto
  then have ntext1: "node_text head1 = node_text head @ xs" using hd lx by (simp add: head1_def node_text_append)
  have "memcpy (node_data head) (int c) (data_buf s) copy_len n =
      Inr (take c (node_data head) @ xs @ drop (c + unat n) (node_data head))"
    using fits hd lx cursor_copy [OF at order_refl, of c "node_data head"] by simp
  then have "v3_on_head P s n copy_len = ([Async_Read], Return s1)"
    using short hd(1) by (simp add: v3_on_head_def Let_def head_def [symmetric] head1_def s1_def)
  moreover have "v3_inv s1" "v3_abs s1 = Head (node_text head @ xs)"
    using inv hd fits cur lx ntext1 by (simp_all add: v3_inv_def s1_def head_ok_def head1_def v3_abs_def)
  moreover have "v3_spec (v3_abs s) xs = (Head (node_text head @ xs), [])"
    using fits hd lx by (simp add: abs prun_head_short ntext)
  moreover have "same_sender s s1" by (simp add: s1_def) (simp add: same_sender_def)
  ultimately show ?thesis by (auto intro: v3_iter_waiting simp: xs_def)
qed

lemma v3_on_head_full:
  fixes s n copy_len
  defines "xs \<equiv> pending (data_buf s) n copy_len"
  assumes P: "network_order P" and inv: "v3_inv s" "\<not> b_head_parse s" and at: "cursor (data_buf s) xs 0 n copy_len"
    and full: "\<not> n + size_of_int (sint (cur_len (recv_head_node s))) < size_of_int HEAD_TOTAL_LEN"
  shows "v3_iter_ok s n copy_len (v3_on_head P s n copy_len)"
proof -
  define head where "head = recv_head_node s"
  obtain c where hd: "sint (cur_len head) = int c" "total_len head = 4" "length (node_data head) = 5" "c < 4"
    and abs: "v3_abs s = Head (node_text head)" and ntext: "node_text head = take c (node_data head)"
    using v3_head_view [OF inv] by (metis head_def)
  note lx = cursor_length [OF at, simplified]
  have "n + size_of_int (int c) < size_of_int HEAD_TOTAL_LEN \<longleftrightarrow> unat n + c < 4"
    using hd lx by (subst size_add_less_iff) auto
  then have enough: "4 \<le> unat n + c" using full hd by (simp add: head_def [symmetric])
  define k where "k = 4 - c"
  have k: "4 - int c = int k" "0 < k" "k \<le> unat n" "c + k = 4" "k \<le> 2048"
    using enough hd by (simp_all add: k_def)
  then have u: "unat (size_of_int (int k)) = k" by (intro unat_size_small)
  define d where "d = take c (node_data head) @ take k xs @ drop (c + k) (node_data head)"
  define s1 where "s1 = s\<lparr>recv_head_node := head\<lparr>node_data := d\<rparr>\<rparr>"
  have ld: "length d = 5" using hd k lx by (simp add: d_def)
  have "memcpy (node_data head) (int c) (data_buf s) copy_len (size_of_int (int k)) = Inr d"
    using k u hd cursor_copy [OF at, of "size_of_int (int k)" c "node_data head"] by (simp add: d_def)
  then have "v3_on_head P s n copy_len = v3_parse_head P s1 d (n - size_of_int (int k)) (copy_len + int k)"
    using full hd(1) k(1) by (simp add: v3_on_head_def Let_def head_def [symmetric] s1_def)
  moreover have "v3_iter_ok s n copy_len (v3_parse_head P s1 d (n - size_of_int (int k)) (copy_len + int k))"
  proof (rule v3_parse_head_ok [OF P, where k = k])
    show "cursor (data_buf s1) (pending (data_buf s) n copy_len) k (n - size_of_int (int k)) (copy_len + int k)"
      using cursor_advance [OF at k(3)] by (simp add: xs_def s1_def)
    have "take 4 d = node_text head @ take k xs" using hd k lx by (simp add: d_def ntext k_def [symmetric])
    moreover have "v3_spec (v3_abs s) (take k xs) = head_done v3_dec (node_text head @ take k xs)"
      using k hd lx unfolding abs by (intro prun_head_full) (auto simp: ntext)
    ultimately show "v3_spec (v3_abs s) (take k (pending (data_buf s) n copy_len)) = head_done v3_dec (take 4 d)"
      by (simp add: xs_def)
  qed (use hd ld in \<open>simp_all add: s1_def same_sender_def head_ok_def\<close>)
  ultimately show ?thesis by simp
qed

lemma v3_iteration_ok:
  assumes P: "network_order P" and inv: "v3_inv s" and at: "cursor (data_buf s) (pending (data_buf s) n copy_len) 0 n copy_len"
  shows "v3_iter_ok s n copy_len (v3_iteration P s n copy_len)"
proof (cases "b_head_parse s")
  case True
  with inv obtain nd where nd: "recv_msg_node s = Some nd" by (auto simp: v3_inv_def split: option.splits)
  with True show ?thesis
    using v3_on_body_short [OF inv True nd at] v3_on_body_full [OF inv True nd at] by (auto simp: v3_iteration_def)
next
  case False
  then show ?thesis
    using v3_on_head_short [OF inv False at] v3_on_head_full [OF P inv False at] by (auto simp: v3_iteration_def)
qed

section \<open>The loop and the handler\<close>

lemma v3_ends_Post:
  assumes "v3_ends s' (a, ms) es r" "same_sender s s'" "ln_view p = (uuid s, m)"
  shows "v3_ends s (a, m # ms) (Post p # es) r"
proof -
  obtain ps fin where "es = map Post ps @ fin" "map ln_view ps = map (Pair (uuid s')) ms"
    "v3_leaves s' a fin r"
    using assms(1) by (auto simp: v3_ends_def)
  moreover have "uuid s' = uuid s" using assms(2) by (simp add: same_sender_def)
  ultimately show ?thesis
    using assms(2,3) v3_leaves_trans by (auto simp: v3_ends_def intro!: exI [of _ "p # ps"])
qed

lemma v3_read_loop_ok:
  assumes "network_order P" "v3_inv s" "n \<noteq> 0" "0 \<le> copy_len" "nat copy_len + unat n \<le> 2048"
    and "v3_read_loop P s n copy_len = (es, r)"
  shows "v3_ends s (v3_spec (v3_abs s) (pending (data_buf s) n copy_len)) es r"
  using assms
proof (induction P s n copy_len arbitrary: es r rule: v3_read_loop.induct)
  case (1 P s n copy_len)
  obtain es1 fl where it: "v3_iteration P s n copy_len = (es1, fl)" by fastforce
  define xs where "xs = pending (data_buf s) n copy_len"
  have ok: "v3_iter_ok s n copy_len (es1, fl)"
    using v3_iteration_ok [OF "1.prems"(1,2) cursor_start, of copy_len n] "1.prems"(2,4,5) by (simp add: it v3_inv_def)
  note unfold = "1.prems"(6) [unfolded v3_read_loop.simps [of P s n copy_len] it]
  show ?case
  proof (cases fl)
    case (Return s')
    with unfold ok "1.prems"(3) show ?thesis by (simp add: v3_iter_ok_def)
  next
    case (Raise f s')
    with unfold ok "1.prems"(3) show ?thesis by (simp add: v3_iter_ok_def)
  next
    case (Continue s' n' copy_len')
    then obtain k p m where c: "es1 = [Post p]" "ln_view p = (uuid s, m)" "same_sender s s'"
      "v3_spec (v3_abs s) (take k xs) = (Head [], [m])" "v3_inv s'" "v3_abs s' = Head []" "n' \<noteq> 0"
      "0 \<le> copy_len'" "nat copy_len' + unat n' \<le> 2048" "pending (data_buf s') n' copy_len' = drop k xs"
      using ok by (auto simp: v3_iter_ok_def xs_def Let_def cursor_def)
    obtain es' r' where loop: "v3_read_loop P s' n' copy_len' = (es', r')" by fastforce
    have "v3_ends s' (v3_spec (Head []) (drop k xs)) es' r'"
      using "1.IH" [OF "1.prems"(3) it [symmetric] Continue] c loop "1.prems"(1) by simp
    moreover obtain a ms where run: "v3_spec (Head []) (drop k xs) = (a, ms)" by fastforce
    ultimately have "v3_ends s (a, m # ms) (Post p # es') r'"
      using c by (intro v3_ends_Post) auto
    moreover have "v3_spec (v3_abs s) xs = (a, m # ms)"
      using prun_split [OF c(4) run] by simp
    moreover have "es = Post p # es'" "r = r'"
      using unfold Continue c(1) loop "1.prems"(3) by simp_all
    ultimately show ?thesis by (simp add: xs_def)
  qed
qed

end
