(* ===== verification/V3_Connection.thy ===== *)
theory V3_Connection
  imports V3_Receive
begin

text \<open>
  Connections of \<open>Server-version-3\<close>: a session from its construction over any sequence of completed
  reads. The read handler meets the contract \<open>stream_reader\<close>, so what it posts to the logic system
  depends on the bytes alone, and every well-formed frame arrives once, whole and in order.
\<close>

type_synonym v3_connection = "(recv_node, send_node, logic_node) connection"

text \<open>\<open>make_shared<CSession>\<close>, then \<open>Start\<close> once the connection is accepted.\<close>

definition v3_open :: "string \<Rightarrow> byte list \<Rightarrow> fault + v3_connection" where
  "v3_open a_uuid junk =
     (case v3_CSession a_uuid junk of
        Inl f \<Rightarrow> Inl f
      | Inr s \<Rightarrow> (let (es, s1) = v3_Start s in Inr \<lparr>sess = s1, trace = es, state = Reading\<rparr>))"

text \<open>The outstanding read completes with the bytes of \<open>chunk\<close>.\<close>

definition v3_on_read :: "platform \<Rightarrow> v3_connection \<Rightarrow> byte list \<Rightarrow> v3_connection" where
  "v3_on_read P c chunk =
     (if state c \<noteq> Reading then c
      else after_read (trace c)
             (v3_HandleRead P False (word_of_nat (length chunk)) (fill_buffer chunk (sess c))))"

section \<open>The contract of the read handler\<close>

definition v3_conn_abs :: "v3_connection \<Rightarrow> short pstate" where
  "v3_conn_abs c =
     (case state c of Reading \<Rightarrow> v3_abs (sess c) | Idle \<Rightarrow> Refused | Faulted f \<Rightarrow> Crashed f)"

definition v3_conn_inv :: "string \<Rightarrow> v3_connection \<Rightarrow> bool" where
  "v3_conn_inv u c \<longleftrightarrow> uuid (sess c) = u \<and> (state c = Reading \<longrightarrow> v3_inv (sess c))"

definition v3_delivered :: "v3_connection \<Rightarrow> (string \<times> short \<times> byte list) list" where
  "v3_delivered c = map ln_view (posted (trace c))"

definition v3_deliver ::
  "string \<Rightarrow> short \<times> byte list \<Rightarrow> (string \<times> short \<times> byte list) list \<Rightarrow> (string \<times> short \<times> byte list) list" where
  "v3_deliver u m w = w @ [(u, m)]"

lemma fold_v3_deliver: "fold (v3_deliver u) ms w = w @ map (Pair u) ms"
  by (induction ms arbitrary: w) (simp_all add: v3_deliver_def)

lemma fill_buffer_simps [simp]:
  "v3_abs (fill_buffer chunk s) = v3_abs s" "uuid (fill_buffer chunk s) = uuid s"
  "same_sender (fill_buffer chunk s) t = same_sender s t"
  by (simp_all add: fill_buffer_def v3_abs_def same_sender_def)

lemma v3_inv_fill_buffer: "chunk_ok chunk \<Longrightarrow> v3_inv s \<Longrightarrow> v3_inv (fill_buffer chunk s)"
  by (simp add: v3_inv_def fill_buffer_def chunk_ok_def)

lemma v3_HandleRead_ok:
  assumes P: "network_order P" and inv: "v3_inv s" and c: "chunk_ok chunk"
    and run: "v3_HandleRead P False (word_of_nat (length chunk)) (fill_buffer chunk s) = (es, r)"
  obtains trc es' where "es = Print trc # es'" "v3_ends (fill_buffer chunk s) (v3_spec (v3_abs s) chunk) es' r"
proof -
  let ?n = "word_of_nat (length chunk) :: size_t" and ?s = "fill_buffer chunk s"
  obtain es' r' where loop: "v3_read_loop P ?s ?n 0 = (es', r')" by fastforce
  have buf: "length (data_buf ?s) = 2048" using inv c by (simp add: v3_inv_def fill_buffer_def chunk_ok_def)
  have "length chunk \<le> 2048" using c by (simp add: chunk_ok_def)
  then have "\<exists>trc. es = Print trc # es' \<and> r = r'"
    using run loop buf by (auto simp: v3_HandleRead_def chunk_trace_length [OF c] v3_PrintRecvData_ok)
  moreover have "v3_ends ?s (v3_spec (v3_abs ?s) (pending (data_buf ?s) ?n 0)) es' r'"
    using P v3_inv_fill_buffer [OF c inv] chunk_count [OF c] \<open>length chunk \<le> 2048\<close> loop
    by (intro v3_read_loop_ok) auto
  ultimately show ?thesis
    using that c inv by (auto simp: pending_fill_buffer v3_inv_def)
qed

lemma v3_stream_reader:
  assumes P: "network_order P"
  shows "stream_reader 4 v3_dec (v3_conn_inv u) chunk_ok v3_conn_abs v3_delivered (v3_deliver u) (v3_on_read P)"
proof
  fix c chunk a ms
  assume inv: "v3_conn_inv u c" and ck: "chunk_ok chunk"
    and spec: "prun 4 v3_dec (v3_conn_abs c) chunk = (a, ms)"
  show "v3_conn_inv u (v3_on_read P c chunk) \<and> v3_conn_abs (v3_on_read P c chunk) = a \<and>
      v3_delivered (v3_on_read P c chunk) = fold (v3_deliver u) ms (v3_delivered c)"
  proof (cases "state c = Reading")
    case False
    then have "\<not> running (v3_conn_abs c)" by (cases "state c") (simp_all add: v3_conn_abs_def)
    then have "a = v3_conn_abs c" "ms = []" using spec by (simp_all add: prun_halted)
    with False inv show ?thesis by (simp add: v3_on_read_def)
  next
    case True
    then have s: "v3_inv (sess c)" "uuid (sess c) = u" and sp: "v3_spec (v3_abs (sess c)) chunk = (a, ms)"
      using inv spec by (simp_all add: v3_conn_inv_def v3_conn_abs_def)
    obtain es r where run: "v3_HandleRead P False (word_of_nat (length chunk)) (fill_buffer chunk (sess c)) = (es, r)"
      by fastforce
    obtain trc es' where "es = Print trc # es'"
      and ends: "v3_ends (fill_buffer chunk (sess c)) (v3_spec (v3_abs (sess c)) chunk) es' r"
      using v3_HandleRead_ok [OF P s(1) ck run] .
    then obtain ps fin where es: "es = Print trc # map Post ps @ fin" and ps: "map ln_view ps = map (Pair u) ms"
      and leaves: "v3_leaves (fill_buffer chunk (sess c)) a fin r"
      using s(2) by (auto simp: v3_ends_def sp)
    have step: "v3_on_read P c chunk = after_read (trace c) (es, r)"
      using True run by (simp add: v3_on_read_def)
    show ?thesis
      using leaves s(2) ps
      by (cases a) (auto simp: step es v3_leaves_def v3_conn_inv_def v3_conn_abs_def v3_delivered_def
          fold_v3_deliver same_sender_def image_iff)
  qed
qed

interpretation v3_x86: stream_reader 4 v3_dec "v3_conn_inv u" chunk_ok v3_conn_abs v3_delivered
  "v3_deliver u" "v3_on_read x86_host" for u
  by (rule v3_stream_reader) (rule x86.network_order_axioms)

lemma v3_open_ok:
  "\<exists>c. v3_open u junk = Inr c \<and> v3_conn_inv u c \<and> v3_conn_abs c = Head [] \<and> v3_delivered c = [] \<and>
     state c = Reading"
proof -
  have four: "sint (short_of_int HEAD_TOTAL_LEN) = 4" by (simp add: sint_short_of_int)
  then have "short_of_int HEAD_TOTAL_LEN = 4" by (simp add: short_of_int_def)
  with four show ?thesis
    by (simp add: v3_open_def v3_CSession_def v3_MsgNode_ok v3_Start_def v3_conn_inv_def v3_inv_def head_ok_def
        clear_data_def v3_conn_abs_def v3_abs_def node_text_def v3_delivered_def)
qed

section \<open>Facts about whole connections\<close>

lemma v3_status: "v3_conn_inv u c \<Longrightarrow> state c = status_of (v3_conn_abs c)"
  by (auto simp: v3_conn_inv_def v3_conn_abs_def v3_inv_def v3_abs_def split: status.splits option.splits)

text \<open>
  What the contract leaves out: reading does not touch the send queue, and a connection without a
  read outstanding has been cleared from the server's map.
\<close>

definition v3_quiet :: "string \<Rightarrow> v3_connection \<Rightarrow> bool" where
  "v3_quiet u c \<longleftrightarrow> send_que (sess c) = [] \<and> (state c = Idle \<longrightarrow> Clear_Session u \<in> set (trace c)) \<and>
     (state c = Reading \<longrightarrow> Clear_Session u \<notin> set (trace c))"

lemma v3_quiet_on_read:
  assumes P: "network_order P" and inv: "v3_conn_inv u c" and ck: "chunk_ok chunk" and q: "v3_quiet u c"
  shows "v3_quiet u (v3_on_read P c chunk)"
proof (cases "state c = Reading")
  case True
  then have s: "v3_inv (sess c)" "uuid (sess c) = u" using inv by (simp_all add: v3_conn_inv_def)
  obtain es r where run: "v3_HandleRead P False (word_of_nat (length chunk)) (fill_buffer chunk (sess c)) = (es, r)"
    by fastforce
  obtain trc es' where "es = Print trc # es'"
    "v3_ends (fill_buffer chunk (sess c)) (v3_spec (v3_abs (sess c)) chunk) es' r"
    using v3_HandleRead_ok [OF P s(1) ck run] .
  moreover have "send_que (sess c) = []" "Clear_Session u \<notin> set (trace c)"
    using q True by (simp_all add: v3_quiet_def)
  ultimately show ?thesis
    using True run s(2)
    by (cases "fst (v3_spec (v3_abs (sess c)) chunk)")
      (auto simp: v3_on_read_def v3_ends_def v3_leaves_def v3_quiet_def same_sender_def fill_buffer_def image_iff)
qed (use q in \<open>simp add: v3_on_read_def\<close>)

lemma v3_quiet_reads:
  assumes P: "network_order P"
  shows "v3_conn_inv u c \<Longrightarrow> \<forall>chunk\<in>set cs. chunk_ok chunk \<Longrightarrow> v3_quiet u c \<Longrightarrow>
    v3_conn_inv u (foldl (v3_on_read P) c cs) \<and> v3_quiet u (foldl (v3_on_read P) c cs)"
proof (induction cs arbitrary: c)
  case (Cons chunk cs)
  have "v3_conn_inv u (v3_on_read P c chunk)"
    using stream_reader.reads_refine [OF v3_stream_reader [OF P], of u c "[chunk]"] Cons.prems
    by (cases "prun 4 v3_dec (v3_conn_abs c) chunk") simp
  then show ?case using Cons v3_quiet_on_read [OF P, of u c chunk] by simp
qed simp

lemma v3_open_quiet: "v3_open u junk = Inr c \<Longrightarrow> v3_quiet u c"
  by (auto simp: v3_open_def v3_CSession_def v3_Start_def v3_quiet_def clear_data_def split: sum.splits)

text \<open>The header of a frame announces its body.\<close>

lemma v3_dec_frame:
  assumes "sint msg_id \<le> MAX_LENGTH" "length body \<le> 2048"
  shows "v3_dec (take 4 (frame msg_id body)) = Expect msg_id (int (length body))"
  using assms by (simp add: v3_dec_def frame_def sint_short_of_int)

lemma v3_dec_frames:
  assumes "\<forall>m\<in>set ms. sint (fst m) \<le> MAX_LENGTH \<and> length (snd m) \<le> 2048" and "m \<in> set ms"
  shows "length (take 4 (frame (fst m) (snd m))) = 4 \<and>
    v3_dec (take 4 (frame (fst m) (snd m))) = Expect (fst m) (int (length (snd m)))"
  using assms v3_dec_frame [of "fst m" "snd m"] by simp

lemma frame_split: "frame msg_id body = take 4 (frame msg_id body) @ body"
  by (simp add: frame_def)

lemma v3_run_frames:
  assumes "\<forall>m\<in>set ms. sint (fst m) \<le> MAX_LENGTH \<and> length (snd m) \<le> 2048"
  shows "v3_spec (Head []) (concat (map (\<lambda>m. frame (fst m) (snd m)) ms)) = (Head [], ms)"
proof -
  have "v3_spec (Head []) (concat (map (\<lambda>m. take 4 (frame (fst m) (snd m)) @ snd m) ms)) = (Head [], ms)"
    using v3_dec_frames [OF assms] by (intro prun_frames) auto
  then show ?thesis by (simp add: frame_split [symmetric])
qed

text \<open>All that holds of a connection after some reads.\<close>

lemma v3_open_reads:
  assumes P: "network_order P" and cs: "\<forall>chunk\<in>set cs. chunk_ok chunk"
    and run: "v3_spec (Head []) (concat cs) = (a, ms)"
  obtains c where "v3_open u junk = Inr c"
    and "v3_conn_abs (foldl (v3_on_read P) c cs) = a" and "state (foldl (v3_on_read P) c cs) = status_of a"
    and "v3_delivered (foldl (v3_on_read P) c cs) = map (Pair u) ms"
    and "v3_quiet u (foldl (v3_on_read P) c cs)"
proof -
  obtain c where c: "v3_open u junk = Inr c" "v3_conn_inv u c" "v3_conn_abs c = Head []" "v3_delivered c = []"
    using v3_open_ok by blast
  have r: "v3_conn_inv u (foldl (v3_on_read P) c cs) \<and> v3_conn_abs (foldl (v3_on_read P) c cs) = a \<and>
      v3_delivered (foldl (v3_on_read P) c cs) = fold (v3_deliver u) ms (v3_delivered c)"
    using run c(3) by (intro stream_reader.reads_refine [OF v3_stream_reader [OF P] c(2) cs]) simp
  have "v3_quiet u (foldl (v3_on_read P) c cs)"
    using v3_quiet_reads [OF P c(2) cs v3_open_quiet [OF c(1)]] by simp
  with that [OF c(1)] r v3_status [of u "foldl (v3_on_read P) c cs"] c(4) show ?thesis by (simp add: fold_v3_deliver)
qed

end
