(* ===== verification/Mt_Session.thy ===== *)
theory Mt_Session
  imports V3_Sending V3_Connection
begin

text \<open>
  \<open>Server-version-3-multi-thread\<close>: its nodes (\<open>MsgNode.h\<close>, \<open>MsgNode.cpp\<close>) and its \<open>CSession\<close>
  (\<open>CSession.cpp\<close>). The data members are those of \<open>Server-version-3\<close>; the handlers catch
  \<open>std::exception\<close>, and nothing is traced. The sections on construction, sending and receiving
  translate this server's own methods; the last section proves them equal to those of
  \<open>Server-version-3\<close>, up to the exceptions, so that the results about that server carry over.
\<close>

section \<open>Nodes\<close>

definition mt_MsgNode :: "short \<Rightarrow> fault + mt_node" where
  "mt_MsgNode max_len =
     (case new_array (sint max_len + 1) of
        Inl f \<Rightarrow> Inl f
      | Inr d \<Rightarrow>
          (case mem_write d (sint max_len) [0] of
             Inl f \<Rightarrow> Inl f
           | Inr d' \<Rightarrow> Inr \<lparr>cur_len = 0, total_len = max_len, node_data = d'\<rparr>))"

definition mt_Clear :: "'a msg_node_scheme \<Rightarrow> fault + 'a msg_node_scheme" where
  "mt_Clear nd =
     (case memset0 (node_data nd) (size_of_int (sint (total_len nd))) of
        Inl f \<Rightarrow> Inl f
      | Inr d \<Rightarrow> Inr (nd\<lparr>node_data := d, cur_len := 0\<rparr>))"

definition mt_RecvNode :: "short \<Rightarrow> short \<Rightarrow> fault + mt_recv_node" where
  "mt_RecvNode max_len msg_id =
     (case mt_MsgNode max_len of
        Inl f \<Rightarrow> Inl f
      | Inr nd \<Rightarrow> Inr \<lparr>cur_len = cur_len nd, total_len = total_len nd, node_data = node_data nd,
                        recv_msg_id = msg_id\<rparr>)"

definition mt_SendNode :: "platform \<Rightarrow> byte list \<Rightarrow> short \<Rightarrow> short \<Rightarrow> fault + mt_send_node" where
  "mt_SendNode P msg max_len msg_id =
     (case mt_MsgNode (short_of_int (sint max_len + HEAD_TOTAL_LEN)) of
        Inl f \<Rightarrow> Inl f
      | Inr nd \<Rightarrow>
     (case mem_write (node_data nd) 0 (store_short P (host_to_network_short P msg_id)) of
        Inl f \<Rightarrow> Inl f
      | Inr d1 \<Rightarrow>
     (case mem_write d1 HEAD_ID_LEN (store_short P (host_to_network_short P max_len)) of
        Inl f \<Rightarrow> Inl f
      | Inr d2 \<Rightarrow>
     (case memcpy d2 (HEAD_ID_LEN + HEAD_DATA_LEN) msg 0 (size_of_int (sint max_len)) of
        Inl f \<Rightarrow> Inl f
      | Inr d3 \<Rightarrow> Inr \<lparr>cur_len = cur_len nd, total_len = total_len nd, node_data = d3,
                        send_msg_id = msg_id\<rparr>))))"

section \<open>Construction and closing\<close>

definition mt_CSession :: "string \<Rightarrow> byte list \<Rightarrow> fault + mt_session" where
  "mt_CSession a_uuid junk =
     (case mt_MsgNode (short_of_int HEAD_TOTAL_LEN) of
        Inl f \<Rightarrow> Inl f
      | Inr head \<Rightarrow> Inr \<lparr>uuid = a_uuid, data_buf = junk, b_close = False, send_que = [],
                        recv_msg_node = None, b_head_parse = False, recv_head_node = head\<rparr>)"

definition mt_Start :: "mt_session \<Rightarrow> v3_effect list \<times> mt_session" where
  "mt_Start s = ([Async_Read], clear_data s)"

definition mt_Close :: "mt_session \<Rightarrow> v3_effect list \<times> mt_session" where
  "mt_Close s = ([Socket_Close], s\<lparr>b_close := True\<rparr>)"

section \<open>Sending\<close>

text \<open>\<open>async_write\<close> of the node at the front of the send queue.\<close>

definition mt_write_front :: "mt_session \<Rightarrow> v3_effect list \<times> mt_session outcome" where
  "mt_write_front s =
     (case send_que s of
        [] \<Rightarrow> ([], Raised Empty_Queue s)
      | nd # _ \<Rightarrow>
          (case node_buffer nd of
             Inl f \<Rightarrow> ([], Raised f s)
           | Inr bs \<Rightarrow> ([Async_Write bs], Returned s)))"

text \<open>\<open>Send(char* msg, short max_length, short msgid)\<close>; \<open>msg\<close> is the block pointed into.\<close>

definition mt_Send_chars ::
  "platform \<Rightarrow> byte list \<Rightarrow> short \<Rightarrow> short \<Rightarrow> mt_session \<Rightarrow> v3_effect list \<times> mt_session outcome" where
  "mt_Send_chars P msg max_length msg_id s =
     (let send_queue_size = length (send_que s) in
      if send_queue_size > MAX_SENDQUEUE then ([], Returned s)
      else case mt_SendNode P msg max_length msg_id of
             Inl f \<Rightarrow> ([], Raised f s)
           | Inr nd \<Rightarrow>
               (let s1 = s\<lparr>send_que := send_que s @ [nd]\<rparr> in
                if send_queue_size > 0 then ([], Returned s1) else mt_write_front s1))"

text \<open>\<open>Send(std::string msg, short msg_id)\<close>: the bytes of \<open>c_str()\<close> end in a zero.\<close>

definition mt_Send_string ::
  "platform \<Rightarrow> byte list \<Rightarrow> short \<Rightarrow> mt_session \<Rightarrow> v3_effect list \<times> mt_session outcome" where
  "mt_Send_string P msg msg_id s =
     (let send_queue_size = length (send_que s) in
      if send_queue_size > MAX_SENDQUEUE then ([], Returned s)
      else case mt_SendNode P (msg @ [0]) (short_of_int (int (length msg))) msg_id of
             Inl f \<Rightarrow> ([], Raised f s)
           | Inr nd \<Rightarrow>
               (let s1 = s\<lparr>send_que := send_que s @ [nd]\<rparr> in
                if send_queue_size > 0 then ([], Returned s1) else mt_write_front s1))"

text \<open>\<open>catch (std::exception &)\<close> around a handler: an exception ends it, and it returns.\<close>

fun caught_outcome :: "'m effect list \<times> 's outcome \<Rightarrow> 'm effect list \<times> 's outcome" where
  "caught_outcome (es, Returned s) = (es, Returned s)"
| "caught_outcome (es, Raised f s) = (es, if is_exception f then Returned s else Raised f s)"

definition mt_HandleWrite :: "bool \<Rightarrow> mt_session \<Rightarrow> v3_effect list \<times> mt_session outcome" where
  "mt_HandleWrite error s = caught_outcome
     (if \<not> error
      then (case send_que s of
              [] \<Rightarrow> ([], Raised Empty_Queue s)
            | _ # rest \<Rightarrow>
                (let s1 = s\<lparr>send_que := rest\<rparr> in
                 if rest \<noteq> [] then mt_write_front s1 else ([], Returned s1)))
      else (let (es, s1) = mt_Close s in (es @ [Clear_Session (uuid s1)], Returned s1)))"

section \<open>Receiving\<close>

text \<open>\<open>LogicNode\<close>: the session and the message, as they are posted.\<close>

definition mt_LogicNode :: "string \<Rightarrow> mt_recv_node \<Rightarrow> mt_logic_node" where
  "mt_LogicNode session recvnode = \<lparr>ln_session = session, ln_recvnode = recvnode\<rparr>"

text \<open>The message node is complete: terminate it, post it, reset the head, and read on.\<close>

definition mt_finish ::
  "mt_session \<Rightarrow> mt_recv_node \<Rightarrow> size_t \<Rightarrow> int \<Rightarrow> v3_effect list \<times> mt_session flow" where
  "mt_finish s nd n copy_len =
     (case mem_write (node_data nd) (sint (total_len nd)) [0] of
        Inl f \<Rightarrow> ([], Raise f s)
      | Inr d \<Rightarrow>
          (let nd1 = nd\<lparr>node_data := d\<rparr>;
               post = Post (mt_LogicNode (uuid s) nd1);
               s1 = s\<lparr>recv_msg_node := Some nd1, b_head_parse := False\<rparr>
           in case mt_Clear (recv_head_node s1) of
                Inl f \<Rightarrow> ([post], Raise f s1)
              | Inr head \<Rightarrow>
                  (let s2 = s1\<lparr>recv_head_node := head\<rparr> in
                   if n = 0 then ([post, Async_Read], Return (clear_data s2))
                   else ([post], Continue s2 n copy_len))))"

text \<open>The message node exists and the head has been read: take what belongs to the body.\<close>

definition mt_on_body ::
  "mt_session \<Rightarrow> mt_recv_node \<Rightarrow> size_t \<Rightarrow> int \<Rightarrow> v3_effect list \<times> mt_session flow" where
  "mt_on_body s nd n copy_len =
     (let remain_msg = sint (total_len nd) - sint (cur_len nd) in
      if n < size_of_int remain_msg
      then (case memcpy (node_data nd) (sint (cur_len nd)) (data_buf s) copy_len n of
              Inl f \<Rightarrow> ([], Raise f s)
            | Inr d \<Rightarrow>
                ([Async_Read], Return (clear_data (s\<lparr>recv_msg_node :=
                   Some (nd\<lparr>node_data := d, cur_len := cur_len nd + ucast n\<rparr>)\<rparr>))))
      else (case memcpy (node_data nd) (sint (cur_len nd)) (data_buf s) copy_len (size_of_int remain_msg) of
              Inl f \<Rightarrow> ([], Raise f s)
            | Inr d \<Rightarrow>
                mt_finish s (nd\<lparr>node_data := d, cur_len := cur_len nd + short_of_int remain_msg\<rparr>)
                  (n - size_of_int remain_msg) (copy_len + remain_msg)))"

text \<open>The head is complete in \<open>d\<close>: check what it says and start the message.\<close>

definition mt_parse_head ::
  "platform \<Rightarrow> mt_session \<Rightarrow> byte list \<Rightarrow> size_t \<Rightarrow> int \<Rightarrow> v3_effect list \<times> mt_session flow" where
  "mt_parse_head P s d n copy_len =
     (case read_net_short P d 0 of
        Inl f \<Rightarrow> ([], Raise f s)
      | Inr msg_id \<Rightarrow>
      if sint msg_id > MAX_LENGTH then ([Clear_Session (uuid s)], Return s)
      else
     (case read_net_short P d HEAD_ID_LEN of
        Inl f \<Rightarrow> ([], Raise f s)
      | Inr msg_len \<Rightarrow>
      if sint msg_len > MAX_LENGTH then ([Clear_Session (uuid s)], Return s)
      else
     (case mt_RecvNode msg_len msg_id of
        Inl f \<Rightarrow> ([], Raise f s)
      | Inr nd \<Rightarrow>
      if n < size_of_int (sint msg_len)
      then (case memcpy (node_data nd) (sint (cur_len nd)) (data_buf s) copy_len n of
              Inl f \<Rightarrow> ([], Raise f s)
            | Inr d' \<Rightarrow>
                ([Async_Read], Return ((clear_data (s\<lparr>recv_msg_node :=
                   Some (nd\<lparr>node_data := d', cur_len := cur_len nd + ucast n\<rparr>)\<rparr>))\<lparr>b_head_parse := True\<rparr>)))
      else (case memcpy (node_data nd) (sint (cur_len nd)) (data_buf s) copy_len (size_of_int (sint msg_len)) of
              Inl f \<Rightarrow> ([], Raise f s)
            | Inr d' \<Rightarrow>
                mt_finish s (nd\<lparr>node_data := d', cur_len := cur_len nd + msg_len\<rparr>)
                  (n - size_of_int (sint msg_len)) (copy_len + sint msg_len)))))"

definition mt_on_head ::
  "platform \<Rightarrow> mt_session \<Rightarrow> size_t \<Rightarrow> int \<Rightarrow> v3_effect list \<times> mt_session flow" where
  "mt_on_head P s n copy_len =
     (let head = recv_head_node s in
      if n + size_of_int (sint (cur_len head)) < size_of_int HEAD_TOTAL_LEN
      then (case memcpy (node_data head) (sint (cur_len head)) (data_buf s) copy_len n of
              Inl f \<Rightarrow> ([], Raise f s)
            | Inr d \<Rightarrow>
                ([Async_Read], Return (clear_data (s\<lparr>recv_head_node :=
                   head\<lparr>node_data := d, cur_len := cur_len head + ucast n\<rparr>\<rparr>))))
      else (let head_remain = HEAD_TOTAL_LEN - sint (cur_len head) in
            case memcpy (node_data head) (sint (cur_len head)) (data_buf s) copy_len (size_of_int head_remain) of
              Inl f \<Rightarrow> ([], Raise f s)
            | Inr d \<Rightarrow>
                mt_parse_head P (s\<lparr>recv_head_node := head\<lparr>node_data := d\<rparr>\<rparr>) d
                  (n - size_of_int head_remain) (copy_len + head_remain)))"

text \<open>One iteration of the \<open>while\<close> loop.\<close>

definition mt_iteration ::
  "platform \<Rightarrow> mt_session \<Rightarrow> size_t \<Rightarrow> int \<Rightarrow> v3_effect list \<times> mt_session flow" where
  "mt_iteration P s n copy_len =
     (if \<not> b_head_parse s then mt_on_head P s n copy_len
      else case recv_msg_node s of
             None \<Rightarrow> ([], Raise Null_Deref s)
           | Some nd \<Rightarrow> mt_on_body s nd n copy_len)"

section \<open>The loop ends\<close>

lemma mt_MsgNode_eq: "mt_MsgNode = v3_MsgNode"
  by (simp add: fun_eq_iff mt_MsgNode_def v3_MsgNode_def)

lemma mt_RecvNode_eq: "mt_RecvNode = v3_ReciveNode"
  by (simp add: fun_eq_iff mt_RecvNode_def v3_ReciveNode_def mt_MsgNode_eq)

lemma mt_SendNode_eq: "mt_SendNode = v3_SendNode"
proof -
  have "HEAD_ID_LEN + HEAD_DATA_LEN = HEAD_TOTAL_LEN" by simp
  then show ?thesis by (simp only: fun_eq_iff mt_SendNode_def v3_SendNode_def mt_MsgNode_eq simp_thms)
qed

lemma mt_iteration_eq: "mt_iteration = v3_iteration"
proof -
  have fin: "mt_finish = v3_finish"
    by (simp only: fun_eq_iff mt_finish_def v3_finish_def mt_Clear_def Clear_def mt_LogicNode_def v3_LogicNode_def simp_thms)
  have body: "mt_on_body = v3_on_body"
    by (simp only: fun_eq_iff mt_on_body_def v3_on_body_def fin simp_thms)
  have parse: "mt_parse_head = v3_parse_head"
    by (simp only: fun_eq_iff mt_parse_head_def v3_parse_head_def fin mt_RecvNode_eq simp_thms)
  have head: "mt_on_head = v3_on_head"
    by (simp only: fun_eq_iff mt_on_head_def v3_on_head_def parse simp_thms)
  show ?thesis
    by (simp only: fun_eq_iff mt_iteration_def v3_iteration_def head body simp_thms)
qed

text \<open>\<open>while (bytes_transferred > 0)\<close>, with the effects of all iterations.\<close>

function mt_read_loop ::
  "platform \<Rightarrow> v3_session \<Rightarrow> size_t \<Rightarrow> int \<Rightarrow> v3_effect list \<times> v3_session outcome" where
  "mt_read_loop P s n copy_len =
     (if n = 0 then ([], Returned s)
      else case mt_iteration P s n copy_len of
             (es, Return s') \<Rightarrow> (es, Returned s')
           | (es, Raise f s') \<Rightarrow> (es, Raised f s')
           | (es, Continue s' n' copy_len') \<Rightarrow>
               (let (es', r) = mt_read_loop P s' n' copy_len' in (es @ es', r)))"
  by pat_completeness auto
termination
proof (relation "inv_image loop_rel (\<lambda>(P, s, n, copy_len). (s, n))", goal_cases)
  case 1
  show ?case by (simp add: wf_loop_rel)
next
  case 2
  then show ?case
    by (simp only: in_inv_image prod.case mt_iteration_eq) (rule v3_iteration_decreases, erule sym)
qed

declare mt_read_loop.simps [simp del]

definition mt_HandleRead ::
  "platform \<Rightarrow> bool \<Rightarrow> size_t \<Rightarrow> v3_session \<Rightarrow> v3_effect list \<times> v3_session outcome" where
  "mt_HandleRead P error n s = caught_outcome
     (if \<not> error then mt_read_loop P s n 0
      else (let (es, s1) = mt_Close s in (es @ [Clear_Session (uuid s1)], Returned s1)))"

section \<open>The same methods as in the single-threaded server\<close>

lemma mt_read_loop_eq: "mt_read_loop P s n copy_len = v3_read_loop P s n copy_len"
proof (induction P s n copy_len rule: v3_read_loop.induct)
  case (1 P s n copy_len)
  obtain es fl where it: "v3_iteration P s n copy_len = (es, fl)" by fastforce
  then show ?case
    using 1 by (cases fl) (simp_all add: mt_read_loop.simps [of P s n copy_len]
        v3_read_loop.simps [of P s n copy_len] mt_iteration_eq)
qed

lemma mt_open_eq: "mt_CSession = v3_CSession" "mt_Start = v3_Start" "mt_Close = v3_Close"
  by (simp_all add: fun_eq_iff mt_CSession_def v3_CSession_def mt_MsgNode_eq mt_Start_def v3_Start_def
      mt_Close_def v3_Close_def)

lemma mt_Send_eq:
  "mt_Send_string = v3_Send_string"
  "mt_Send_chars P msg n msg_id s = v3_Send_chars P msg (sint n) msg_id s"
proof -
  have "mt_write_front = v3_write_front"
    by (simp only: fun_eq_iff mt_write_front_def v3_write_front_def simp_thms)
  then show "mt_Send_string = v3_Send_string"
    "mt_Send_chars P msg n msg_id s = v3_Send_chars P msg (sint n) msg_id s"
    by (simp_all only: fun_eq_iff mt_Send_string_def v3_Send_string_def mt_Send_chars_def
        v3_Send_chars_def mt_SendNode_eq short_of_int_sint simp_thms)
qed

lemma mt_HandleWrite_eq: "mt_HandleWrite error s = caught_outcome (v3_HandleWrite error s)"
proof -
  have "mt_write_front = v3_write_front"
    by (simp only: fun_eq_iff mt_write_front_def v3_write_front_def simp_thms)
  then show ?thesis by (simp only: mt_HandleWrite_def v3_HandleWrite_def mt_open_eq)
qed

end
