(* ===== verification/Mt_Connection.thy ===== *)
theory Mt_Connection
  imports Mt_Session
begin

text \<open>
  Connections of \<open>Server-version-3-multi-thread\<close>. The handler catches \<open>std::exception\<close>, so a length
  below \<open>-1\<close> no longer ends the server: the connection stops reading instead. Undefined behaviour is
  not caught.
\<close>

definition mt_open :: "string \<Rightarrow> byte list \<Rightarrow> fault + v3_connection" where
  "mt_open a_uuid junk =
     (case mt_CSession a_uuid junk of
        Inl f \<Rightarrow> Inl f
      | Inr s \<Rightarrow> (let (es, s1) = mt_Start s in Inr \<lparr>sess = s1, trace = es, state = Reading\<rparr>))"

definition mt_on_read :: "platform \<Rightarrow> v3_connection \<Rightarrow> byte list \<Rightarrow> v3_connection" where
  "mt_on_read P c chunk =
     (if state c \<noteq> Reading then c
      else after_read (trace c)
             (mt_HandleRead P False (word_of_nat (length chunk)) (fill_buffer chunk (sess c))))"

definition mt_dec :: "byte list \<Rightarrow> short verdict" where
  "mt_dec hs =
     (let msg_id = short_of_bytes (hs ! 0) (hs ! 1); msg_len = short_of_bytes (hs ! 2) (hs ! 3) in
      if sint msg_id > MAX_LENGTH then Refuse
      else if sint msg_len > MAX_LENGTH then Refuse
      else if sint msg_len < - 1 then Refuse
      else if sint msg_len = - 1 then Crash Out_Of_Bounds
      else Expect msg_id (sint msg_len))"

section \<open>Catching exceptions in the specification\<close>

fun caught :: "'h pstate \<Rightarrow> 'h pstate" where
  "caught (Crashed f) = (if is_exception f then Refused else Crashed f)"
| "caught a = a"

lemma head_done_caught:
  "head_done mt_dec hs = (caught (fst (head_done v3_dec hs)), snd (head_done v3_dec hs))"
  by (auto simp: head_done_def v3_dec_def mt_dec_def Let_def)

lemma pstep_caught:
  "pstep 4 mt_dec (caught a) b = (caught (fst (pstep 4 v3_dec a b)), snd (pstep 4 v3_dec a b))"
  by (cases a) (auto simp: head_done_caught)

lemma prun_caught:
  "prun 4 v3_dec a xs = (a', ms) \<Longrightarrow> prun 4 mt_dec (caught a) xs = (caught a', ms)"
  by (induction xs arbitrary: a ms) (auto simp: pstep_caught Let_def split: prod.splits)

section \<open>The contracts\<close>

definition mt_conn_abs :: "v3_connection \<Rightarrow> short pstate" where
  "mt_conn_abs c =
     (case state c of Reading \<Rightarrow> v3_abs (sess c) | Idle \<Rightarrow> Refused | Faulted f \<Rightarrow> Crashed f)"

lemma mt_HandleRead_False: "mt_HandleRead P False n s = caught_outcome (v3_read_loop P s n 0)"
  by (simp add: mt_HandleRead_def mt_read_loop_eq)

lemma mt_stream_reader:
  assumes P: "network_order P"
  shows "stream_reader 4 mt_dec (v3_conn_inv u) chunk_ok mt_conn_abs v3_delivered (v3_deliver u) (mt_on_read P)"
proof
  fix c chunk a ms
  assume inv: "v3_conn_inv u c" and ck: "chunk_ok chunk"
    and spec: "prun 4 mt_dec (mt_conn_abs c) chunk = (a, ms)"
  show "v3_conn_inv u (mt_on_read P c chunk) \<and> mt_conn_abs (mt_on_read P c chunk) = a \<and>
      v3_delivered (mt_on_read P c chunk) = fold (v3_deliver u) ms (v3_delivered c)"
  proof (cases "state c = Reading")
    case False
    then have "\<not> running (mt_conn_abs c)" by (cases "state c") (simp_all add: mt_conn_abs_def)
    then have "a = mt_conn_abs c" "ms = []" using spec by (simp_all add: prun_halted)
    with False inv show ?thesis by (simp add: mt_on_read_def)
  next
    case True
    let ?s = "fill_buffer chunk (sess c)" and ?n = "word_of_nat (length chunk) :: size_t"
    have s: "v3_inv (sess c)" "uuid (sess c) = u" using inv True by (simp_all add: v3_conn_inv_def)
    have "caught (v3_abs (sess c)) = v3_abs (sess c)"
      using s(1) by (auto simp: v3_abs_def v3_inv_def split: option.splits)
    moreover obtain b ms' where v3: "v3_spec (v3_abs (sess c)) chunk = (b, ms')" by fastforce
    ultimately have ab: "a = caught b" "ms' = ms"
      using prun_caught [OF v3] spec True by (simp_all add: mt_conn_abs_def)
    obtain es r where loop: "v3_read_loop P ?s ?n 0 = (es, r)" by fastforce
    have "length chunk \<le> 2048" using ck by (simp add: chunk_ok_def)
    then have "v3_ends ?s (v3_spec (v3_abs ?s) (pending (data_buf ?s) ?n 0)) es r"
      using P v3_inv_fill_buffer [OF ck s(1)] chunk_count [OF ck] loop by (intro v3_read_loop_ok) auto
    moreover have "length (data_buf (sess c)) = 2048" using s(1) by (simp add: v3_inv_def)
    ultimately have "v3_ends ?s (b, ms) es r"
      using v3 ab(2) ck by (simp add: pending_fill_buffer)
    then obtain ps fin where es: "es = map Post ps @ fin" and ps: "map ln_view ps = map (Pair u) ms"
      and leaves: "v3_leaves ?s b fin r"
      using s(2) by (auto simp: v3_ends_def)
    have step: "mt_on_read P c chunk = after_read (trace c) (caught_outcome (es, r))"
      using True loop by (simp add: mt_on_read_def mt_HandleRead_False)
    show ?thesis
      using leaves s(2) ps
      by (cases b) (auto simp: step ab(1) es v3_leaves_def v3_conn_inv_def mt_conn_abs_def v3_delivered_def
          fold_v3_deliver same_sender_def image_iff)
  qed
qed

interpretation mt_x86: stream_reader 4 mt_dec "v3_conn_inv u" chunk_ok mt_conn_abs v3_delivered
  "v3_deliver u" "mt_on_read x86_host" for u
  by (rule mt_stream_reader) (rule x86.network_order_axioms)

lemma mt_open_ok:
  "\<exists>c. mt_open u junk = Inr c \<and> v3_conn_inv u c \<and> mt_conn_abs c = Head [] \<and> v3_delivered c = [] \<and>
     state c = Reading"
proof -
  have "mt_open u junk = v3_open u junk"
    unfolding mt_open_def v3_open_def mt_open_eq by simp
  then show ?thesis
    using v3_open_ok [of u junk] by (auto simp: mt_conn_abs_def v3_conn_abs_def)
qed

text \<open>A length below \<open>-1\<close> leaves the connection without a read, and the server's map untouched.\<close>

lemma mt_status: "v3_conn_inv u c \<Longrightarrow> state c = status_of (mt_conn_abs c)"
  using v3_status [of u c] by (simp add: mt_conn_abs_def v3_conn_abs_def)

definition mt_clears_nothing :: "v3_connection \<Rightarrow> bool" where
  "mt_clears_nothing c \<longleftrightarrow> (\<forall>v. Clear_Session v \<notin> set (trace c))"

lemma mt_clears_nothing_on_read:
  assumes P: "network_order P" and inv: "v3_conn_inv u c" and ck: "chunk_ok chunk"
    and q: "mt_clears_nothing c" and spec: "fst (v3_spec (v3_abs (sess c)) chunk) \<noteq> Refused"
  shows "mt_clears_nothing (mt_on_read P c chunk)"
proof (cases "state c = Reading")
  case True
  let ?s = "fill_buffer chunk (sess c)" and ?n = "word_of_nat (length chunk) :: size_t"
  have s: "v3_inv (sess c)" "uuid (sess c) = u" using inv True by (simp_all add: v3_conn_inv_def)
  obtain es r where loop: "v3_read_loop P ?s ?n 0 = (es, r)" by fastforce
  have "length chunk \<le> 2048" using ck by (simp add: chunk_ok_def)
  then have "v3_ends ?s (v3_spec (v3_abs ?s) (pending (data_buf ?s) ?n 0)) es r"
    using P v3_inv_fill_buffer [OF ck s(1)] chunk_count [OF ck] loop by (intro v3_read_loop_ok) auto
  then have "\<forall>v. Clear_Session v \<notin> set es"
    using spec s(1) ck
    by (cases "fst (v3_spec (v3_abs (sess c)) chunk)")
      (auto simp: pending_fill_buffer v3_inv_def v3_ends_def v3_leaves_def)
  then show ?thesis
    using True q loop
    by (cases r) (auto simp: mt_on_read_def mt_HandleRead_False mt_clears_nothing_def)
qed (use q in \<open>simp add: mt_on_read_def\<close>)

lemma mt_clears_nothing_reads:
  assumes P: "network_order P"
  shows "v3_conn_inv u c \<Longrightarrow> \<forall>chunk\<in>set cs. chunk_ok chunk \<Longrightarrow> mt_clears_nothing c \<Longrightarrow>
    (state c = Reading \<Longrightarrow> fst (v3_spec (v3_abs (sess c)) (concat cs)) \<noteq> Refused) \<Longrightarrow>
      mt_clears_nothing (foldl (mt_on_read P) c cs)"
proof (induction cs arbitrary: c)
  case (Cons chunk cs)
  let ?c' = "mt_on_read P c chunk"
  have ck: "chunk_ok chunk" using Cons.prems(2) by simp
  show ?case
  proof (cases "state c = Reading")
    case False
    then have "?c' = c" by (simp add: mt_on_read_def)
    with Cons.IH [of c] Cons.prems False show ?thesis by simp
  next
    case True
    obtain a1 ms where a1: "v3_spec (v3_abs (sess c)) chunk = (a1, ms)" by fastforce
    have later: "fst (v3_spec a1 (concat cs)) \<noteq> Refused"
      using Cons.prems(4) [OF True] a1 by (simp add: prun_append Let_def split: prod.splits)
    then have "a1 \<noteq> Refused" by auto
    then have ok: "mt_clears_nothing ?c'"
      using a1 by (intro mt_clears_nothing_on_read [OF P Cons.prems(1) ck Cons.prems(3)]) simp
    have "caught (v3_abs (sess c)) = v3_abs (sess c)"
      using Cons.prems(1) True by (auto simp: v3_conn_inv_def v3_abs_def v3_inv_def split: option.splits)
    then have "prun 4 mt_dec (mt_conn_abs c) chunk = (caught a1, ms)"
      using prun_caught [OF a1] True by (simp add: mt_conn_abs_def)
    then have next_: "v3_conn_inv u ?c'" "mt_conn_abs ?c' = caught a1"
      by (rule stream_reader.refines [OF mt_stream_reader [OF P] Cons.prems(1) ck, THEN conjunct1],
        rule stream_reader.refines [OF mt_stream_reader [OF P] Cons.prems(1) ck, THEN conjunct2, THEN conjunct1])
    have "fst (v3_spec (v3_abs (sess ?c')) (concat cs)) \<noteq> Refused" if "state ?c' = Reading"
    proof -
      have "v3_abs (sess ?c') = caught a1" using next_(2) that by (simp add: mt_conn_abs_def)
      moreover have "caught a1 = a1" using mt_status [OF next_(1)] next_(2) that by (cases a1) auto
      ultimately show ?thesis using later by simp
    qed
    then show ?thesis using Cons.IH [of ?c'] Cons.prems ok next_(1) by simp
  qed
qed simp

text \<open>Reading leaves the send queue alone.\<close>

lemma mt_keeps_queue:
  assumes P: "network_order P" and inv: "v3_conn_inv u c" and ck: "chunk_ok chunk"
  shows "send_que (sess (mt_on_read P c chunk)) = send_que (sess c)"
proof (cases "state c = Reading")
  case True
  let ?s = "fill_buffer chunk (sess c)" and ?n = "word_of_nat (length chunk) :: size_t"
  have s: "v3_inv (sess c)" using inv True by (simp add: v3_conn_inv_def)
  obtain es r where loop: "v3_read_loop P ?s ?n 0 = (es, r)" by fastforce
  have "length chunk \<le> 2048" using ck by (simp add: chunk_ok_def)
  then have "v3_ends ?s (v3_spec (v3_abs ?s) (pending (data_buf ?s) ?n 0)) es r"
    using P v3_inv_fill_buffer [OF ck s] chunk_count [OF ck] loop by (intro v3_read_loop_ok) auto
  then have "\<exists>s'. send_que s' = send_que (sess c) \<and> (r = Returned s' \<or> (\<exists>f. r = Raised f s'))"
    by (cases "fst (v3_spec (v3_abs ?s) (pending (data_buf ?s) ?n 0))")
      (auto simp: v3_ends_def v3_leaves_def same_sender_def fill_buffer_def)
  then show ?thesis using True loop by (auto simp: mt_on_read_def mt_HandleRead_False)
qed (simp add: mt_on_read_def)

lemma mt_keeps_queue_reads:
  assumes P: "network_order P"
  shows "v3_conn_inv u c \<Longrightarrow> \<forall>chunk\<in>set cs. chunk_ok chunk \<Longrightarrow>
    send_que (sess (foldl (mt_on_read P) c cs)) = send_que (sess c)"
proof (induction cs arbitrary: c)
  case (Cons chunk cs)
  obtain a ms where "prun 4 mt_dec (mt_conn_abs c) chunk = (a, ms)" by fastforce
  then have "v3_conn_inv u (mt_on_read P c chunk)"
    using stream_reader.refines [OF mt_stream_reader [OF P] Cons.prems(1)] Cons.prems(2) by simp
  with Cons mt_keeps_queue [OF P Cons.prems(1), of chunk] show ?case by simp
qed simp

lemma mt_open_reads:
  assumes P: "network_order P" and cs: "\<forall>chunk\<in>set cs. chunk_ok chunk"
    and run: "v3_spec (Head []) (concat cs) = (a, ms)"
  obtains c where "mt_open u junk = Inr c"
    and "mt_conn_abs (foldl (mt_on_read P) c cs) = caught a"
    and "state (foldl (mt_on_read P) c cs) = status_of (caught a)"
    and "v3_delivered (foldl (mt_on_read P) c cs) = map (Pair u) ms"
    and "a \<noteq> Refused \<longrightarrow> mt_clears_nothing (foldl (mt_on_read P) c cs)"
    and "send_que (sess (foldl (mt_on_read P) c cs)) = []"
proof -
  obtain c where c: "mt_open u junk = Inr c" "v3_conn_inv u c" "mt_conn_abs c = Head []" "v3_delivered c = []"
    "state c = Reading"
    using mt_open_ok by blast
  have "prun 4 mt_dec (mt_conn_abs c) (concat cs) = (caught a, ms)"
    using prun_caught [OF run] c(3) by simp
  then have r: "v3_conn_inv u (foldl (mt_on_read P) c cs) \<and> mt_conn_abs (foldl (mt_on_read P) c cs) = caught a \<and>
      v3_delivered (foldl (mt_on_read P) c cs) = fold (v3_deliver u) ms (v3_delivered c)"
    by (intro stream_reader.reads_refine [OF mt_stream_reader [OF P] c(2) cs])
  have quiet: "mt_clears_nothing c"
    using c(1) by (auto simp: mt_open_def mt_CSession_def mt_Start_def mt_clears_nothing_def split: sum.splits)
  have "v3_abs (sess c) = Head []" using c(3,5) by (simp add: mt_conn_abs_def)
  then have "a \<noteq> Refused \<longrightarrow> mt_clears_nothing (foldl (mt_on_read P) c cs)"
    using mt_clears_nothing_reads [OF P c(2) cs quiet] run by simp
  moreover have "send_que (sess c) = []"
    using c(1) by (auto simp: mt_open_def mt_CSession_def mt_Start_def clear_data_def split: sum.splits)
  then have "send_que (sess (foldl (mt_on_read P) c cs)) = []"
    using mt_keeps_queue_reads [OF P c(2) cs] by simp
  ultimately show ?thesis using that [OF c(1)] r mt_status [of u "foldl (mt_on_read P) c cs"] c(4)
    by (simp add: fold_v3_deliver)
qed

text \<open>The two overloads of \<open>Send\<close>; here \<open>max_length\<close> is already a \<open>short\<close>.\<close>

datatype mt_call = Mt_Chars "byte list" short short | Mt_String "byte list" short

fun mt_Send :: "platform \<Rightarrow> mt_call \<Rightarrow> v3_session \<Rightarrow> v3_effect list \<times> v3_session outcome" where
  "mt_Send P (Mt_Chars msg max_length msg_id) s = mt_Send_chars P msg max_length msg_id s"
| "mt_Send P (Mt_String msg msg_id) s = mt_Send_string P msg msg_id s"

fun as_send_call :: "mt_call \<Rightarrow> send_call" where
  "as_send_call (Mt_Chars msg max_length msg_id) = Send_Chars msg (sint max_length) msg_id"
| "as_send_call (Mt_String msg msg_id) = Send_String msg msg_id"

lemma mt_Send_as: "mt_Send P a s = v3_Send P (as_send_call a) s"
  by (cases a) (simp_all add: mt_Send_eq)

lemma mt_write_queue:
  assumes P: "network_order P"
  shows "write_queue (mt_Send P) mt_HandleWrite v3_queue v3_send_inv (\<lambda>a. call_ok (as_send_call a))
    (\<lambda>a. call_frame (as_send_call a)) MAX_SENDQUEUE"
proof
  note v3 = v3_write_queue [OF P]
  show "v3_send_inv s \<Longrightarrow> call_ok (as_send_call a) \<Longrightarrow> MAX_SENDQUEUE < length (v3_queue s) \<Longrightarrow>
      mt_Send P a s = ([], Returned s)" for s a
    unfolding mt_Send_as by (rule write_queue.send_full [OF v3])
  show "v3_send_inv s \<Longrightarrow> call_ok (as_send_call a) \<Longrightarrow> length (v3_queue s) \<le> MAX_SENDQUEUE \<Longrightarrow>
      \<exists>es s'. mt_Send P a s = (es, Returned s') \<and> v3_send_inv s' \<and>
        v3_queue s' = v3_queue s @ [call_frame (as_send_call a)] \<and>
        written es = (if v3_queue s = [] then [call_frame (as_send_call a)] else [])" for s a
    unfolding mt_Send_as by (rule write_queue.send_queued [OF v3])
  show "v3_send_inv s \<Longrightarrow> v3_queue s = f # fs \<Longrightarrow> \<exists>es s'. mt_HandleWrite False s = (es, Returned s') \<and>
      v3_send_inv s' \<and> v3_queue s' = fs \<and> written es = take 1 fs" for s f fs
    using write_queue.write_done [OF v3, of s f fs] by (auto simp: mt_HandleWrite_eq)
  show "v3_send_inv s \<Longrightarrow> \<exists>es s'. mt_HandleWrite True s = (es, Returned s') \<and>
      v3_send_inv s' \<and> v3_queue s' = v3_queue s \<and> written es = []" for s
    using write_queue.write_failed [OF v3, of s] by (auto simp: mt_HandleWrite_eq)
qed

interpretation mt_out: write_queue "mt_Send x86_host" mt_HandleWrite v3_queue v3_send_inv
  "\<lambda>a. call_ok (as_send_call a)" "\<lambda>a. call_frame (as_send_call a)" MAX_SENDQUEUE
  by (rule mt_write_queue) (rule x86.network_order_axioms)

end
