(* ===== verification/V2_Session.thy ===== *)
theory V2_Session
  imports Session_State
begin

text \<open>
  The echo server of \<open>Server/\<close>: its \<open>MsgNode\<close> (\<open>Session.h\<close>) and \<open>CSession\<close> (\<open>Session.cpp\<close>). The
  header is the two-byte body length, and a completed message is sent back at once. Methods return
  their effects and their outcome as in \<open>V3_Session\<close>; there is no logic system, so nothing is posted.
\<close>

type_synonym v2_effect = "unit effect"

section \<open>Nodes\<close>

definition v2_MsgNode :: "short \<Rightarrow> fault + v2_msg_node" where
  "v2_MsgNode max_len =
     (case new_array (sint max_len + 1) of
        Inl f \<Rightarrow> Inl f
      | Inr d \<Rightarrow> Inr \<lparr>cur_len = 0, total_len = max_len, node_data = d\<rparr>)"

text \<open>\<open>host_to_network_long(max_len)\<close> gives four bytes, of which \<open>memcpy\<close> takes the first two.\<close>

definition v2_MsgNode_msg :: "platform \<Rightarrow> byte list \<Rightarrow> short \<Rightarrow> fault + v2_msg_node" where
  "v2_MsgNode_msg P msg max_len =
     (let total = short_of_int (sint max_len + HEAD_LENGTH);
          max_len_network = host_to_network_long P (word_of_int (sint max_len))
      in case new_array (sint total + 1) of
        Inl f \<Rightarrow> Inl f
      | Inr d0 \<Rightarrow>
     (case memcpy d0 0 (store_long P max_len_network) 0 2 of
        Inl f \<Rightarrow> Inl f
      | Inr d1 \<Rightarrow>
     (case memcpy d1 HEAD_LENGTH msg 0 (size_of_int (sint max_len)) of
        Inl f \<Rightarrow> Inl f
      | Inr d2 \<Rightarrow>
     (case mem_write d2 (sint total) [0] of
        Inl f \<Rightarrow> Inl f
      | Inr d3 \<Rightarrow> Inr \<lparr>cur_len = 0, total_len = total, node_data = d3\<rparr>))))"

definition v2_Clear :: "v2_msg_node \<Rightarrow> fault + v2_msg_node" where
  "v2_Clear nd =
     (case memset0 (node_data nd) (size_of_int (sint (total_len nd))) of
        Inl f \<Rightarrow> Inl f
      | Inr d \<Rightarrow> Inr (nd\<lparr>node_data := d, cur_len := 0\<rparr>))"

lemma v2_Clear_eq [simp]: "v2_Clear nd = Clear nd"
  by (simp add: v2_Clear_def Clear_def)

section \<open>Construction, closing and sending\<close>

definition v2_CSession :: "string \<Rightarrow> byte list \<Rightarrow> fault + v2_session" where
  "v2_CSession a_uuid junk =
     (case v2_MsgNode (short_of_int HEAD_LENGTH) of
        Inl f \<Rightarrow> Inl f
      | Inr head \<Rightarrow> Inr \<lparr>uuid = a_uuid, data_buf = junk, b_close = False, send_que = [],
                        recv_msg_node = None, b_head_parse = False, recv_head_node = head\<rparr>)"

definition v2_Start :: "v2_session \<Rightarrow> v2_effect list \<times> v2_session" where
  "v2_Start s = ([Async_Read], clear_data s)"

definition v2_Close :: "v2_session \<Rightarrow> v2_effect list \<times> v2_session" where
  "v2_Close s = ([Socket_Close], s\<lparr>b_close := True\<rparr>)"

definition v2_PrintRecvData :: "platform \<Rightarrow> byte list \<Rightarrow> int \<Rightarrow> fault + string" where
  "v2_PrintRecvData P buf len =
     (if len \<le> int (length buf)
      then Inr (''0x'' @ concat (map (hex_token P) (take (nat len) buf)))
      else Inl Out_Of_Bounds)"

definition v2_write_front :: "v2_session \<Rightarrow> v2_effect list \<times> v2_session outcome" where
  "v2_write_front s =
     (case send_que s of
        [] \<Rightarrow> ([], Raised Empty_Queue s)
      | nd # _ \<Rightarrow>
          (case node_buffer nd of
             Inl f \<Rightarrow> ([], Raised f s)
           | Inr bs \<Rightarrow> ([Async_Write bs], Returned s)))"

definition v2_Send ::
  "platform \<Rightarrow> byte list \<Rightarrow> int \<Rightarrow> v2_session \<Rightarrow> v2_effect list \<times> v2_session outcome" where
  "v2_Send P msg max_length s =
     (let send_queue_size = length (send_que s) in
      if send_queue_size > MAX_SENDQUEUE then ([], Returned s)
      else case v2_MsgNode_msg P msg (short_of_int max_length) of
             Inl f \<Rightarrow> ([], Raised f s)
           | Inr nd \<Rightarrow>
               (let s1 = s\<lparr>send_que := send_que s @ [nd]\<rparr> in
                if send_queue_size > 0 then ([], Returned s1) else v2_write_front s1))"

definition v2_HandleWrite :: "bool \<Rightarrow> v2_session \<Rightarrow> v2_effect list \<times> v2_session outcome" where
  "v2_HandleWrite error s =
     (if \<not> error
      then (case send_que s of
              [] \<Rightarrow> ([], Raised Empty_Queue s)
            | _ # rest \<Rightarrow>
                (let s1 = s\<lparr>send_que := rest\<rparr> in
                 if rest \<noteq> [] then v2_write_front s1 else ([], Returned s1)))
      else (let (es, s1) = v2_Close s in (es @ [Clear_Session (uuid s1)], Returned s1)))"

section \<open>Receiving\<close>

text \<open>The message is complete: terminate it, echo it, reset the head, and read on.\<close>

definition v2_finish ::
  "platform \<Rightarrow> v2_session \<Rightarrow> v2_msg_node \<Rightarrow> size_t \<Rightarrow> int \<Rightarrow> v2_effect list \<times> v2_session flow" where
  "v2_finish P s nd n copy_len =
     (case mem_write (node_data nd) (sint (total_len nd)) [0] of
        Inl f \<Rightarrow> ([], Raise f s)
      | Inr d \<Rightarrow>
     (case v2_Send P d (sint (total_len nd)) (s\<lparr>recv_msg_node := Some (nd\<lparr>node_data := d\<rparr>)\<rparr>) of
        (es, Raised f s1) \<Rightarrow> (es, Raise f s1)
      | (es, Returned s1) \<Rightarrow>
          (case v2_Clear (recv_head_node s1) of
             Inl f \<Rightarrow> (es, Raise f s1)
           | Inr head \<Rightarrow>
               (let s2 = s1\<lparr>b_head_parse := False, recv_head_node := head\<rparr> in
                if n = 0 then (es @ [Async_Read], Return (clear_data s2))
                else (es, Continue s2 n copy_len)))))"

definition v2_on_body ::
  "platform \<Rightarrow> v2_session \<Rightarrow> v2_msg_node \<Rightarrow> size_t \<Rightarrow> int \<Rightarrow> v2_effect list \<times> v2_session flow" where
  "v2_on_body P s nd n copy_len =
     (let remain_msg = sint (total_len nd) - sint (cur_len nd) in
      if n < size_of_int remain_msg
      then (case memcpy (node_data nd) (sint (cur_len nd)) (data_buf s) copy_len n of
              Inl f \<Rightarrow> ([], Raise f s)
            | Inr d \<Rightarrow>
                ([Async_Read], Return (clear_data (s\<lparr>recv_msg_node :=
                   Some (nd\<lparr>node_data := d, cur_len := cur_len nd + ucast n\<rparr>)\<rparr>))))
      else (case memcpy (node_data nd) (sint (cur_len nd)) (data_buf s) copy_len (size_of_int remain_msg) of
              Inl f \<Rightarrow> ([], Raise f s)
            | Inr d \<Rightarrow>
                v2_finish P s (nd\<lparr>node_data := d, cur_len := cur_len nd + short_of_int remain_msg\<rparr>)
                  (n - size_of_int remain_msg) (copy_len + remain_msg)))"

definition v2_parse_head ::
  "platform \<Rightarrow> v2_session \<Rightarrow> byte list \<Rightarrow> size_t \<Rightarrow> int \<Rightarrow> v2_effect list \<times> v2_session flow" where
  "v2_parse_head P s d n copy_len =
     (case read_net_short P d 0 of
        Inl f \<Rightarrow> ([], Raise f s)
      | Inr data_len \<Rightarrow>
      if sint data_len > MAX_LENGTH then ([Clear_Session (uuid s)], Return s)
      else
     (case v2_MsgNode data_len of
        Inl f \<Rightarrow> ([], Raise f s)
      | Inr nd \<Rightarrow>
      if n < size_of_int (sint data_len)
      then (case memcpy (node_data nd) (sint (cur_len nd)) (data_buf s) copy_len n of
              Inl f \<Rightarrow> ([], Raise f s)
            | Inr d' \<Rightarrow>
                ([Async_Read], Return ((clear_data (s\<lparr>recv_msg_node :=
                   Some (nd\<lparr>node_data := d', cur_len := cur_len nd + ucast n\<rparr>)\<rparr>))\<lparr>b_head_parse := True\<rparr>)))
      else (case memcpy (node_data nd) (sint (cur_len nd)) (data_buf s) copy_len (size_of_int (sint data_len)) of
              Inl f \<Rightarrow> ([], Raise f s)
            | Inr d' \<Rightarrow>
                v2_finish P s (nd\<lparr>node_data := d', cur_len := cur_len nd + data_len\<rparr>)
                  (n - size_of_int (sint data_len)) (copy_len + sint data_len))))"

definition v2_on_head ::
  "platform \<Rightarrow> v2_session \<Rightarrow> size_t \<Rightarrow> int \<Rightarrow> v2_effect list \<times> v2_session flow" where
  "v2_on_head P s n copy_len =
     (let head = recv_head_node s in
      if n + size_of_int (sint (cur_len head)) < size_of_int HEAD_LENGTH
      then (case memcpy (node_data head) (sint (cur_len head)) (data_buf s) copy_len n of
              Inl f \<Rightarrow> ([], Raise f s)
            | Inr d \<Rightarrow>
                ([Async_Read], Return (clear_data (s\<lparr>recv_head_node :=
                   head\<lparr>node_data := d, cur_len := cur_len head + ucast n\<rparr>\<rparr>))))
      else (let head_remain = HEAD_LENGTH - sint (cur_len head) in
            case memcpy (node_data head) (sint (cur_len head)) (data_buf s) copy_len (size_of_int head_remain) of
              Inl f \<Rightarrow> ([], Raise f s)
            | Inr d \<Rightarrow>
                v2_parse_head P (s\<lparr>recv_head_node := head\<lparr>node_data := d\<rparr>\<rparr>) d
                  (n - size_of_int head_remain) (copy_len + head_remain)))"

definition v2_iteration ::
  "platform \<Rightarrow> v2_session \<Rightarrow> size_t \<Rightarrow> int \<Rightarrow> v2_effect list \<times> v2_session flow" where
  "v2_iteration P s n copy_len =
     (if \<not> b_head_parse s then v2_on_head P s n copy_len
      else case recv_msg_node s of
             None \<Rightarrow> ([], Raise Null_Deref s)
           | Some nd \<Rightarrow> v2_on_body P s nd n copy_len)"

section \<open>The loop ends\<close>

lemma v2_finish_Continue:
  "v2_finish P s nd n copy_len = (es, Continue s' n' copy_len') \<Longrightarrow> n' = n \<and> fresh s'"
  by (auto simp: v2_finish_def Clear_def fresh_def clear_data_def Let_def
      split: sum.splits if_splits prod.splits outcome.splits)

lemma v2_on_body_Continue:
  assumes "v2_on_body P s nd n copy_len = (es, Continue s' n' copy_len')"
  shows "unat n' \<le> unat n \<and> fresh s'"
proof -
  define k where "k = sint (total_len nd) - sint (cur_len nd)"
  from assms have nl: "\<not> n < size_of_int k"
    by (auto simp: v2_on_body_def k_def Let_def split: sum.splits if_splits)
  with assms obtain d nd1 cl1 where
    cp: "memcpy (node_data nd) (sint (cur_len nd)) (data_buf s) copy_len (size_of_int k) = Inr d"
    and fin: "v2_finish P s nd1 (n - size_of_int k) cl1 = (es, Continue s' n' copy_len')"
    by (auto simp: v2_on_body_def k_def Let_def split: sum.splits)
  have kb: "- (2 ^ 62) \<le> k" "k < 2 ^ 63"
    using sint_short_bounds [of "total_len nd"] sint_short_bounds [of "cur_len nd"]
    by (simp_all add: k_def)
  with memcpy_InrD [OF cp] have "0 \<le> k" by (auto intro: size_of_int_small_nonneg)
  with nl kb have "unat (n - size_of_int k) = unat n - nat k" by (intro size_sub_le)
  with v2_finish_Continue [OF fin] show ?thesis by simp
qed

lemma v2_parse_head_Continue:
  assumes "v2_parse_head P s d n copy_len = (es, Continue s' n' copy_len')"
  shows "unat n' \<le> unat n \<and> fresh s'"
proof -
  from assms obtain data_len nd where "read_net_short P d 0 = Inr data_len" "sint data_len \<le> MAX_LENGTH"
    "v2_MsgNode data_len = Inr nd" and nl: "\<not> n < size_of_int (sint data_len)"
    by (auto simp: v2_parse_head_def split: sum.splits if_splits)
  with assms obtain nd1 d' cl1 where
    cp: "memcpy (node_data nd) (sint (cur_len nd)) (data_buf s) copy_len (size_of_int (sint data_len)) = Inr d'"
    and fin: "v2_finish P s nd1 (n - size_of_int (sint data_len)) cl1 = (es, Continue s' n' copy_len')"
    by (auto simp: v2_parse_head_def split: sum.splits)
  have b: "- (2 ^ 62) \<le> sint data_len" "sint data_len < 2 ^ 63"
    using sint_short_bounds [of data_len] by simp_all
  with memcpy_InrD [OF cp] have "0 \<le> sint data_len" by (auto intro: size_of_int_small_nonneg)
  with nl b have "unat (n - size_of_int (sint data_len)) = unat n - nat (sint data_len)"
    by (intro size_sub_le)
  with v2_finish_Continue [OF fin] show ?thesis by simp
qed

lemma v2_on_head_Continue:
  assumes "v2_on_head P s n copy_len = (es, Continue s' n' copy_len')"
  shows "fresh s' \<and> unat n' \<le> unat n \<and> (cur_len (recv_head_node s) = 0 \<longrightarrow> unat n' < unat n)"
proof -
  define c k where "c = sint (cur_len (recv_head_node s))" and "k = HEAD_LENGTH - c"
  from assms have nl: "\<not> n + size_of_int c < size_of_int HEAD_LENGTH"
    by (auto simp: v2_on_head_def c_def Let_def split: sum.splits if_splits)
  with assms obtain d s1 cl1 where
    cp: "memcpy (node_data (recv_head_node s)) c (data_buf s) copy_len (size_of_int k) = Inr d"
    and ph: "v2_parse_head P s1 d (n - size_of_int k) cl1 = (es, Continue s' n' copy_len')"
    by (auto simp: v2_on_head_def c_def k_def Let_def split: sum.splits)
  have cb: "- 32768 \<le> c" "c < 32768" by (simp_all add: c_def sint_short_bounds)
  from memcpy_InrD [OF cp] have c0: "0 \<le> c" and "unat (size_of_int k) < 2 ^ 63" by auto
  then have k0: "0 \<le> k" using cb by (intro size_of_int_small_nonneg) (auto simp: k_def)
  with nl c0 have "nat k \<le> unat n"
    unfolding k_def by (intro head_sum_no_wrap) auto
  then have "unat (n - size_of_int k) = unat n - nat k"
    using k0 cb by (intro unat_size_sub) (auto simp: k_def)
  moreover have "c = 0 \<Longrightarrow> nat k = 2" by (simp add: k_def)
  moreover have "unat n' \<le> unat (n - size_of_int k) \<and> fresh s'"
    by (rule v2_parse_head_Continue [OF ph])
  ultimately show ?thesis
    using \<open>nat k \<le> unat n\<close> by (auto simp: c_def)
qed

lemma v2_iteration_decreases:
  assumes "v2_iteration P s n copy_len = (es, Continue s' n' copy_len')"
  shows "((s', n'), (s, n)) \<in> loop_rel"
proof (cases "b_head_parse s")
  case True
  with assms obtain nd where "v2_on_body P s nd n copy_len = (es, Continue s' n' copy_len')"
    by (auto simp: v2_iteration_def split: option.splits)
  from v2_on_body_Continue [OF this] True show ?thesis
    by (auto simp: loop_rel_def fresh_def)
next
  case False
  with assms have "v2_on_head P s n copy_len = (es, Continue s' n' copy_len')"
    by (simp add: v2_iteration_def)
  from v2_on_head_Continue [OF this] False show ?thesis
    by (auto simp: loop_rel_def fresh_def)
qed

text \<open>\<open>while (bytes_transferred > 0)\<close>, with the effects of all iterations.\<close>

function v2_read_loop ::
  "platform \<Rightarrow> v2_session \<Rightarrow> size_t \<Rightarrow> int \<Rightarrow> v2_effect list \<times> v2_session outcome" where
  "v2_read_loop P s n copy_len =
     (if n = 0 then ([], Returned s)
      else case v2_iteration P s n copy_len of
             (es, Return s') \<Rightarrow> (es, Returned s')
           | (es, Raise f s') \<Rightarrow> (es, Raised f s')
           | (es, Continue s' n' copy_len') \<Rightarrow>
               (let (es', r) = v2_read_loop P s' n' copy_len' in (es @ es', r)))"
  by pat_completeness auto
termination
proof (relation "inv_image loop_rel (\<lambda>(P, s, n, copy_len). (s, n))", goal_cases)
  case 1
  show ?case by (simp add: wf_loop_rel)
next
  case 2
  then show ?case by (simp only: in_inv_image prod.case) (rule v2_iteration_decreases, erule sym)
qed

declare v2_read_loop.simps [simp del]

definition v2_HandleRead ::
  "platform \<Rightarrow> bool \<Rightarrow> size_t \<Rightarrow> v2_session \<Rightarrow> v2_effect list \<times> v2_session outcome" where
  "v2_HandleRead P error n s =
     (if \<not> error
      then (case v2_PrintRecvData P (data_buf s) (sint (ucast n :: 32 word)) of
              Inl f \<Rightarrow> ([], Raised f s)
            | Inr raw \<Rightarrow>
                (let (es, r) = v2_read_loop P s n 0 in (Print raw # es, r)))
      else (let (es, s1) = v2_Close s in (es @ [Clear_Session (uuid s1)], Returned s1)))"

end
