(* ===== verification/V2_Receive.thy ===== *)
theory V2_Receive
  imports V2_Session
begin

text \<open>
  The read loop of the echo server refines the byte machine of \<open>Framing\<close> with a two-byte header.
  Every message it completes is submitted to the send queue: \<open>v2_deliver\<close> is that submission on the
  frames queued and the writes started. A length of \<open>-1\<close> is accepted and makes the next byte an
  access out of bounds; every smaller one throws.
\<close>

section \<open>The echoed frame\<close>

text \<open>
  The frame the echo server sends. The high half of the 32-bit length in network order comes first,
  and only that half is copied.
\<close>

definition v2_frame :: "byte list \<Rightarrow> byte list" where
  "v2_frame body = [0, 0] @ body"

definition v2_node :: "byte list \<Rightarrow> msg_node" where
  "v2_node body = \<lparr>cur_len = 0, total_len = short_of_int (int (length body) + 2),
     node_data = v2_frame body @ [0]\<rparr>"

lemma high_half_zero:
  assumes "n < 65536"
  shows "byte_of_long 3 (word_of_int (int n)) = 0" and "byte_of_long 2 (word_of_int (int n)) = 0"
proof -
  have u: "unat (word_of_int (int n) :: 32 word) = n" using assms by (simp add: unat_of_nat)
  have "drop_bit 24 (word_of_int (int n) :: 32 word) = 0" "drop_bit 16 (word_of_int (int n) :: 32 word) = 0"
    using assms unfolding word_unat_eq_iff unat_drop_bit_eq u by (simp_all add: drop_bit_eq_div)
  then show "byte_of_long 3 (word_of_int (int n)) = 0" and "byte_of_long 2 (word_of_int (int n)) = 0"
    by (simp_all add: byte_of_long_def del: of_int_of_nat_eq)
qed

lemma v2_MsgNode_msg_ok:
  assumes P: "network_order P" and n: "sint max_len = int n" "n \<le> 32764" and len: "n \<le> length msg"
  shows "v2_MsgNode_msg P msg max_len = Inr (v2_node (take n msg))"
proof -
  have T: "sint (short_of_int (int n + 2)) = int n + 2" using n by (intro sint_short_of_int) auto
  have d0: "new_array (int n + 2 + 1) = Inr ([0, 0] @ replicate (Suc n) 0)"
    by (simp add: new_array_def nat_add_distrib eval_nat_numeral)
  have u: "unat (size_of_int (int n)) = n" using n by (simp add: unat_size_of_int)
  have net: "store_long P (host_to_network_long P (word_of_int (int n))) =
      [0, 0, byte_of_long 1 (word_of_int (int n)), byte_of_long 0 (word_of_int (int n))]"
    using n high_half_zero [of n] by (simp add: network_order.long_to_network [OF P] del: of_int_of_nat_eq)
  have c1: "memcpy ([0, 0] @ replicate (Suc n) 0) 0 [0, 0, a, b] 0 2 = Inr ([0, 0] @ replicate (Suc n) 0)" for a b
    by (simp add: mem_simps)
  have c2: "memcpy ([0, 0] @ replicate (Suc n) 0) HEAD_LENGTH msg 0 (size_of_int (int n)) =
      Inr ([0, 0] @ take n msg @ [0])"
  proof -
    have "drop n (replicate (Suc n) 0) = [0 :: byte]" by (simp only: drop_replicate) simp
    moreover have "drop (2 + n) (0 # 0 # xs) = drop n xs" for xs :: "byte list" by simp
    ultimately show ?thesis using n len by (simp add: memcpy_ok u)
  qed
  have w: "mem_write ([0, 0] @ take n msg @ [0]) (int n + 2) [0] = Inr ([0, 0] @ take n msg @ [0])"
    using len by (simp add: mem_simps nat_add_distrib)
  show ?thesis
    unfolding v2_MsgNode_msg_def Let_def n(1) T d0 sum.case net c1 c2 w
    using len by (simp add: v2_node_def v2_frame_def min_def)
qed

lemma v2_node_buffer: "length body \<le> 32764 \<Longrightarrow> node_buffer (v2_node body) = Inr (v2_frame body)"
proof -
  assume "length body \<le> 32764"
  then have "unat (size_of_int (sint (short_of_int (int (length body) + 2)))) = length body + 2"
    by (simp add: sint_short_of_int unat_size_of_int nat_add_distrib)
  then show ?thesis
    using \<open>length body \<le> 32764\<close> by (simp add: node_buffer_def v2_node_def mem_simps v2_frame_def)
qed

text \<open>\<open>Send\<close> of a received message.\<close>

lemma v2_Send_echo:
  assumes P: "network_order P" and n: "n \<le> 32764" "n \<le> length msg"
  shows "v2_Send P msg (int n) s =
    (if length (send_que s) > MAX_SENDQUEUE then ([], Returned s)
     else (if send_que s = [] then [Async_Write (v2_frame (take n msg))] else [],
           Returned (s\<lparr>send_que := send_que s @ [v2_node (take n msg)]\<rparr>)))"
proof -
  have "v2_MsgNode_msg P msg (short_of_int (int n)) = Inr (v2_node (take n msg))"
    using n by (intro v2_MsgNode_msg_ok [OF P]) (auto simp: sint_short_of_int)
  then show ?thesis
    using n by (cases "send_que s") (auto simp: v2_Send_def v2_write_front_def v2_node_buffer Let_def)
qed

section \<open>Specification and abstraction\<close>

definition v2_dec :: "byte list \<Rightarrow> unit verdict" where
  "v2_dec hs =
     (let data_len = short_of_bytes (hs ! 0) (hs ! 1) in
      if sint data_len > MAX_LENGTH then Refuse
      else if sint data_len < - 1 then Crash Bad_Array_New_Length
      else Expect () (sint data_len))"

abbreviation v2_spec :: "unit pstate \<Rightarrow> byte list \<Rightarrow> unit pstate \<times> (unit \<times> byte list) list" where
  "v2_spec \<equiv> prun 2 v2_dec"

definition v2_abs :: "v2_session \<Rightarrow> unit pstate" where
  "v2_abs s =
     (if b_head_parse s
      then (case recv_msg_node s of
              None \<Rightarrow> Crashed Null_Deref
            | Some nd \<Rightarrow> Body () (sint (total_len nd)) (node_text nd))
      else Head (node_text (recv_head_node s)))"

definition v2_head_ok :: "msg_node \<Rightarrow> bool" where
  "v2_head_ok head \<longleftrightarrow> total_len head = 2 \<and> length (node_data head) = 3 \<and>
     0 \<le> sint (cur_len head) \<and> sint (cur_len head) < 2"

text \<open>A node of length \<open>-1\<close> has an empty block.\<close>

definition v2_body_ok :: "msg_node \<Rightarrow> bool" where
  "v2_body_ok nd \<longleftrightarrow>
     0 \<le> sint (cur_len nd) \<and> sint (cur_len nd) < sint (total_len nd) \<and>
       sint (total_len nd) \<le> MAX_LENGTH \<and> length (node_data nd) = Suc (nat (sint (total_len nd)))
     \<or> sint (total_len nd) = - 1 \<and> cur_len nd = 0 \<and> node_data nd = []"

definition v2_inv :: "v2_session \<Rightarrow> bool" where
  "v2_inv s \<longleftrightarrow> length (data_buf s) = 2048 \<and> v2_head_ok (recv_head_node s) \<and>
     (b_head_parse s \<longrightarrow> (case recv_msg_node s of None \<Rightarrow> False | Some nd \<Rightarrow> v2_body_ok nd))"

definition same_id :: "('r, 'q) csession \<Rightarrow> ('r, 'q) csession \<Rightarrow> bool" where
  "same_id s s' \<longleftrightarrow> uuid s' = uuid s \<and> b_close s' = b_close s"

text \<open>The sender: the frames queued, and the writes started by the messages delivered so far.\<close>

type_synonym v2_sender = "byte list list \<times> byte list list"

fun v2_deliver :: "unit \<times> byte list \<Rightarrow> v2_sender \<Rightarrow> v2_sender" where
  "v2_deliver (_, body) (q, ws) =
     (if length q > MAX_SENDQUEUE then (q, ws)
      else (q @ [v2_frame body], if q = [] then ws @ [v2_frame body] else ws))"

definition v2_queue :: "v2_session \<Rightarrow> byte list list" where
  "v2_queue s = map node_wire (send_que s)"

lemma fold_v2_deliver_shift:
  "fold v2_deliver ms (q, ws @ vs) = (fst (fold v2_deliver ms (q, vs)), ws @ snd (fold v2_deliver ms (q, vs)))"
proof (induction ms arbitrary: q vs)
  case (Cons m ms)
  obtain body where m: "m = ((), body)" by (cases m) auto
  show ?case
  proof (cases "length q > MAX_SENDQUEUE")
    case True
    with Cons.IH [of q vs] show ?thesis by (simp add: m)
  next
    case False
    with Cons.IH [of _ "vs @ [v2_frame body]"] Cons.IH [of _ vs] show ?thesis by (simp add: m)
  qed
qed simp

lemma same_id_trans: "same_id s t \<Longrightarrow> same_id t u \<Longrightarrow> same_id s u"
  by (simp add: same_id_def)

lemma v2_clear_data_simps [simp]:
  "v2_abs (clear_data s) = v2_abs s" "same_id t (clear_data s) = same_id t s"
  "v2_queue (clear_data s) = v2_queue s"
  by (simp_all add: v2_abs_def clear_data_def same_id_def v2_queue_def)

lemma v2_inv_clear_data: "v2_inv s \<Longrightarrow> v2_inv (clear_data s)"
  by (simp add: v2_inv_def clear_data_def)

section \<open>What one iteration and the whole loop promise\<close>

definition v2_leaves ::
  "v2_session \<Rightarrow> unit pstate \<Rightarrow> byte list list \<Rightarrow> v2_effect list \<Rightarrow> v2_session outcome \<Rightarrow> bool" where
  "v2_leaves s a q fin r \<longleftrightarrow>
     (\<exists>s'. same_id s s' \<and> v2_queue s' = q \<and>
       (case a of
          Refused \<Rightarrow> fin = [Clear_Session (uuid s)] \<and> r = Returned s'
        | Crashed f \<Rightarrow> fin = [] \<and> r = Raised f s'
        | _ \<Rightarrow> fin = [Async_Read] \<and> r = Returned s' \<and> v2_inv s' \<and> v2_abs s' = a))"

definition v2_ends ::
  "v2_session \<Rightarrow> unit pstate \<times> (unit \<times> byte list) list \<Rightarrow> v2_effect list \<Rightarrow> v2_session outcome \<Rightarrow> bool" where
  "v2_ends s spec es r \<longleftrightarrow>
     (\<exists>q ws fin. fold v2_deliver (snd spec) (v2_queue s, []) = (q, ws) \<and>
        es = map Async_Write ws @ fin \<and> v2_leaves s (fst spec) q fin r)"

definition v2_iter_ok ::
  "v2_session \<Rightarrow> size_t \<Rightarrow> int \<Rightarrow> v2_effect list \<times> v2_session flow \<Rightarrow> bool" where
  "v2_iter_ok s n copy_len res \<longleftrightarrow>
     (let xs = pending (data_buf s) n copy_len in
      case snd res of
        Return s' \<Rightarrow> v2_ends s (v2_spec (v2_abs s) xs) (fst res) (Returned s')
      | Raise f s' \<Rightarrow> v2_ends s (v2_spec (v2_abs s) xs) (fst res) (Raised f s')
      | Continue s' n' copy_len' \<Rightarrow>
          (\<exists>k m ws. v2_deliver m (v2_queue s, []) = (v2_queue s', ws) \<and> fst res = map Async_Write ws \<and>
             same_id s s' \<and> v2_spec (v2_abs s) (take k xs) = (Head [], [m]) \<and>
             v2_inv s' \<and> v2_abs s' = Head [] \<and> n' \<noteq> 0 \<and> cursor (data_buf s') xs k n' copy_len'))"

lemma v2_iter_reading:
  "v2_spec (v2_abs s) (pending (data_buf s) n copy_len) = (a, ms) \<Longrightarrow> running a \<Longrightarrow>
   fold v2_deliver ms (v2_queue s, []) = (v2_queue s', ws) \<Longrightarrow> same_id s s' \<Longrightarrow> v2_inv s' \<Longrightarrow> v2_abs s' = a \<Longrightarrow>
     v2_iter_ok s n copy_len (map Async_Write ws @ [Async_Read], Return s')"
  by (cases a) (auto simp: v2_iter_ok_def v2_ends_def v2_leaves_def)

lemma v2_iter_waiting:
  "v2_spec (v2_abs s) (pending (data_buf s) n copy_len) = (a, []) \<Longrightarrow> running a \<Longrightarrow>
   same_id s s' \<Longrightarrow> v2_queue s' = v2_queue s \<Longrightarrow> v2_inv s' \<Longrightarrow> v2_abs s' = a \<Longrightarrow>
     v2_iter_ok s n copy_len ([Async_Read], Return s')"
  using v2_iter_reading [where ws = "[]" and ms = "[]"] by simp

lemma v2_iter_refused:
  "v2_spec (v2_abs s) (pending (data_buf s) n copy_len) = (Refused, []) \<Longrightarrow> same_id s s' \<Longrightarrow>
   v2_queue s' = v2_queue s \<Longrightarrow> v2_iter_ok s n copy_len ([Clear_Session (uuid s)], Return s')"
  by (auto simp: v2_iter_ok_def v2_ends_def v2_leaves_def)

lemma v2_iter_crashed:
  "v2_spec (v2_abs s) (pending (data_buf s) n copy_len) = (Crashed f, []) \<Longrightarrow> same_id s s' \<Longrightarrow>
   v2_queue s' = v2_queue s \<Longrightarrow> v2_iter_ok s n copy_len ([], Raise f s')"
  by (auto simp: v2_iter_ok_def v2_ends_def v2_leaves_def)

lemma v2_iter_continue:
  "v2_spec (v2_abs s) (take k (pending (data_buf s) n copy_len)) = (Head [], [m]) \<Longrightarrow>
   v2_deliver m (v2_queue s, []) = (v2_queue s', ws) \<Longrightarrow> same_id s s' \<Longrightarrow> v2_inv s' \<Longrightarrow> v2_abs s' = Head [] \<Longrightarrow>
   n' \<noteq> 0 \<Longrightarrow> cursor (data_buf s') (pending (data_buf s) n copy_len) k n' copy_len' \<Longrightarrow>
     v2_iter_ok s n copy_len (map Async_Write ws, Continue s' n' copy_len')"
  unfolding v2_iter_ok_def Let_def snd_conv fst_conv flow.case by blast

section \<open>Completing a message\<close>

text \<open>\<open>Send\<close> of the body, in the middle of an iteration, is a delivery.\<close>

lemma v2_finish_eq:
  fixes s nd n copy_len
  assumes P: "network_order P"
    and nd: "sint (total_len nd) = int t" "t \<le> 2048" "length (node_data nd) = Suc t"
    and hd: "total_len (recv_head_node s) = 2" "length (node_data (recv_head_node s)) = 3"
  defines "body \<equiv> take t (node_data nd)"
  defines "ws \<equiv> if send_que s = [] then [v2_frame body] else []"
    and "s2 \<equiv> s\<lparr>recv_msg_node := Some (nd\<lparr>node_data := body @ [0]\<rparr>),
      send_que := (if length (send_que s) > MAX_SENDQUEUE then send_que s else send_que s @ [v2_node body]),
      b_head_parse := False, recv_head_node :=
        (recv_head_node s)\<lparr>node_data := replicate 2 0 @ drop 2 (node_data (recv_head_node s)), cur_len := 0\<rparr>\<rparr>"
  shows "v2_finish P s nd n copy_len =
      (if n = 0 then (map Async_Write ws @ [Async_Read], Return (clear_data s2))
       else (map Async_Write ws, Continue s2 n copy_len))"
    and "v2_deliver ((), body) (v2_queue s, []) = (v2_queue s2, ws)"
proof -
  have send: "v2_Send P (body @ [0]) (int t) s1 =
    (if length (send_que s1) > MAX_SENDQUEUE then ([], Returned s1)
     else (if send_que s1 = [] then [Async_Write (v2_frame body)] else [],
           Returned (s1\<lparr>send_que := send_que s1 @ [v2_node body]\<rparr>)))" for s1
    using v2_Send_echo [OF P, of t "body @ [0]" s1] nd by (simp add: body_def)
  show "v2_finish P s nd n copy_len =
      (if n = 0 then (map Async_Write ws @ [Async_Read], Return (clear_data s2))
       else (map Async_Write ws, Continue s2 n copy_len))"
    using nd hd by (auto simp: v2_finish_def mem_simps Clear_ok Let_def body_def [symmetric] send ws_def s2_def)
  have "node_wire (v2_node body) = v2_frame body"
    using nd by (simp add: node_wire_def v2_node_buffer body_def)
  then show "v2_deliver ((), body) (v2_queue s, []) = (v2_queue s2, ws)"
    by (auto simp: ws_def v2_queue_def s2_def)
qed

lemma v2_finish_ok:
  fixes s0 n0 copy_len0
  defines "xs \<equiv> pending (data_buf s0) n0 copy_len0"
  assumes P: "network_order P"
    and nd: "sint (total_len nd) = int t" "t \<le> 2048" "length (node_data nd) = Suc t"
    and hd: "total_len (recv_head_node s) = 2" "length (node_data (recv_head_node s)) = 3"
    and s: "same_id s0 s" "send_que s = send_que s0" and at: "cursor (data_buf s) xs k n copy_len"
    and spec: "v2_spec (v2_abs s0) (take k xs) = (Head [], [((), take t (node_data nd))])"
  shows "v2_iter_ok s0 n0 copy_len0 (v2_finish P s nd n copy_len)"
proof -
  define body where "body = take t (node_data nd)"
  define ws where "ws = (if send_que s = [] then [v2_frame body] else [])"
  define s2 where "s2 = s\<lparr>recv_msg_node := Some (nd\<lparr>node_data := body @ [0]\<rparr>),
     send_que := (if length (send_que s) > MAX_SENDQUEUE then send_que s else send_que s @ [v2_node body]),
     b_head_parse := False, recv_head_node :=
       (recv_head_node s)\<lparr>node_data := replicate 2 0 @ drop 2 (node_data (recv_head_node s)), cur_len := 0\<rparr>\<rparr>"
  note eq = v2_finish_eq(1) [OF P nd hd, folded body_def, folded ws_def s2_def]
  have deliver: "v2_deliver ((), body) (v2_queue s0, []) = (v2_queue s2, ws)"
    using v2_finish_eq(2) [OF P nd hd] s(2) by (simp add: body_def ws_def s2_def v2_queue_def)
  have s2: "v2_inv s2" "v2_abs s2 = Head []" "same_id s0 s2" "cursor (data_buf s2) xs k n copy_len"
    using s hd at cursor_length(3) [OF at]
    by (simp_all add: v2_inv_def s2_def v2_head_ok_def v2_abs_def node_text_def same_id_def)
  show ?thesis
  proof (cases "n = 0")
    case True
    with spec cursor_end at have "v2_spec (v2_abs s0) xs = (Head [], [((), body)])" by (metis body_def)
    then have "v2_iter_ok s0 n0 copy_len0 (map Async_Write ws @ [Async_Read], Return (clear_data s2))"
      using s2 deliver by (intro v2_iter_reading) (auto simp: xs_def v2_inv_clear_data)
    then show ?thesis unfolding eq using True by simp
  next
    case False
    then have "v2_iter_ok s0 n0 copy_len0 (map Async_Write ws, Continue s2 n copy_len)"
      using deliver s2 spec by (intro v2_iter_continue) (auto simp: body_def xs_def)
    then show ?thesis unfolding eq using False by simp
  qed
qed

section \<open>Bytes of a body\<close>

lemma v2_body_view:
  assumes "v2_inv s" "b_head_parse s" "recv_msg_node s = Some nd" "sint (total_len nd) \<noteq> - 1"
  obtains c t where "sint (cur_len nd) = int c" "sint (total_len nd) = int t" "c < t" "t \<le> 2048"
    "length (node_data nd) = Suc t" "v2_abs s = Body () (int t) (node_text nd)"
    "node_text nd = take c (node_data nd)" "v2_head_ok (recv_head_node s)"
  using that [of "nat (sint (cur_len nd))" "nat (sint (total_len nd))"] assms
  by (auto simp: v2_inv_def v2_body_ok_def v2_abs_def node_text_def)

lemma v2_on_body_short:
  fixes s n copy_len
  defines "xs \<equiv> pending (data_buf s) n copy_len"
  assumes inv: "v2_inv s" "b_head_parse s" "recv_msg_node s = Some nd" "sint (total_len nd) \<noteq> - 1"
    and at: "cursor (data_buf s) xs 0 n copy_len"
    and short: "n < size_of_int (sint (total_len nd) - sint (cur_len nd))"
  shows "v2_iter_ok s n copy_len (v2_on_body P s nd n copy_len)"
proof -
  obtain c t where nd: "sint (cur_len nd) = int c" "sint (total_len nd) = int t" "c < t" "t \<le> 2048"
    "length (node_data nd) = Suc t" and abs: "v2_abs s = Body () (int t) (node_text nd)"
    and ntext: "node_text nd = take c (node_data nd)" and hd: "v2_head_ok (recv_head_node s)"
    by (rule v2_body_view [OF inv])
  have fits: "c + unat n < t" using short nd by (simp add: size_less_iff nat_diff_distrib')
  note lx = cursor_length [OF at, simplified]
  define nd1 where "nd1 = nd\<lparr>node_data := take c (node_data nd) @ xs @ drop (c + unat n) (node_data nd),
      cur_len := cur_len nd + ucast n\<rparr>"
  define s1 where "s1 = clear_data (s\<lparr>recv_msg_node := Some nd1\<rparr>)"
  have cur: "sint (cur_len nd + ucast n) = int (c + unat n)" using nd fits by (intro sint_add_ucast) auto
  then have ntext1: "node_text nd1 = node_text nd @ xs" using nd lx by (simp add: nd1_def node_text_append)
  have "v2_on_body P s nd n copy_len = ([Async_Read], Return s1)"
    using short nd fits lx cursor_copy [OF at order_refl, of c "node_data nd"]
    by (simp add: v2_on_body_def nd1_def s1_def)
  moreover have "v2_inv s1" "v2_abs s1 = Body () (int t) (node_text nd @ xs)"
    using inv nd fits cur lx hd ntext1
    by (simp_all add: v2_inv_def s1_def clear_data_def v2_body_ok_def nd1_def v2_abs_def)
  moreover have "v2_spec (v2_abs s) xs = (Body () (int t) (node_text nd @ xs), [])"
    using fits nd lx by (simp add: abs prun_body_short ntext)
  moreover have "same_id s s1" "v2_queue s1 = v2_queue s"
    by (simp_all add: s1_def) (simp_all add: same_id_def v2_queue_def)
  ultimately show ?thesis by (auto intro: v2_iter_waiting simp: xs_def)
qed

lemma v2_on_body_full:
  fixes s n copy_len
  defines "xs \<equiv> pending (data_buf s) n copy_len"
  assumes P: "network_order P"
    and inv: "v2_inv s" "b_head_parse s" "recv_msg_node s = Some nd" "sint (total_len nd) \<noteq> - 1"
    and at: "cursor (data_buf s) xs 0 n copy_len"
    and full: "\<not> n < size_of_int (sint (total_len nd) - sint (cur_len nd))"
  shows "v2_iter_ok s n copy_len (v2_on_body P s nd n copy_len)"
proof -
  obtain c t where nd: "sint (cur_len nd) = int c" "sint (total_len nd) = int t" "c < t" "t \<le> 2048"
    "length (node_data nd) = Suc t" and abs: "v2_abs s = Body () (int t) (node_text nd)"
    and ntext: "node_text nd = take c (node_data nd)" and hd: "v2_head_ok (recv_head_node s)"
    by (rule v2_body_view [OF inv])
  define k where "k = t - c"
  have k: "int t - int c = int k" "0 < k" "k \<le> unat n" "c + k = t" "k \<le> 2048"
    using full nd by (auto simp: k_def size_less_iff nat_diff_distrib')
  then have u: "unat (size_of_int (int k)) = k" by (intro unat_size_small)
  note lx = cursor_length [OF at, simplified]
  define nd1 where "nd1 = nd\<lparr>node_data := take c (node_data nd) @ take k xs @ drop (c + k) (node_data nd),
      cur_len := cur_len nd + short_of_int (int k)\<rparr>"
  have "memcpy (node_data nd) (int c) (data_buf s) copy_len (size_of_int (int k)) =
      Inr (take c (node_data nd) @ take k xs @ drop (c + k) (node_data nd))"
    using k u nd cursor_copy [OF at, of "size_of_int (int k)" c "node_data nd"] by simp
  then have "v2_on_body P s nd n copy_len = v2_finish P s nd1 (n - size_of_int (int k)) (copy_len + int k)"
    using full by (simp add: v2_on_body_def Let_def nd(1,2) k(1) nd1_def)
  moreover have "v2_iter_ok s n copy_len (v2_finish P s nd1 (n - size_of_int (int k)) (copy_len + int k))"
  proof (rule v2_finish_ok [OF P, where t = t and k = k])
    show "sint (total_len nd1) = int t" "length (node_data nd1) = Suc t"
      using nd k lx by (simp_all add: nd1_def)
    show "cursor (data_buf s) (pending (data_buf s) n copy_len) k (n - size_of_int (int k)) (copy_len + int k)"
      using cursor_advance [OF at k(3)] by (simp add: xs_def)
    have "take t (node_data nd1) = node_text nd @ take k xs"
      using nd k lx by (simp add: nd1_def ntext k_def [symmetric])
    moreover have "v2_spec (v2_abs s) (take k xs) = (Head [], [((), node_text nd @ take k xs)])"
      using k lx nd unfolding abs by (intro prun_body_full) (auto simp: ntext)
    ultimately show "v2_spec (v2_abs s) (take k (pending (data_buf s) n copy_len)) =
        (Head [], [((), take t (node_data nd1))])"
      by (simp add: xs_def nd1_def)
  qed (use hd nd in \<open>simp_all add: v2_head_ok_def same_id_def\<close>)
  ultimately show ?thesis by simp
qed

text \<open>The body of a message of length \<open>-1\<close>: its first byte is written outside the empty block.\<close>

lemma v2_on_body_negative:
  assumes inv: "v2_inv s" "b_head_parse s" "recv_msg_node s = Some nd" "sint (total_len nd) = - 1"
    and n: "n \<noteq> 0" "0 \<le> copy_len" "nat copy_len + unat n \<le> 2048"
  shows "v2_iter_ok s n copy_len (v2_on_body P s nd n copy_len)"
proof -
  define xs where "xs = pending (data_buf s) n copy_len"
  have nd: "cur_len nd = 0" "node_data nd = []" and buf: "length (data_buf s) = 2048"
    using inv by (auto simp: v2_inv_def v2_body_ok_def)
  have u: "0 < unat n" using n(1) by (simp add: unat_gt_0)
  have lx: "length xs = unat n" using n buf by (simp add: xs_def length_pending)
  then have "v2_spec (v2_abs s) xs = (Crashed Out_Of_Bounds, [])"
    using inv u by (auto simp: v2_abs_def intro!: prun_body_neg)
  moreover have "n < size_of_int (- 1)" using n by (intro size_less_neg) auto
  then have "v2_on_body P s nd n copy_len = ([], Raise Out_Of_Bounds s)"
    using nd u n buf inv(4)
    by (simp add: v2_on_body_def Let_def memcpy_def mem_read_def mem_write_def)
  ultimately show ?thesis by (auto intro: v2_iter_crashed simp: xs_def same_id_def)
qed

section \<open>The end of a header\<close>

lemma v2_MsgNode_ok:
  "- 1 \<le> sint max_len \<Longrightarrow> v2_MsgNode max_len =
     Inr \<lparr>cur_len = 0, total_len = max_len, node_data = replicate (nat (sint max_len + 1)) 0\<rparr>"
  by (simp add: v2_MsgNode_def new_array_def)

lemma v2_start_body_short:
  fixes s0 n0 copy_len0
  defines "xs \<equiv> pending (data_buf s0) n0 copy_len0"
  assumes len: "sint data_len = int t" "t \<le> 2048" and hd: "v2_head_ok (recv_head_node s)"
    and s: "same_id s0 s" "send_que s = send_que s0" and at: "cursor (data_buf s) xs k n copy_len" and short: "unat n < t"
    and spec: "v2_spec (v2_abs s0) (take k xs) = (if t = 0 then (Head [], [((), [])]) else (Body () (int t) [], []))"
    and d: "read_net_short P d 0 = Inr data_len"
  shows "v2_iter_ok s0 n0 copy_len0 (v2_parse_head P s d n copy_len)"
proof -
  define nd where "nd = \<lparr>cur_len = 0, total_len = data_len, node_data = replicate (Suc t) 0\<rparr>"
  define ys where "ys = drop k xs"
  have nd: "v2_MsgNode data_len = Inr nd"
    using len by (simp add: v2_MsgNode_ok nd_def nat_add_distrib del: replicate_Suc)
  note lx = cursor_length [OF at]
  have ly: "length ys = unat n" using lx by (simp add: ys_def)
  define nd1 where "nd1 = nd\<lparr>node_data := ys @ drop (unat n) (node_data nd), cur_len := 0 + ucast n\<rparr>"
  define s1 where "s1 = (clear_data (s\<lparr>recv_msg_node := Some nd1\<rparr>))\<lparr>b_head_parse := True\<rparr>"
  have cur: "sint (0 + ucast n :: short) = int (0 + unat n)" using short len by (intro sint_add_ucast) auto
  have "memcpy (node_data nd) 0 (data_buf s) copy_len n = Inr (ys @ drop (unat n) (node_data nd))"
    using short cursor_copy [OF at order_refl, of 0 "node_data nd"] ly by (simp add: nd_def ys_def [symmetric])
  then have "v2_parse_head P s d n copy_len = ([Async_Read], Return s1)"
    using short d len nd by (simp add: v2_parse_head_def s1_def nd1_def size_less_iff) (simp add: nd_def)
  moreover have "v2_inv s1" "v2_abs s1 = Body () (int t) ys" "same_id s0 s1" "v2_queue s1 = v2_queue s0"
    using short cur len hd ly s
    by (simp_all add: v2_inv_def s1_def clear_data_def v2_body_ok_def nd1_def nd_def v2_abs_def node_text_def
        same_id_def v2_queue_def)
  moreover have "v2_spec (v2_abs s0) xs = (Body () (int t) ys, [])"
    unfolding ys_def using spec lx short by (intro prun_begun) auto
  ultimately show ?thesis by (auto intro: v2_iter_waiting simp: xs_def)
qed

lemma v2_start_body_full:
  fixes s0 n0 copy_len0
  defines "xs \<equiv> pending (data_buf s0) n0 copy_len0"
  assumes len: "sint data_len = int t" "t \<le> 2048" and hd: "v2_head_ok (recv_head_node s)"
    and s: "same_id s0 s" "send_que s = send_que s0" and at: "cursor (data_buf s) xs k n copy_len" and full: "t \<le> unat n"
    and spec: "v2_spec (v2_abs s0) (take k xs) = (if t = 0 then (Head [], [((), [])]) else (Body () (int t) [], []))"
    and d: "read_net_short P d 0 = Inr data_len" and P: "network_order P"
  shows "v2_iter_ok s0 n0 copy_len0 (v2_parse_head P s d n copy_len)"
proof -
  define nd where "nd = \<lparr>cur_len = 0, total_len = data_len, node_data = replicate (Suc t) 0\<rparr>"
  define ys where "ys = drop k xs"
  have nd: "v2_MsgNode data_len = Inr nd"
    using len by (simp add: v2_MsgNode_ok nd_def nat_add_distrib del: replicate_Suc)
  note lx = cursor_length [OF at]
  have ly: "length ys = unat n" using lx by (simp add: ys_def)
  define nd1 where "nd1 = nd\<lparr>node_data := take t ys @ [0], cur_len := 0 + data_len\<rparr>"
  have "drop t (replicate (Suc t) (0 :: byte)) = [0]" by (simp only: drop_replicate) simp
  then have "memcpy (node_data nd) 0 (data_buf s) copy_len (size_of_int (int t)) = Inr (take t ys @ [0])"
    using full len cursor_copy [OF at, of "size_of_int (int t)" 0 "node_data nd"]
    by (simp add: nd_def ys_def unat_size_small del: replicate_Suc)
  then have "v2_parse_head P s d n copy_len = v2_finish P s nd1 (n - size_of_int (int t)) (copy_len + int t)"
    using full d len nd by (simp add: v2_parse_head_def nd1_def size_less_iff) (simp add: nd_def)
  moreover have "v2_iter_ok s0 n0 copy_len0 (v2_finish P s nd1 (n - size_of_int (int t)) (copy_len + int t))"
  proof (rule v2_finish_ok [OF P, where t = t and k = "k + t"])
    show "sint (total_len nd1) = int t" "length (node_data nd1) = Suc t"
      using len full ly by (simp_all add: nd1_def nd_def)
    show "cursor (data_buf s) (pending (data_buf s0) n0 copy_len0) (k + t) (n - size_of_int (int t)) (copy_len + int t)"
      using cursor_advance [OF at full] by (simp add: xs_def)
    show "v2_spec (v2_abs s0) (take (k + t) (pending (data_buf s0) n0 copy_len0)) =
        (Head [], [((), take t (node_data nd1))])"
      using prun_completed [OF spec] full lx ly by (simp add: nd1_def nd_def xs_def [symmetric] ys_def)
  qed (use s hd len in \<open>simp_all add: v2_head_ok_def\<close>)
  ultimately show ?thesis by simp
qed

text \<open>A length of \<open>-1\<close>: as a \<open>size_t\<close> it exceeds every count, so the body is begun; the bytes of this
  read that follow the header, if any, already do not fit.\<close>

lemma v2_start_negative_ok:
  fixes s0 n0 copy_len0
  defines "xs \<equiv> pending (data_buf s0) n0 copy_len0"
  assumes len: "sint data_len = - 1" and hd: "v2_head_ok (recv_head_node s)"
    and s: "same_id s0 s" "send_que s = send_que s0" and at: "cursor (data_buf s) xs k n copy_len"
    and spec: "v2_spec (v2_abs s0) (take k xs) = (Body () (- 1) [], [])"
    and d: "read_net_short P d 0 = Inr data_len"
  shows "v2_iter_ok s0 n0 copy_len0 (v2_parse_head P s d n copy_len)"
proof -
  define nd where "nd = \<lparr>cur_len = 0, total_len = data_len, node_data = []\<rparr>"
  have nd: "v2_MsgNode data_len = Inr nd" using len by (simp add: v2_MsgNode_ok nd_def)
  note lx = cursor_length [OF at]
  have n: "0 \<le> copy_len" "nat copy_len + unat n \<le> 2048" using at by (simp_all add: cursor_def)
  have less: "n < size_of_int (- 1)" using n by (intro size_less_neg) auto
  have q: "v2_queue s = v2_queue s0" using s(2) by (simp add: v2_queue_def)
  show ?thesis
  proof (cases "n = 0")
    case True
    define s1 where "s1 = (clear_data (s\<lparr>recv_msg_node := Some (nd\<lparr>node_data := [], cur_len := 0 + ucast n\<rparr>)\<rparr>))\<lparr>b_head_parse := True\<rparr>"
    have "v2_parse_head P s d n copy_len = ([Async_Read], Return s1)"
      using True less d len nd n lx(3)
      by (simp add: v2_parse_head_def s1_def memcpy_def mem_read_def mem_write_def) (simp add: nd_def)
    moreover have "v2_inv s1" "v2_abs s1 = Body () (- 1) []" "same_id s0 s1" "v2_queue s1 = v2_queue s0"
      using True len hd s(1) q
      by (simp_all add: v2_inv_def s1_def clear_data_def v2_body_ok_def nd_def v2_abs_def node_text_def
          same_id_def v2_queue_def)
    moreover have "v2_spec (v2_abs s0) xs = (Body () (- 1) [], [])"
      using spec cursor_end at True by metis
    ultimately show ?thesis by (auto intro: v2_iter_waiting simp: xs_def)
  next
    case False
    then have "0 < unat n" by (simp add: unat_gt_0)
    then have "v2_parse_head P s d n copy_len = ([], Raise Out_Of_Bounds s)"
      using less d len nd n lx(3)
      by (simp add: v2_parse_head_def memcpy_def mem_read_def mem_write_def) (simp add: nd_def)
    moreover have "v2_spec (Body () (- 1) []) (drop k xs) = (Crashed Out_Of_Bounds, [])"
      using lx \<open>0 < unat n\<close> by (intro prun_body_neg) auto
    with prun_split [OF spec] have "v2_spec (v2_abs s0) xs = (Crashed Out_Of_Bounds, [])" by simp
    ultimately show ?thesis using s(1) q by (auto intro: v2_iter_crashed simp: xs_def)
  qed
qed

text \<open>The header as the code decodes it, against \<open>v2_dec\<close>: every verdict.\<close>

lemma v2_parse_head_ok:
  fixes s0 n0 copy_len0
  defines "xs \<equiv> pending (data_buf s0) n0 copy_len0"
  assumes P: "network_order P" and hd: "v2_head_ok (recv_head_node s)"
    and s: "same_id s0 s" "send_que s = send_que s0" and at: "cursor (data_buf s) xs k n copy_len" and d: "length d = 3"
    and spec: "v2_spec (v2_abs s0) (take k xs) = head_done v2_dec (take 2 d)"
  shows "v2_iter_ok s0 n0 copy_len0 (v2_parse_head P s d n copy_len)"
proof -
  define data_len where "data_len = short_of_bytes (d ! 0) (d ! 1)"
  have rd: "read_net_short P d 0 = Inr data_len"
    using network_order.read_net_short_ok [OF P, of 0 d] d by (simp add: data_len_def)
  have dec: "v2_dec (take 2 d) =
     (if sint data_len > MAX_LENGTH then Refuse
      else if sint data_len < - 1 then Crash Bad_Array_New_Length
      else Expect () (sint data_len))"
    by (simp add: v2_dec_def data_len_def)
  have u: "uuid s = uuid s0" using s(1) by (simp add: same_id_def)
  have q: "v2_queue s = v2_queue s0" using s(2) by (simp add: v2_queue_def)
  consider "sint data_len > MAX_LENGTH" | "sint data_len < - 1" | "sint data_len = - 1"
    | "0 \<le> sint data_len" "sint data_len \<le> MAX_LENGTH"
    by linarith
  then show ?thesis
  proof cases
    case 1
    then have "v2_spec (v2_abs s0) xs = (Refused, [])"
      using spec by - (rule prun_halts_early [where k = k], auto simp: dec head_done_def)
    moreover have "v2_parse_head P s d n copy_len = ([Clear_Session (uuid s0)], Return s)"
      using 1 by (simp add: v2_parse_head_def rd u)
    ultimately show ?thesis using s q by (auto intro: v2_iter_refused simp: xs_def)
  next
    case 2
    then have "v2_spec (v2_abs s0) xs = (Crashed Bad_Array_New_Length, [])"
      using spec by - (rule prun_halts_early [where k = k], auto simp: dec head_done_def)
    moreover have "v2_parse_head P s d n copy_len = ([], Raise Bad_Array_New_Length s)"
      using 2 by (simp add: v2_parse_head_def rd v2_MsgNode_def new_array_def)
    ultimately show ?thesis using s q by (auto intro: v2_iter_crashed simp: xs_def)
  next
    case 3
    have "v2_spec (v2_abs s0) (take k xs) = (Body () (- 1) [], [])"
      using 3 spec by (simp add: dec head_done_def)
    then show ?thesis by (rule v2_start_negative_ok [OF 3 hd s at [unfolded xs_def] _ rd, folded xs_def])
  next
    case 4
    define t where "t = nat (sint data_len)"
    have t: "sint data_len = int t" "t \<le> 2048" using 4 by (simp_all add: t_def)
    have "v2_spec (v2_abs s0) (take k xs) = (if t = 0 then (Head [], [((), [])]) else (Body () (int t) [], []))"
      using 4 spec by (simp add: dec head_done_def t_def)
    note body = t hd s at [unfolded xs_def] _ this [unfolded xs_def] rd
    show ?thesis
    proof (cases "unat n < t")
      case True
      then show ?thesis by (rule v2_start_body_short [OF body])
    next
      case False
      then show ?thesis by (intro v2_start_body_full [OF body P]) simp
    qed
  qed
qed

lemma v2_head_view:
  assumes "v2_inv s" "\<not> b_head_parse s"
  obtains c where "sint (cur_len (recv_head_node s)) = int c" "total_len (recv_head_node s) = 2"
    "length (node_data (recv_head_node s)) = 3" "c < 2" "v2_abs s = Head (node_text (recv_head_node s))"
    "node_text (recv_head_node s) = take c (node_data (recv_head_node s))"
  using that [of "nat (sint (cur_len (recv_head_node s)))"] assms
  by (auto simp: v2_inv_def v2_head_ok_def v2_abs_def node_text_def)

lemma v2_on_head_short:
  fixes s n copy_len
  defines "xs \<equiv> pending (data_buf s) n copy_len"
  assumes inv: "v2_inv s" "\<not> b_head_parse s" and at: "cursor (data_buf s) xs 0 n copy_len"
    and short: "n + size_of_int (sint (cur_len (recv_head_node s))) < size_of_int HEAD_LENGTH"
  shows "v2_iter_ok s n copy_len (v2_on_head P s n copy_len)"
proof -
  define head where "head = recv_head_node s"
  obtain c where hd: "sint (cur_len head) = int c" "total_len head = 2" "length (node_data head) = 3" "c < 2"
    and abs: "v2_abs s = Head (node_text head)" and ntext: "node_text head = take c (node_data head)"
    using v2_head_view [OF inv] by (metis head_def)
  note lx = cursor_length [OF at, simplified]
  have "n + size_of_int (int c) < size_of_int HEAD_LENGTH \<longleftrightarrow> unat n + c < 2"
    using hd lx by (subst size_add_less_iff) auto
  then have fits: "unat n + c < 2" using short hd by (simp add: head_def [symmetric])
  define head1 where "head1 = head\<lparr>node_data := take c (node_data head) @ xs @ drop (c + unat n) (node_data head),
      cur_len := cur_len head + ucast n\<rparr>"
  define s1 where "s1 = clear_data (s\<lparr>recv_head_node := head1\<rparr>)"
  have cur: "sint (cur_len head + ucast n) = int (c + unat n)" using hd fits by (intro sint_add_ucast) auto
  then have ntext1: "node_text head1 = node_text head @ xs" using hd lx by (simp add: head1_def node_text_append)
  have "memcpy (node_data head) (int c) (data_buf s) copy_len n =
      Inr (take c (node_data head) @ xs @ drop (c + unat n) (node_data head))"
    using fits hd lx cursor_copy [OF at order_refl, of c "node_data head"] by simp
  then have "v2_on_head P s n copy_len = ([Async_Read], Return s1)"
    using short hd(1) by (simp add: v2_on_head_def Let_def head_def [symmetric] head1_def s1_def)
  moreover have "v2_inv s1" "v2_abs s1 = Head (node_text head @ xs)"
    using inv hd fits cur lx ntext1
    by (simp_all add: v2_inv_def s1_def clear_data_def v2_head_ok_def head1_def v2_abs_def)
  moreover have "v2_spec (v2_abs s) xs = (Head (node_text head @ xs), [])"
    using fits hd lx by (simp add: abs prun_head_short ntext)
  moreover have "same_id s s1" "v2_queue s1 = v2_queue s"
    by (simp_all add: s1_def) (simp_all add: same_id_def v2_queue_def)
  ultimately show ?thesis by (auto intro: v2_iter_waiting simp: xs_def)
qed

lemma v2_on_head_full:
  fixes s n copy_len
  defines "xs \<equiv> pending (data_buf s) n copy_len"
  assumes P: "network_order P" and inv: "v2_inv s" "\<not> b_head_parse s" and at: "cursor (data_buf s) xs 0 n copy_len"
    and full: "\<not> n + size_of_int (sint (cur_len (recv_head_node s))) < size_of_int HEAD_LENGTH"
  shows "v2_iter_ok s n copy_len (v2_on_head P s n copy_len)"
proof -
  define head where "head = recv_head_node s"
  obtain c where hd: "sint (cur_len head) = int c" "total_len head = 2" "length (node_data head) = 3" "c < 2"
    and abs: "v2_abs s = Head (node_text head)" and ntext: "node_text head = take c (node_data head)"
    using v2_head_view [OF inv] by (metis head_def)
  note lx = cursor_length [OF at, simplified]
  have "n + size_of_int (int c) < size_of_int HEAD_LENGTH \<longleftrightarrow> unat n + c < 2"
    using hd lx by (subst size_add_less_iff) auto
  then have enough: "2 \<le> unat n + c" using full hd by (simp add: head_def [symmetric])
  define k where "k = 2 - c"
  have k: "2 - int c = int k" "0 < k" "k \<le> unat n" "c + k = 2" "k \<le> 2048"
    using enough hd by (simp_all add: k_def)
  then have u: "unat (size_of_int (int k)) = k" by (intro unat_size_small)
  define d where "d = take c (node_data head) @ take k xs @ drop (c + k) (node_data head)"
  define s1 where "s1 = s\<lparr>recv_head_node := head\<lparr>node_data := d\<rparr>\<rparr>"
  have ld: "length d = 3" using hd k lx by (simp add: d_def)
  have "memcpy (node_data head) (int c) (data_buf s) copy_len (size_of_int (int k)) = Inr d"
    using k u hd cursor_copy [OF at, of "size_of_int (int k)" c "node_data head"] by (simp add: d_def)
  then have "v2_on_head P s n copy_len = v2_parse_head P s1 d (n - size_of_int (int k)) (copy_len + int k)"
    using full hd(1) k(1) by (simp add: v2_on_head_def Let_def head_def [symmetric] s1_def)
  moreover have "v2_iter_ok s n copy_len (v2_parse_head P s1 d (n - size_of_int (int k)) (copy_len + int k))"
  proof (rule v2_parse_head_ok [OF P, where k = k])
    show "cursor (data_buf s1) (pending (data_buf s) n copy_len) k (n - size_of_int (int k)) (copy_len + int k)"
      using cursor_advance [OF at k(3)] by (simp add: xs_def s1_def)
    have "take 2 d = node_text head @ take k xs" using hd k lx by (simp add: d_def ntext k_def [symmetric])
    moreover have "v2_spec (v2_abs s) (take k xs) = head_done v2_dec (node_text head @ take k xs)"
      using k hd lx unfolding abs by (intro prun_head_full) (auto simp: ntext)
    ultimately show "v2_spec (v2_abs s) (take k (pending (data_buf s) n copy_len)) = head_done v2_dec (take 2 d)"
      by (simp add: xs_def)
  qed (use hd ld in \<open>simp_all add: s1_def same_id_def v2_head_ok_def\<close>)
  ultimately show ?thesis by simp
qed

lemma v2_iteration_ok:
  assumes P: "network_order P" and inv: "v2_inv s" and n: "n \<noteq> 0"
    and at: "cursor (data_buf s) (pending (data_buf s) n copy_len) 0 n copy_len"
  shows "v2_iter_ok s n copy_len (v2_iteration P s n copy_len)"
proof (cases "b_head_parse s")
  case True
  with inv obtain nd where nd: "recv_msg_node s = Some nd" by (auto simp: v2_inv_def split: option.splits)
  show ?thesis
  proof (cases "sint (total_len nd) = - 1")
    case True
    then show ?thesis
      using nd \<open>b_head_parse s\<close> inv n at v2_on_body_negative [of s nd n copy_len P] by (simp add: v2_iteration_def cursor_def)
  next
    case False
    then show ?thesis
      using nd \<open>b_head_parse s\<close> v2_on_body_short [OF inv \<open>b_head_parse s\<close> nd False at]
        v2_on_body_full [OF P inv \<open>b_head_parse s\<close> nd False at] by (auto simp: v2_iteration_def)
  qed
next
  case False
  then show ?thesis
    using v2_on_head_short [OF inv False at] v2_on_head_full [OF P inv False at] by (auto simp: v2_iteration_def)
qed

section \<open>The loop\<close>

lemma v2_leaves_trans:
  "v2_leaves s' a q fin r \<Longrightarrow> same_id s s' \<Longrightarrow> v2_leaves s a q fin r"
  by (cases a) (auto simp: v2_leaves_def same_id_def)

lemma v2_ends_deliver:
  assumes "v2_ends s' (a, ms) es r" "same_id s s'" "v2_deliver m (v2_queue s, []) = (v2_queue s', ws)"
  shows "v2_ends s (a, m # ms) (map Async_Write ws @ es) r"
proof -
  obtain q ws' fin where f: "fold v2_deliver ms (v2_queue s', []) = (q, ws')"
    "es = map Async_Write ws' @ fin" "v2_leaves s' a q fin r"
    using assms(1) by (auto simp: v2_ends_def)
  then have "fold v2_deliver (m # ms) (v2_queue s, []) = (q, ws @ ws')"
    using fold_v2_deliver_shift [of ms "v2_queue s'" ws "[]"] assms(3) by simp
  then show ?thesis using f assms(2) v2_leaves_trans by (fastforce simp: v2_ends_def)
qed

lemma v2_read_loop_ok:
  assumes "network_order P" "v2_inv s" "n \<noteq> 0" "0 \<le> copy_len" "nat copy_len + unat n \<le> 2048"
    and "v2_read_loop P s n copy_len = (es, r)"
  shows "v2_ends s (v2_spec (v2_abs s) (pending (data_buf s) n copy_len)) es r"
  using assms
proof (induction P s n copy_len arbitrary: es r rule: v2_read_loop.induct)
  case (1 P s n copy_len)
  obtain es1 fl where it: "v2_iteration P s n copy_len = (es1, fl)" by fastforce
  define xs where "xs = pending (data_buf s) n copy_len"
  have ok: "v2_iter_ok s n copy_len (es1, fl)"
    using v2_iteration_ok [OF "1.prems"(1-3) cursor_start, of copy_len] "1.prems"(2,4,5) by (simp add: it v2_inv_def)
  note unfold = "1.prems"(6) [unfolded v2_read_loop.simps [of P s n copy_len] it]
  show ?case
  proof (cases fl)
    case (Return s')
    with unfold ok "1.prems"(3) show ?thesis by (simp add: v2_iter_ok_def)
  next
    case (Raise f s')
    with unfold ok "1.prems"(3) show ?thesis by (simp add: v2_iter_ok_def)
  next
    case (Continue s' n' copy_len')
    then obtain k m ws where c: "v2_deliver m (v2_queue s, []) = (v2_queue s', ws)"
      "es1 = map Async_Write ws" "same_id s s'"
      "v2_spec (v2_abs s) (take k xs) = (Head [], [m])" "v2_inv s'" "v2_abs s' = Head []" "n' \<noteq> 0"
      "0 \<le> copy_len'" "nat copy_len' + unat n' \<le> 2048" "pending (data_buf s') n' copy_len' = drop k xs"
      using ok unfolding v2_iter_ok_def xs_def Let_def snd_conv fst_conv flow.case Continue cursor_def by blast
    obtain es' r' where loop: "v2_read_loop P s' n' copy_len' = (es', r')" by fastforce
    have "v2_ends s' (v2_spec (Head []) (drop k xs)) es' r'"
      using "1.IH" [OF "1.prems"(3) it [symmetric] Continue] c loop "1.prems"(1) by simp
    moreover obtain a ms where run: "v2_spec (Head []) (drop k xs) = (a, ms)" by fastforce
    ultimately have "v2_ends s (a, m # ms) (map Async_Write ws @ es') r'"
      using c(1,3) by (intro v2_ends_deliver) auto
    moreover have "v2_spec (v2_abs s) xs = (a, m # ms)"
      using prun_split [OF c(4) run] by simp
    moreover have "es = map Async_Write ws @ es'" "r = r'"
      using unfold Continue c(2) loop "1.prems"(3) by simp_all
    ultimately show ?thesis by (simp add: xs_def)
  qed
qed

end
