(* ===== verification/V2_Connection.thy ===== *)
theory V2_Connection
  imports V2_Receive Send_Queue
begin

text \<open>
  Connections of the echo server. Its read handler meets the contract \<open>stream_reader\<close>, where taking
  a message means queueing its echo; \<open>Send\<close> and \<open>HandleWrite\<close> meet the contract \<open>write_queue\<close>.
\<close>

type_synonym v2_connection = "(msg_node, msg_node, unit) connection"

definition v2_open :: "string \<Rightarrow> byte list \<Rightarrow> fault + v2_connection" where
  "v2_open a_uuid junk =
     (case v2_CSession a_uuid junk of
        Inl f \<Rightarrow> Inl f
      | Inr s \<Rightarrow> (let (es, s1) = v2_Start s in Inr \<lparr>sess = s1, trace = es, state = Reading\<rparr>))"

definition v2_on_read :: "platform \<Rightarrow> v2_connection \<Rightarrow> byte list \<Rightarrow> v2_connection" where
  "v2_on_read P c chunk =
     (if state c \<noteq> Reading then c
      else after_read (trace c)
             (v2_HandleRead P False (word_of_nat (length chunk)) (fill_buffer chunk (sess c))))"

section \<open>The contract of the read handler\<close>

definition v2_conn_abs :: "v2_connection \<Rightarrow> unit pstate" where
  "v2_conn_abs c =
     (case state c of Reading \<Rightarrow> v2_abs (sess c) | Idle \<Rightarrow> Refused | Faulted f \<Rightarrow> Crashed f)"

definition v2_conn_inv :: "string \<Rightarrow> v2_connection \<Rightarrow> bool" where
  "v2_conn_inv u c \<longleftrightarrow> uuid (sess c) = u \<and> (state c = Reading \<longrightarrow> v2_inv (sess c))"

text \<open>The frames queued and the writes started.\<close>

definition v2_sent :: "v2_connection \<Rightarrow> v2_sender" where
  "v2_sent c = (v2_queue (sess c), written (trace c))"

lemma v2_fill_buffer_simps [simp]:
  "v2_abs (fill_buffer chunk s) = v2_abs s" "uuid (fill_buffer chunk s) = uuid s"
  "v2_queue (fill_buffer chunk s) = v2_queue s"
  by (simp_all add: fill_buffer_def v2_abs_def v2_queue_def)

lemma v2_inv_fill_buffer: "chunk_ok chunk \<Longrightarrow> v2_inv s \<Longrightarrow> v2_inv (fill_buffer chunk s)"
  by (simp add: v2_inv_def fill_buffer_def chunk_ok_def)

lemma written_map_Async_Write [simp]: "written (map Async_Write ws) = ws"
  by (induction ws) auto

lemma v2_HandleRead_ok:
  assumes P: "network_order P" and inv: "v2_inv s" and c: "chunk_ok chunk"
    and run: "v2_HandleRead P False (word_of_nat (length chunk)) (fill_buffer chunk s) = (es, r)"
  obtains trc es' where "es = Print trc # es'" "v2_ends (fill_buffer chunk s) (v2_spec (v2_abs s) chunk) es' r"
proof -
  let ?n = "word_of_nat (length chunk) :: size_t" and ?s = "fill_buffer chunk s"
  obtain es' r' where loop: "v2_read_loop P ?s ?n 0 = (es', r')" by fastforce
  have buf: "length (data_buf ?s) = 2048" using inv c by (simp add: v2_inv_def fill_buffer_def chunk_ok_def)
  have "length chunk \<le> 2048" using c by (simp add: chunk_ok_def)
  then have "\<exists>trc. es = Print trc # es' \<and> r = r'"
    using run loop buf by (auto simp: v2_HandleRead_def chunk_trace_length [OF c] v2_PrintRecvData_def)
  moreover have "v2_ends ?s (v2_spec (v2_abs ?s) (pending (data_buf ?s) ?n 0)) es' r'"
    using P v2_inv_fill_buffer [OF c inv] chunk_count [OF c] \<open>length chunk \<le> 2048\<close> loop
    by (intro v2_read_loop_ok) auto
  ultimately show ?thesis
    using that c inv by (auto simp: pending_fill_buffer v2_inv_def)
qed

lemma v2_stream_reader:
  assumes P: "network_order P"
  shows "stream_reader 2 v2_dec (v2_conn_inv u) chunk_ok v2_conn_abs v2_sent v2_deliver (v2_on_read P)"
proof
  fix c chunk a ms
  assume inv: "v2_conn_inv u c" and ck: "chunk_ok chunk"
    and spec: "prun 2 v2_dec (v2_conn_abs c) chunk = (a, ms)"
  show "v2_conn_inv u (v2_on_read P c chunk) \<and> v2_conn_abs (v2_on_read P c chunk) = a \<and>
      v2_sent (v2_on_read P c chunk) = fold v2_deliver ms (v2_sent c)"
  proof (cases "state c = Reading")
    case False
    then have "\<not> running (v2_conn_abs c)" by (cases "state c") (simp_all add: v2_conn_abs_def)
    then have "a = v2_conn_abs c" "ms = []" using spec by (simp_all add: prun_halted)
    with False inv show ?thesis by (simp add: v2_on_read_def)
  next
    case True
    then have s: "v2_inv (sess c)" "uuid (sess c) = u" and sp: "v2_spec (v2_abs (sess c)) chunk = (a, ms)"
      using inv spec by (simp_all add: v2_conn_inv_def v2_conn_abs_def)
    obtain es r where run: "v2_HandleRead P False (word_of_nat (length chunk)) (fill_buffer chunk (sess c)) = (es, r)"
      by fastforce
    obtain trc es' where "es = Print trc # es'"
      and ends: "v2_ends (fill_buffer chunk (sess c)) (v2_spec (v2_abs (sess c)) chunk) es' r"
      using v2_HandleRead_ok [OF P s(1) ck run] .
    then obtain q ws fin where es: "es = Print trc # map Async_Write ws @ fin"
      and f: "fold v2_deliver ms (v2_queue (sess c), []) = (q, ws)"
      and leaves: "v2_leaves (fill_buffer chunk (sess c)) a q fin r"
      by (auto simp: v2_ends_def sp)
    have fold: "fold v2_deliver ms (v2_sent c) = (q, written (trace c) @ ws)"
      using fold_v2_deliver_shift [of ms "v2_queue (sess c)" "written (trace c)" "[]"] f
      by (simp add: v2_sent_def)
    have step: "v2_on_read P c chunk = after_read (trace c) (es, r)"
      using True run by (simp add: v2_on_read_def)
    show ?thesis
      using leaves s(2)
      by (cases a) (auto simp: step es v2_leaves_def v2_conn_inv_def v2_conn_abs_def v2_sent_def [of "after_read _ _"]
          fold same_id_def image_iff)
  qed
qed

interpretation v2_x86: stream_reader 2 v2_dec "v2_conn_inv u" chunk_ok v2_conn_abs v2_sent
  v2_deliver "v2_on_read x86_host" for u
  by (rule v2_stream_reader) (rule x86.network_order_axioms)

lemma v2_open_ok:
  "\<exists>c. v2_open u junk = Inr c \<and> v2_conn_inv u c \<and> v2_conn_abs c = Head [] \<and> v2_sent c = ([], []) \<and>
     state c = Reading"
proof -
  have two: "sint (short_of_int HEAD_LENGTH) = 2" by (simp add: sint_short_of_int)
  then have "short_of_int HEAD_LENGTH = 2" by (simp add: short_of_int_def)
  with two show ?thesis
    by (simp add: v2_open_def v2_CSession_def v2_MsgNode_ok v2_Start_def v2_conn_inv_def v2_inv_def v2_head_ok_def
        clear_data_def v2_conn_abs_def v2_abs_def node_text_def v2_sent_def v2_queue_def)
qed

section \<open>Whole connections\<close>

text \<open>What a client has to send: the body's length in network order, then the body.\<close>

definition v2_request :: "byte list \<Rightarrow> byte list" where
  "v2_request body =
     [high_byte (short_of_int (int (length body))), low_byte (short_of_int (int (length body)))] @ body"

lemma v2_dec_request:
  "length body \<le> 2048 \<Longrightarrow> v2_dec (take 2 (v2_request body)) = Expect () (int (length body))"
  by (simp add: v2_dec_def v2_request_def sint_short_of_int)

lemma v2_request_split: "v2_request body = take 2 (v2_request body) @ body"
  by (simp add: v2_request_def)

text \<open>Until the queue is full every message is queued; a write is started if none was outstanding.\<close>

lemma fold_v2_deliver:
  "length q + length bodies \<le> Suc MAX_SENDQUEUE \<Longrightarrow>
     fold v2_deliver (map (Pair ()) bodies) (q, ws) =
       (q @ map v2_frame bodies, if q = [] then ws @ map v2_frame (take 1 bodies) else ws)"
proof (induction bodies arbitrary: q ws)
  case (Cons body bodies)
  then show ?case by (cases "q = []") simp_all
qed simp

lemma v2_run_requests:
  assumes "\<forall>body\<in>set bodies. length body \<le> 2048"
  shows "v2_spec (Head []) (concat (map v2_request bodies)) = (Head [], map (Pair ()) bodies)"
proof -
  have "v2_spec (Head []) (concat (map (\<lambda>m. take 2 (v2_request (snd m)) @ snd m) (map (Pair ()) bodies))) =
      (Head [], map (Pair ()) bodies)"
    using assms v2_dec_request by (intro prun_frames) (auto simp: v2_request_def)
  then show ?thesis by (simp add: o_def v2_request_split [symmetric])
qed

lemma v2_status: "v2_conn_inv u c \<Longrightarrow> state c = status_of (v2_conn_abs c)"
  by (auto simp: v2_conn_inv_def v2_conn_abs_def v2_inv_def v2_abs_def split: status.splits option.splits)

lemma v2_open_reads:
  assumes P: "network_order P" and cs: "\<forall>chunk\<in>set cs. chunk_ok chunk"
    and run: "v2_spec (Head []) (concat cs) = (a, ms)"
  obtains c where "v2_open u junk = Inr c"
    and "v2_conn_abs (foldl (v2_on_read P) c cs) = a" and "state (foldl (v2_on_read P) c cs) = status_of a"
    and "v2_sent (foldl (v2_on_read P) c cs) = fold v2_deliver ms ([], [])"
proof -
  obtain c where c: "v2_open u junk = Inr c" "v2_conn_inv u c" "v2_conn_abs c = Head []" "v2_sent c = ([], [])"
    using v2_open_ok by blast
  have "v2_conn_inv u (foldl (v2_on_read P) c cs) \<and> v2_conn_abs (foldl (v2_on_read P) c cs) = a \<and>
      v2_sent (foldl (v2_on_read P) c cs) = fold v2_deliver ms (v2_sent c)"
    using run c(3) by (intro stream_reader.reads_refine [OF v2_stream_reader [OF P] c(2) cs]) simp
  with that [OF c(1)] v2_status [of u "foldl (v2_on_read P) c cs"] c(4) show ?thesis by simp
qed

section \<open>The contract of the send queue\<close>

text \<open>A call of \<open>Send\<close>: the block pointed into and \<open>max_length\<close>.\<close>

definition v2_call :: "platform \<Rightarrow> byte list \<times> nat \<Rightarrow> v2_session \<Rightarrow> v2_effect list \<times> v2_session outcome" where
  "v2_call P a s = v2_Send P (fst a) (int (snd a)) s"

definition v2_call_ok :: "byte list \<times> nat \<Rightarrow> bool" where
  "v2_call_ok a \<longleftrightarrow> snd a \<le> 32764 \<and> snd a \<le> length (fst a)"

definition v2_call_frame :: "byte list \<times> nat \<Rightarrow> byte list" where
  "v2_call_frame a = v2_frame (take (snd a) (fst a))"

definition v2_send_inv :: "v2_session \<Rightarrow> bool" where
  "v2_send_inv s \<longleftrightarrow> (\<forall>nd\<in>set (send_que s). node_buffer nd = Inr (node_wire nd))"

lemma v2_write_queue:
  assumes P: "network_order P"
  shows "write_queue (v2_call P) v2_HandleWrite v2_queue v2_send_inv v2_call_ok v2_call_frame MAX_SENDQUEUE"
proof
  fix s a
  assume inv: "v2_send_inv s" and ok: "v2_call_ok a"
  obtain msg n where a: "a = (msg, n)" by (cases a)
  note send = v2_Send_echo [OF P, of n msg s]
  have n: "n \<le> 32764" "n \<le> length msg" using ok by (simp_all add: a v2_call_ok_def)
  have nd: "node_buffer (v2_node (take n msg)) = Inr (v2_frame (take n msg))"
    using n by (intro v2_node_buffer) simp
  then have wire: "node_wire (v2_node (take n msg)) = v2_frame (take n msg)" by (simp add: node_wire_def)
  show "MAX_SENDQUEUE < length (v2_queue s) \<Longrightarrow> v2_call P a s = ([], Returned s)"
    using send n by (simp add: a v2_call_def v2_queue_def)
  show "length (v2_queue s) \<le> MAX_SENDQUEUE \<Longrightarrow> \<exists>es s'. v2_call P a s = (es, Returned s') \<and>
      v2_send_inv s' \<and> v2_queue s' = v2_queue s @ [v2_call_frame a] \<and>
      written es = (if v2_queue s = [] then [v2_call_frame a] else [])"
    using inv send n nd wire by (auto simp: a v2_call_def v2_queue_def v2_send_inv_def v2_call_frame_def)
next
  fix s f fs
  assume inv: "v2_send_inv s" and q: "v2_queue s = f # fs"
  then obtain nd nds where "send_que s = nd # nds" "fs = map node_wire nds"
    by (auto simp: v2_queue_def)
  with inv show "\<exists>es s'. v2_HandleWrite False s = (es, Returned s') \<and> v2_send_inv s' \<and>
      v2_queue s' = fs \<and> written es = take 1 fs"
    by (cases nds) (auto simp: v2_HandleWrite_def v2_write_front_def v2_queue_def v2_send_inv_def)
next
  fix s
  assume "v2_send_inv s"
  then show "\<exists>es s'. v2_HandleWrite True s = (es, Returned s') \<and> v2_send_inv s' \<and>
      v2_queue s' = v2_queue s \<and> written es = []"
    by (auto simp: v2_HandleWrite_def v2_Close_def v2_queue_def v2_send_inv_def)
qed

interpretation v2_out: write_queue "v2_call x86_host" v2_HandleWrite v2_queue v2_send_inv v2_call_ok
  v2_call_frame MAX_SENDQUEUE
  by (rule v2_write_queue) (rule x86.network_order_axioms)

end
