(* ===== verification/Endpoints.thy ===== *)
theory Endpoints
  imports Endpoint Mt_Connection V2_Connection
begin

text \<open>
  The sessions of the three servers meet \<open>session_contract\<close>: an endpoint of each is defined over its own
  methods, from the session's construction on, and the contract is interpreted on it.
\<close>

section \<open>Server-version-3\<close>

type_synonym v3_endpoint = "(v3_session, logic_node) endpoint"

definition v3_rd :: "platform \<Rightarrow> byte list \<Rightarrow> v3_session \<Rightarrow> v3_effect list \<times> v3_session outcome" where
  "v3_rd P chunk s = v3_HandleRead P False (word_of_nat (length chunk)) (fill_buffer chunk s)"

definition v3_event :: "platform \<Rightarrow> v3_endpoint \<Rightarrow> net_event \<Rightarrow> v3_endpoint" where
  "v3_event P = ep_event (v3_rd P) (v3_HandleRead P True 0) v3_HandleWrite"

definition v3_accepted :: "string \<Rightarrow> byte list \<Rightarrow> fault + v3_endpoint" where
  "v3_accepted a_uuid junk =
     (case v3_CSession a_uuid junk of
        Inl f \<Rightarrow> Inl f
      | Inr s \<Rightarrow> (let (es, s1) = v3_Start s in Inr (finish_call (fresh_endpoint s) (es, Returned s1))))"

lemma v3_inv_running: "v3_inv s \<Longrightarrow> running (v3_abs s)"
  by (auto simp: v3_inv_def v3_abs_def split: option.splits)

lemma v3_write_front_only: "v3_write_front s = (es, Returned s') \<Longrightarrow> s' = s \<and> (\<exists>bs. es = [Async_Write bs])"
  by (auto simp: v3_write_front_def split: list.splits sum.splits)

lemma v3_inv_send_que [simp]:
  "v3_inv (s\<lparr>send_que := q\<rparr>) = v3_inv s" "v3_abs (s\<lparr>send_que := q\<rparr>) = v3_abs s"
  "v3_inv (s\<lparr>b_close := b\<rparr>) = v3_inv s" "v3_abs (s\<lparr>b_close := b\<rparr>) = v3_abs s"
  by (simp_all add: v3_inv_def v3_abs_def)

text \<open>Neither \<open>Send\<close> nor \<open>HandleWrite\<close> touches the receiving side.\<close>

definition v3_write_only :: "v3_session \<Rightarrow> v3_session \<Rightarrow> bool" where
  "v3_write_only s s' \<longleftrightarrow> uuid s' = uuid s \<and> v3_inv s' = v3_inv s \<and> v3_abs s' = v3_abs s"

lemma v3_write_only_simps [simp]:
  "v3_write_only s s" "v3_write_only s (s\<lparr>send_que := q\<rparr>)" "v3_write_only s (s\<lparr>b_close := b\<rparr>)"
  by (simp_all add: v3_write_only_def)

lemma v3_Send_only:
  "v3_Send P a s = (es, Returned s') \<Longrightarrow> v3_write_only s s' \<and> reads es = 0 \<and> \<not> clears es \<and> posted es = []"
  by (cases a) (auto simp: v3_Send_chars_def v3_Send_string_def Let_def dest: v3_write_front_only
      split: if_splits sum.splits)

lemma v3_HandleWrite_only:
  "v3_HandleWrite error s = (es, Returned s') \<Longrightarrow>
     v3_write_only s s' \<and> reads es = 0 \<and> (clears es \<longleftrightarrow> error) \<and> posted es = []"
  by (auto simp: v3_HandleWrite_def v3_Close_def Let_def dest: v3_write_front_only split: if_splits list.splits)

lemma v3_read_error:
  "v3_HandleRead P True n s = ([Socket_Close, Clear_Session (uuid s)], Returned (s\<lparr>b_close := True\<rparr>))"
  by (simp add: v3_HandleRead_def v3_Close_def)

lemma v3_session_contract:
  assumes P: "network_order P"
  shows "session_contract (v3_Send P) v3_HandleWrite v3_queue v3_send_inv call_ok call_frame MAX_SENDQUEUE
    (v3_rd P) (v3_HandleRead P True 0) 4 v3_dec v3_abs (\<lambda>s. uuid s = u \<and> v3_inv s) (\<lambda>_. True) (\<lambda>_. [])
    (\<lambda>m. [(u, m)]) ln_view"
proof (intro session_contract.intro v3_write_queue [OF P], unfold_locales)
  fix s chunk b ms
  assume w: "v3_send_inv s" and s: "uuid s = u \<and> v3_inv s" and ck: "chunk_ok chunk"
    and run: "v3_spec (v3_abs s) chunk = (b, ms)"
  obtain es r where rd: "v3_rd P chunk s = (es, r)" by fastforce
  obtain trc es' where "es = Print trc # es'" "v3_ends (fill_buffer chunk s) (v3_spec (v3_abs s) chunk) es' r"
    using v3_HandleRead_ok [OF P _ ck rd [unfolded v3_rd_def]] s by blast
  then obtain ps fin where es: "es = Print trc # map Post ps @ fin" and ps: "map ln_view ps = map (Pair u) ms"
    and leaves: "v3_leaves (fill_buffer chunk s) b fin r"
    using s by (auto simp: v3_ends_def run)
  have q: "same_sender (fill_buffer chunk s) s' \<Longrightarrow> v3_send_inv s' \<and> v3_queue s' = v3_queue s \<and> uuid s' = u" for s'
    using w s by (simp add: same_sender_def v3_send_inv_def v3_queue_def fill_buffer_def)
  have echo: "concat (map (\<lambda>_. [] :: byte list list) ms) = []" by simp
  show "\<exists>es s'. v3_rd P chunk s = (es, ends_as (crash (\<lambda>_. True) b) s') \<and>
      (running b \<longrightarrow> (uuid s' = u \<and> v3_inv s') \<and> v3_abs s' = b) \<and>
      reads es = (if running b then 1 else 0) \<and> (clears es \<longleftrightarrow> b = Refused) \<and>
      map ln_view (posted es) = concat (map (\<lambda>m. [(u, m)]) ms) \<and>
      (crash (\<lambda>_. True) b = None \<longrightarrow> v3_send_inv s' \<and>
        (v3_queue s', written es) = fold (submit MAX_SENDQUEUE) (concat (map (\<lambda>_. []) ms)) (v3_queue s, []))"
  proof -
    have "\<exists>s'. r = ends_as (crash (\<lambda>_. True) b) s' \<and> same_sender (fill_buffer chunk s) s' \<and>
        (running b \<longrightarrow> v3_inv s' \<and> v3_abs s' = b) \<and>
        fin = (if running b then [Async_Read] else if b = Refused then [Clear_Session u] else [])"
      using leaves s by (cases b) (simp_all add: v3_leaves_def)
    then obtain s' where s': "r = ends_as (crash (\<lambda>_. True) b) s'" "same_sender (fill_buffer chunk s) s'"
      "running b \<longrightarrow> v3_inv s' \<and> v3_abs s' = b"
      "fin = (if running b then [Async_Read] else if b = Refused then [Clear_Session u] else [])"
      by blast
    have "\<not> running Refused" by simp
    with s' q [OF s'(2)] ps show ?thesis
      unfolding rd echo by (intro exI [of _ es] exI [of _ s']) (auto simp: es)
  qed
next
  fix s
  assume "v3_send_inv s"
  then show "\<exists>es s'. v3_HandleRead P True 0 s = (es, Returned s') \<and> v3_send_inv s' \<and> v3_queue s' = v3_queue s \<and>
      reads es = 0 \<and> clears es \<and> posted es = [] \<and> written es = []"
    by (simp add: v3_read_error v3_send_inv_def v3_queue_def)
qed (drule v3_Send_only v3_HandleWrite_only, simp add: v3_write_only_def)+

interpretation v3_ep: session_contract "v3_Send x86_host" v3_HandleWrite v3_queue v3_send_inv call_ok call_frame
  MAX_SENDQUEUE "v3_rd x86_host" "v3_HandleRead x86_host True 0" 4 v3_dec v3_abs "\<lambda>s. uuid s = u \<and> v3_inv s"
  "\<lambda>_. True" "\<lambda>_. []" "\<lambda>m. [(u, m)]" ln_view for u
  by (rule v3_session_contract) (rule x86.network_order_axioms)

text \<open>The messages in the bytes received, and all frames accepted for the client.\<close>

definition v3_messages :: "v3_endpoint \<Rightarrow> (short \<times> byte list) list" where
  "v3_messages ep = snd (v3_spec (Head []) (received ep))"

definition v3_backlog :: "v3_endpoint \<Rightarrow> byte list list" where
  "v3_backlog ep = on_tcp ep @ v3_queue (ep_sess ep)"

lemma v3_ep_views: "v3_ep.messages_of = v3_messages" "v3_ep.backlog = v3_backlog"
  by (simp_all add: fun_eq_iff v3_ep.messages_of_def v3_messages_def v3_ep.backlog_def v3_backlog_def)

abbreviation v3_ep_ok :: "string \<Rightarrow> v3_endpoint \<Rightarrow> bool" where
  "v3_ep_ok \<equiv> v3_ep.ep_ok"

lemma v3_accepted_ok:
  "\<exists>ep. v3_accepted u junk = Inr ep \<and> v3_ep_ok u ep \<and> received ep = [] \<and> on_tcp ep = [] \<and> inbox ep = [] \<and>
     v3_queue (ep_sess ep) = [] \<and> \<not> cleared ep \<and> ended ep = None"
proof -
  have four: "sint (short_of_int HEAD_TOTAL_LEN) = 4" by (simp add: sint_short_of_int)
  then have "short_of_int HEAD_TOTAL_LEN = 4" by (simp add: short_of_int_def)
  with four have "v3_accepted u junk = Inr \<lparr>ep_sess = \<lparr>uuid = u, data_buf = replicate 2048 0, b_close = False,
      send_que = [], recv_msg_node = None, b_head_parse = False,
      recv_head_node = \<lparr>cur_len = 0, total_len = 4, node_data = replicate 5 0\<rparr>\<rparr>,
      read_pending = True, write_pending = None, received = [], on_tcp = [], inbox = [], socket_open = True,
      cleared = False, clear_calls = 0, overlapping = False, ended = None\<rparr>"
    by (simp add: v3_accepted_def v3_CSession_def v3_MsgNode_ok v3_Start_def fresh_endpoint_def clear_data_def)
  then show ?thesis
    by (simp add: v3_ep.ep_ok_def [of u]) (simp add: v3_ep.stream_of_def v3_ep.messages_of_def v3_inv_def head_ok_def
        v3_abs_def node_text_def v3_send_inv_def v3_queue_def)
qed

section \<open>The multi-threaded server\<close>

definition mt_rd :: "platform \<Rightarrow> byte list \<Rightarrow> v3_session \<Rightarrow> v3_effect list \<times> v3_session outcome" where
  "mt_rd P chunk s = mt_HandleRead P False (word_of_nat (length chunk)) (fill_buffer chunk s)"

definition mt_event :: "platform \<Rightarrow> v3_endpoint \<Rightarrow> net_event \<Rightarrow> v3_endpoint" where
  "mt_event P = ep_event (mt_rd P) (mt_HandleRead P True 0) mt_HandleWrite"

definition mt_accepted :: "string \<Rightarrow> byte list \<Rightarrow> fault + v3_endpoint" where
  "mt_accepted a_uuid junk =
     (case mt_CSession a_uuid junk of
        Inl f \<Rightarrow> Inl f
      | Inr s \<Rightarrow> (let (es, s1) = mt_Start s in Inr (finish_call (fresh_endpoint s) (es, Returned s1))))"

lemma mt_accepted_eq: "mt_accepted u junk = v3_accepted u junk"
  unfolding mt_accepted_def v3_accepted_def mt_open_eq ..

lemma mt_HandleWrite_only:
  assumes "mt_HandleWrite error s = (es, Returned s')"
  shows "v3_write_only s s' \<and> reads es = 0 \<and> (clears es \<longleftrightarrow> error) \<and> posted es = []"
  using assms v3_HandleWrite_only [of error s es s']
  by (auto simp: mt_HandleWrite_eq v3_HandleWrite_def v3_Close_def v3_write_front_def Let_def
      split: if_splits list.splits sum.splits)

lemma mt_Send_only:
  "mt_Send P a s = (es, Returned s') \<Longrightarrow> v3_write_only s s' \<and> reads es = 0 \<and> \<not> clears es \<and> posted es = []"
  unfolding mt_Send_as by (rule v3_Send_only)

lemma mt_read_error:
  "mt_HandleRead P True n s = ([Socket_Close, Clear_Session (uuid s)], Returned (s\<lparr>b_close := True\<rparr>))"
  by (simp add: mt_HandleRead_def mt_Close_def)

text \<open>
  The handlers catch exceptions: a header that makes the node's constructor throw ends the connection's
  reading without a trace, and only undefined behaviour is fatal.
\<close>

definition mt_fatal :: "fault \<Rightarrow> bool" where
  "mt_fatal f \<longleftrightarrow> \<not> is_exception f"

lemma mt_session_contract:
  assumes P: "network_order P"
  shows "session_contract (mt_Send P) mt_HandleWrite v3_queue v3_send_inv (\<lambda>a. call_ok (as_send_call a))
    (\<lambda>a. call_frame (as_send_call a)) MAX_SENDQUEUE
    (mt_rd P) (mt_HandleRead P True 0) 4 v3_dec v3_abs (\<lambda>s. uuid s = u \<and> v3_inv s) mt_fatal (\<lambda>_. [])
    (\<lambda>m. [(u, m)]) ln_view"
proof (intro session_contract.intro mt_write_queue [OF P], unfold_locales)
  fix s chunk b ms
  assume w: "v3_send_inv s" and s: "uuid s = u \<and> v3_inv s" and ck: "chunk_ok chunk"
    and run: "v3_spec (v3_abs s) chunk = (b, ms)"
  obtain es r where rd: "v3_rd P chunk s = (es, r)" by fastforce
  obtain trc es' where pr: "es = Print trc # es'" and
    "v3_ends (fill_buffer chunk s) (v3_spec (v3_abs s) chunk) es' r"
    using v3_HandleRead_ok [OF P _ ck rd [unfolded v3_rd_def]] s by blast
  then obtain ps fin where es: "es' = map Post ps @ fin" and ps: "map ln_view ps = map (Pair u) ms"
    and leaves: "v3_leaves (fill_buffer chunk s) b fin r"
    using s by (auto simp: v3_ends_def run)
  have "mt_rd P chunk s = caught_outcome (es', r)"
    using rd pr unfolding mt_rd_def mt_HandleRead_False v3_rd_def v3_HandleRead_def
    by (auto split: sum.splits prod.splits)
  moreover have "\<exists>s'. caught_outcome (es', r) = (es', ends_as (crash mt_fatal b) s') \<and>
      same_sender (fill_buffer chunk s) s' \<and> (running b \<longrightarrow> v3_inv s' \<and> v3_abs s' = b) \<and>
      fin = (if running b then [Async_Read] else if b = Refused then [Clear_Session u] else [])"
    using leaves s by (cases b) (auto simp: v3_leaves_def mt_fatal_def)
  ultimately obtain s' where s': "mt_rd P chunk s = (es', ends_as (crash mt_fatal b) s')"
    "same_sender (fill_buffer chunk s) s'" "running b \<longrightarrow> v3_inv s' \<and> v3_abs s' = b"
    "fin = (if running b then [Async_Read] else if b = Refused then [Clear_Session u] else [])"
    by metis
  have q: "v3_send_inv s' \<and> v3_queue s' = v3_queue s \<and> uuid s' = u"
    using w s s'(2) by (simp add: same_sender_def v3_send_inv_def v3_queue_def fill_buffer_def)
  have no_echo: "concat (map (\<lambda>_. [] :: byte list list) ms) = []" by simp
  have "\<not> running Refused" by simp
  with s' q ps show "\<exists>es s'. mt_rd P chunk s = (es, ends_as (crash mt_fatal b) s') \<and>
      (running b \<longrightarrow> (uuid s' = u \<and> v3_inv s') \<and> v3_abs s' = b) \<and>
      reads es = (if running b then 1 else 0) \<and> (clears es \<longleftrightarrow> b = Refused) \<and>
      map ln_view (posted es) = concat (map (\<lambda>m. [(u, m)]) ms) \<and>
      (crash mt_fatal b = None \<longrightarrow> v3_send_inv s' \<and>
        (v3_queue s', written es) = fold (submit MAX_SENDQUEUE) (concat (map (\<lambda>_. []) ms)) (v3_queue s, []))"
    unfolding no_echo by (intro exI [of _ es'] exI [of _ s']) (auto simp: es)
next
  fix s
  assume "v3_send_inv s"
  then show "\<exists>es s'. mt_HandleRead P True 0 s = (es, Returned s') \<and> v3_send_inv s' \<and> v3_queue s' = v3_queue s \<and>
      reads es = 0 \<and> clears es \<and> posted es = [] \<and> written es = []"
    by (simp add: mt_read_error v3_send_inv_def v3_queue_def)
qed (drule mt_Send_only mt_HandleWrite_only, simp add: v3_write_only_def)+

interpretation mt_ep: session_contract "mt_Send x86_host" mt_HandleWrite v3_queue v3_send_inv
  "\<lambda>a. call_ok (as_send_call a)" "\<lambda>a. call_frame (as_send_call a)" MAX_SENDQUEUE
  "mt_rd x86_host" "mt_HandleRead x86_host True 0" 4 v3_dec v3_abs "\<lambda>s. uuid s = u \<and> v3_inv s"
  mt_fatal "\<lambda>_. []" "\<lambda>m. [(u, m)]" ln_view for u
  by (rule mt_session_contract) (rule x86.network_order_axioms)

section \<open>The echo server\<close>

type_synonym v2_endpoint = "(v2_session, unit) endpoint"

definition v2_rd :: "platform \<Rightarrow> byte list \<Rightarrow> v2_session \<Rightarrow> v2_effect list \<times> v2_session outcome" where
  "v2_rd P chunk s = v2_HandleRead P False (word_of_nat (length chunk)) (fill_buffer chunk s)"

definition v2_event :: "platform \<Rightarrow> v2_endpoint \<Rightarrow> net_event \<Rightarrow> v2_endpoint" where
  "v2_event P = ep_event (v2_rd P) (v2_HandleRead P True 0) v2_HandleWrite"

definition v2_accepted :: "string \<Rightarrow> byte list \<Rightarrow> fault + v2_endpoint" where
  "v2_accepted a_uuid junk =
     (case v2_CSession a_uuid junk of
        Inl f \<Rightarrow> Inl f
      | Inr s \<Rightarrow> (let (es, s1) = v2_Start s in Inr (finish_call (fresh_endpoint s) (es, Returned s1))))"

text \<open>Every node the session queues has its frame in its block; the read loop keeps that.\<close>

lemma v2_MsgNode_msg_buffer:
  assumes "v2_MsgNode_msg P msg max_len = Inr nd"
  shows "node_buffer nd = Inr (node_wire nd)"
proof -
  define T where "T = short_of_int (sint max_len + HEAD_LENGTH)"
  from assms obtain d2 d3 where nd: "nd = \<lparr>cur_len = 0, total_len = T, node_data = d3\<rparr>"
    and w: "mem_write d2 (sint T) [0] = Inr d3"
    by (auto simp: v2_MsgNode_msg_def Let_def T_def split: sum.splits)
  from w have "0 \<le> sint T" "nat (sint T) < length d3"
    by (auto simp: mem_write_def split: if_splits)
  then show ?thesis
    using sint_short_bounds [of T] by (simp add: nd node_buffer_def node_wire_def mem_simps unat_size_of_int)
qed

fun flow_state :: "'s flow \<Rightarrow> 's" where
  "flow_state (Return s) = s"
| "flow_state (Raise f s) = s"
| "flow_state (Continue s n c) = s"

fun outcome_state :: "'s outcome \<Rightarrow> 's" where
  "outcome_state (Returned s) = s"
| "outcome_state (Raised f s) = s"

lemma v2_write_front_state [simp]: "outcome_state (snd (v2_write_front s)) = s"
  by (simp add: v2_write_front_def split: list.split sum.split)

lemma v2_send_inv_eq:
  "send_que s' = send_que s \<Longrightarrow> v2_send_inv s' = v2_send_inv s"
  by (simp add: v2_send_inv_def)

lemma v2_Send_send_inv: "v2_send_inv s \<Longrightarrow> v2_send_inv (outcome_state (snd (v2_Send P msg n s)))"
  by (auto simp: v2_Send_def Let_def v2_send_inv_def dest: v2_MsgNode_msg_buffer split: sum.split)

lemma v2_finish_send_inv:
  assumes "v2_send_inv s"
  shows "v2_send_inv (flow_state (snd (v2_finish P s nd n c)))"
proof -
  have "v2_send_inv (outcome_state (snd (v2_Send P d k (s\<lparr>recv_msg_node := m\<rparr>))))" for d k m
    by (rule v2_Send_send_inv) (use assms in \<open>simp add: v2_send_inv_def\<close>)
  then have "v2_Send P d k (s\<lparr>recv_msg_node := m\<rparr>) = (es, r) \<Longrightarrow> v2_send_inv (outcome_state r)" for d k m es r
    by (metis snd_conv)
  with assms show ?thesis
    by (fastforce simp: v2_finish_def Let_def clear_data_def v2_send_inv_def
        split: sum.splits outcome.splits prod.splits if_splits)
qed

lemma v2_iteration_send_inv:
  assumes inv: "v2_send_inv s"
  shows "v2_send_inv (flow_state (snd (v2_iteration P s n c)))"
proof -
  note [simp] = v2_send_inv_eq [of "_\<lparr>data_buf := _\<rparr>"] v2_send_inv_eq [of "_\<lparr>recv_msg_node := _\<rparr>"]
    v2_send_inv_eq [of "_\<lparr>recv_head_node := _\<rparr>"] v2_send_inv_eq [of "_\<lparr>b_head_parse := _\<rparr>"]
  have parse: "v2_send_inv s1 \<Longrightarrow> v2_send_inv (flow_state (snd (v2_parse_head P s1 d n c)))" for s1 d n c
    by (auto simp: v2_parse_head_def clear_data_def v2_finish_send_inv split: sum.split)
  have "v2_send_inv (flow_state (snd (v2_on_head P s n c)))"
    using inv by (auto simp: v2_on_head_def Let_def clear_data_def parse split: sum.split)
  moreover have "v2_send_inv (flow_state (snd (v2_on_body P s nd n c)))" for nd
    using inv by (auto simp: v2_on_body_def Let_def clear_data_def v2_finish_send_inv split: sum.split)
  ultimately show ?thesis
    using inv by (simp add: v2_iteration_def split: option.split)
qed

lemma v2_read_loop_send_inv:
  "v2_send_inv s \<Longrightarrow> v2_send_inv (outcome_state (snd (v2_read_loop P s n c)))"
proof (induction P s n c rule: v2_read_loop.induct)
  case (1 P s n c)
  have it: "v2_iteration P s n c = (es, fl) \<Longrightarrow> v2_send_inv (flow_state fl)" for es fl
    using v2_iteration_send_inv [OF "1.prems", of P n c] by simp
  show ?case
  proof (cases "n = 0")
    case True
    with "1.prems" show ?thesis by (subst v2_read_loop.simps) simp
  next
    case False
    obtain es fl where i: "v2_iteration P s n c = (es, fl)" by fastforce
    show ?thesis
      using it [OF i] "1.IH" [OF False i [symmetric]] False i
      by (subst v2_read_loop.simps, cases fl) (auto split: prod.split)
  qed
qed

lemma v2_deliver_submit: "v2_deliver m st = submit MAX_SENDQUEUE (v2_frame (snd m)) st"
  by (cases m; cases st) auto

lemma fold_v2_deliver_submit:
  "fold v2_deliver ms st = fold (submit MAX_SENDQUEUE) (concat (map (\<lambda>m. [v2_frame (snd m)]) ms)) st"
  by (induction ms arbitrary: st) (simp_all add: v2_deliver_submit)

lemma v2_write_front_only: "v2_write_front s = (es, Returned s') \<Longrightarrow> s' = s \<and> (\<exists>bs. es = [Async_Write bs])"
  by (auto simp: v2_write_front_def split: list.splits sum.splits)

definition v2_write_only :: "v2_session \<Rightarrow> v2_session \<Rightarrow> bool" where
  "v2_write_only s s' \<longleftrightarrow> uuid s' = uuid s \<and> v2_inv s' = v2_inv s \<and> v2_abs s' = v2_abs s"

lemma v2_write_only_simps [simp]:
  "v2_write_only s s" "v2_write_only s (s\<lparr>send_que := q\<rparr>)" "v2_write_only s (s\<lparr>b_close := b\<rparr>)"
  by (simp_all add: v2_write_only_def v2_inv_def v2_abs_def)

lemma v2_Send_only:
  "v2_call P a s = (es, Returned s') \<Longrightarrow> v2_write_only s s' \<and> reads es = 0 \<and> \<not> clears es \<and> posted es = []"
  by (auto simp: v2_call_def v2_Send_def Let_def dest: v2_write_front_only split: if_splits sum.splits)

lemma v2_HandleWrite_only:
  "v2_HandleWrite error s = (es, Returned s') \<Longrightarrow>
     v2_write_only s s' \<and> reads es = 0 \<and> (clears es \<longleftrightarrow> error) \<and> posted es = []"
  by (auto simp: v2_HandleWrite_def v2_Close_def Let_def dest: v2_write_front_only split: if_splits list.splits)

lemma v2_read_error:
  "v2_HandleRead P True n s = ([Socket_Close, Clear_Session (uuid s)], Returned (s\<lparr>b_close := True\<rparr>))"
  by (simp add: v2_HandleRead_def v2_Close_def)

lemma v2_inv_running: "v2_inv s \<Longrightarrow> running (v2_abs s)"
  by (auto simp: v2_inv_def v2_abs_def split: option.splits)

lemma v2_session_contract:
  assumes P: "network_order P"
  shows "session_contract (v2_call P) v2_HandleWrite v2_queue v2_send_inv v2_call_ok v2_call_frame MAX_SENDQUEUE
    (v2_rd P) (v2_HandleRead P True 0) 2 v2_dec v2_abs v2_inv (\<lambda>_. True) (\<lambda>m. [v2_frame (snd m)])
    (\<lambda>_. [] :: unit list) (\<lambda>_. ())"
proof (intro session_contract.intro v2_write_queue [OF P], unfold_locales)
  fix s chunk b ms
  assume w: "v2_send_inv s" and s: "v2_inv s" and ck: "chunk_ok chunk" and run: "v2_spec (v2_abs s) chunk = (b, ms)"
  obtain es r where rd: "v2_rd P chunk s = (es, r)" by fastforce
  obtain trc es' where pr: "es = Print trc # es'" and
    "v2_ends (fill_buffer chunk s) (v2_spec (v2_abs s) chunk) es' r"
    using v2_HandleRead_ok [OF P s ck rd [unfolded v2_rd_def]] .
  then obtain q ws fin where f: "fold v2_deliver ms (v2_queue s, []) = (q, ws)" and es: "es' = map Async_Write ws @ fin"
    and leaves: "v2_leaves (fill_buffer chunk s) b q fin r"
    by (auto simp: v2_ends_def run)
  obtain s' where s': "r = ends_as (crash (\<lambda>_. True) b) s'" "v2_queue s' = q"
    "running b \<longrightarrow> v2_inv s' \<and> v2_abs s' = b"
    "fin = (if running b then [Async_Read] else if b = Refused then [Clear_Session (uuid s)] else [])"
    using leaves by (cases b) (auto simp: v2_leaves_def)
  have "v2_send_inv (fill_buffer chunk s)" using w by (simp add: v2_send_inv_def fill_buffer_def)
  then have "v2_send_inv (outcome_state (snd (v2_read_loop P (fill_buffer chunk s) (word_of_nat (length chunk)) 0)))"
    by (rule v2_read_loop_send_inv)
  moreover have "snd (v2_read_loop P (fill_buffer chunk s) (word_of_nat (length chunk)) 0) = r"
    using rd pr by (auto simp: v2_rd_def v2_HandleRead_def split: sum.splits prod.splits)
  ultimately have inv: "v2_send_inv s'" using s'(1) by (cases "crash (\<lambda>_. True) b") simp_all
  have "\<not> running Refused" by simp
  with s' inv f show "\<exists>es s'. v2_rd P chunk s = (es, ends_as (crash (\<lambda>_. True) b) s') \<and>
      (running b \<longrightarrow> v2_inv s' \<and> v2_abs s' = b) \<and>
      reads es = (if running b then 1 else 0) \<and> (clears es \<longleftrightarrow> b = Refused) \<and>
      map (\<lambda>_. ()) (posted es) = concat (map (\<lambda>_. []) ms) \<and>
      (crash (\<lambda>_. True) b = None \<longrightarrow> v2_send_inv s' \<and> (v2_queue s', written es) =
        fold (submit MAX_SENDQUEUE) (concat (map (\<lambda>m. [v2_frame (snd m)]) ms)) (v2_queue s, []))"
    unfolding rd fold_v2_deliver_submit by (intro exI [of _ es] exI [of _ s']) (auto simp: es pr)
next
  fix s
  assume "v2_send_inv s"
  then show "\<exists>es s'. v2_HandleRead P True 0 s = (es, Returned s') \<and> v2_send_inv s' \<and> v2_queue s' = v2_queue s \<and>
      reads es = 0 \<and> clears es \<and> posted es = [] \<and> written es = []"
    by (simp add: v2_read_error v2_send_inv_def v2_queue_def)
qed (drule v2_Send_only v2_HandleWrite_only, simp add: v2_write_only_def)+

interpretation v2_ep: session_contract "v2_call x86_host" v2_HandleWrite v2_queue v2_send_inv v2_call_ok v2_call_frame
  MAX_SENDQUEUE "v2_rd x86_host" "v2_HandleRead x86_host True 0" 2 v2_dec v2_abs v2_inv "\<lambda>_. True"
  "\<lambda>m. [v2_frame (snd m)]" "\<lambda>_. [] :: unit list" "\<lambda>_. ()"
  by (rule v2_session_contract) (rule x86.network_order_axioms)

lemma v2_accepted_ok:
  "\<exists>ep. v2_accepted u junk = Inr ep \<and> v2_ep.ep_ok ep \<and> received ep = [] \<and> on_tcp ep = [] \<and>
     v2_queue (ep_sess ep) = [] \<and> \<not> cleared ep \<and> ended ep = None"
proof -
  have two: "sint (short_of_int HEAD_LENGTH) = 2" by (simp add: sint_short_of_int)
  then have "short_of_int HEAD_LENGTH = 2" by (simp add: short_of_int_def)
  with two have "v2_accepted u junk = Inr \<lparr>ep_sess = \<lparr>uuid = u, data_buf = replicate 2048 0, b_close = False,
      send_que = [], recv_msg_node = None, b_head_parse = False,
      recv_head_node = \<lparr>cur_len = 0, total_len = 2, node_data = replicate 3 0\<rparr>\<rparr>,
      read_pending = True, write_pending = None, received = [], on_tcp = [], inbox = [], socket_open = True,
      cleared = False, clear_calls = 0, overlapping = False, ended = None\<rparr>"
    by (simp add: v2_accepted_def v2_CSession_def v2_MsgNode_ok v2_Start_def fresh_endpoint_def clear_data_def)
  then show ?thesis
    by (simp add: v2_ep.ep_ok_def) (simp add: v2_ep.stream_of_def v2_ep.messages_of_def v2_inv_def v2_head_ok_def
        v2_abs_def node_text_def v2_send_inv_def v2_queue_def)
qed

section \<open>Completions keep the sessions well-formed\<close>

text \<open>
  \<open>ep_ok\<close> is the representation invariant of a session and of the operations outstanding for it: sizes
  and counters of the nodes, the head of the queue being written, no two reads or writes at once. A
  completion keeps it, or ends in one of the two faults that a negative length causes.
\<close>

definition kept_or_crashed :: "(('s, 'm) endpoint \<Rightarrow> bool) \<Rightarrow> ('s, 'm) endpoint \<Rightarrow> bool" where
  "kept_or_crashed ok c \<longleftrightarrow>
     (case ended c of None \<Rightarrow> ok c | Some f \<Rightarrow> f \<in> {Bad_Array_New_Length, Out_Of_Bounds})"

lemma v3_dec_faults: "fst (v3_spec (Head []) bytes) = Crashed f \<Longrightarrow> f \<in> {Bad_Array_New_Length, Out_Of_Bounds}"
  by (rule prun_faults [of v3_dec]) (auto simp: v3_dec_def Let_def split: if_splits)

lemma v2_dec_faults: "fst (v2_spec (Head []) bytes) = Crashed f \<Longrightarrow> f \<in> {Bad_Array_New_Length, Out_Of_Bounds}"
  by (rule prun_faults [of v2_dec]) (auto simp: v2_dec_def Let_def split: if_splits)

lemma v3_event_kept:
  assumes P: "network_order P" and c: "v3_ep_ok u c" and e: "\<And>chunk. e = Got chunk \<Longrightarrow> chunk_ok chunk"
  shows "kept_or_crashed (v3_ep_ok u) (v3_event P c e)"
proof (cases "ended (v3_event P c e)")
  case None
  with session_contract.event_step(1) [OF v3_session_contract [OF P] c e] show ?thesis
    by (simp add: kept_or_crashed_def v3_event_def)
next
  case (Some f)
  then have "f \<in> {Bad_Array_New_Length, Out_Of_Bounds}"
    using session_contract.event_ends [OF v3_session_contract [OF P] c e, of e f] v3_dec_faults
    unfolding v3_event_def by blast
  with Some show ?thesis by (simp add: kept_or_crashed_def)
qed

lemma mt_event_kept:
  assumes P: "network_order P" and c: "v3_ep_ok u c" and e: "\<And>chunk. e = Got chunk \<Longrightarrow> chunk_ok chunk"
  shows "kept_or_crashed (v3_ep_ok u) (mt_event P c e)"
proof (cases "ended (mt_event P c e)")
  case None
  with session_contract.event_step(1) [OF mt_session_contract [OF P] c e] show ?thesis
    by (simp add: kept_or_crashed_def mt_event_def)
next
  case (Some f)
  then have "f \<in> {Bad_Array_New_Length, Out_Of_Bounds}"
    using session_contract.event_ends [OF mt_session_contract [OF P] c e, of e f] v3_dec_faults
    unfolding mt_event_def by blast
  with Some show ?thesis by (simp add: kept_or_crashed_def)
qed

lemma v2_event_kept:
  assumes P: "network_order P" and c: "v2_ep.ep_ok c" and e: "\<And>chunk. e = Got chunk \<Longrightarrow> chunk_ok chunk"
  shows "kept_or_crashed v2_ep.ep_ok (v2_event P c e)"
proof (cases "ended (v2_event P c e)")
  case None
  with session_contract.event_step(1) [OF v2_session_contract [OF P] c e] show ?thesis
    by (simp add: kept_or_crashed_def v2_event_def)
next
  case (Some f)
  then have "f \<in> {Bad_Array_New_Length, Out_Of_Bounds}"
    using session_contract.event_ends [OF v2_session_contract [OF P] c e, of e f] v2_dec_faults
    unfolding v2_event_def by blast
  with Some show ?thesis by (simp add: kept_or_crashed_def)
qed

text \<open>So does a call of \<open>Send\<close> from another thread.\<close>

lemma Send_kept:
  assumes P: "network_order P" and c: "v3_ep_ok u c"
  shows "call_ok a \<Longrightarrow> v3_ep_ok u (finish_call c (v3_Send P a (ep_sess c)))"
    and "call_ok (as_send_call b) \<Longrightarrow> v3_ep_ok u (finish_call c (mt_Send P b (ep_sess c)))"
  by (rule session_contract.send_step(1) [OF v3_session_contract [OF P] c], assumption)
    (rule session_contract.send_step(1) [OF mt_session_contract [OF P] c], assumption)

lemma v2_Send_kept:
  assumes P: "network_order P" and d: "v2_ep.ep_ok d"
  shows "v2_call_ok x \<Longrightarrow> v2_ep.ep_ok (finish_call d (v2_call P x (ep_sess d)))"
  by (rule session_contract.send_step(1) [OF v2_session_contract [OF P] d])

end
