(* ===== verification/Logic_Queue.thy ===== *)
theory Logic_Queue
  imports Cpp_Prelude
begin

text \<open>
  The worker thread of a logic system and the threads around it, as a shared state: the message
  queue, where the worker stands, the destructor, and what has been posted and handled so far. The
  locale \<open>fifo_worker\<close> states what one step of such a system may do; from it follows, for every
  interleaving, that messages are handled in the order of posting and that no wake-up is lost.
\<close>

section \<open>The shared state\<close>

text \<open>
  Where the worker stands. It holds the mutex while \<open>Checked\<close> (it has found the queue empty and is
  about to wait) and while \<open>Draining\<close>; a whole turn of its loop in which it takes one message holds
  the mutex too and is one step. An exception that leaves the thread ends the process.
\<close>

datatype worker = Ready | Checked | Blocked | Draining | Finished | Terminated fault

datatype destructor = Not_Begun | Stop_Set | Notified | Joined

record ('m, 'h, 'c) logic_sys =
  msg_queue :: "'m list"
  b_stop :: bool
  worker_at :: worker
  notifies :: nat          \<comment> \<open>threads between a push and their call of \<open>notify_one\<close>\<close>
  destr :: destructor
  objects :: 'h            \<comment> \<open>the session objects\<close>
  posts :: "'m list"       \<comment> \<open>all messages pushed\<close>
  handled :: "'m list"     \<comment> \<open>all messages popped\<close>
  turn_log :: "'c list"       \<comment> \<open>what the turn did in which each of them was dealt with\<close>

definition new_logic :: "'h \<Rightarrow> ('m, 'h, 'c) logic_sys" where
  "new_logic h = \<lparr>msg_queue = [], b_stop = False, worker_at = Ready, notifies = 0, destr = Not_Begun,
     objects = h, posts = [], handled = [], turn_log = []\<rparr>"

definition alive :: "('m, 'h, 'c) logic_sys \<Rightarrow> bool" where
  "alive L \<longleftrightarrow> (case worker_at L of Terminated _ \<Rightarrow> False | _ \<Rightarrow> True)"

lemma not_alive_iff: "\<not> alive L \<longleftrightarrow> (\<exists>f. worker_at L = Terminated f)"
  by (auto simp: alive_def split: worker.splits)

definition mutex_free :: "('m, 'h, 'c) logic_sys \<Rightarrow> bool" where
  "mutex_free L \<longleftrightarrow> worker_at L \<noteq> Checked \<and> worker_at L \<noteq> Draining"

definition wake :: "worker \<Rightarrow> worker" where
  "wake w = (if w = Blocked then Ready else w)"

lemma wake_simps [simp]:
  "wake Blocked = Ready" "wake w \<noteq> Blocked" "w \<noteq> Blocked \<Longrightarrow> wake w = w"
  by (simp_all add: wake_def)

section \<open>The contract\<close>

text \<open>
  A step pushes one message, or pops the first one after a turn that is right for it by \<open>turn\<close>, or leaves
  the lists alone. \<open>covered\<close> says a blocked worker will be told of a non-empty queue.
\<close>

definition covered :: "('m, 'h, 'c) logic_sys \<Rightarrow> bool" where
  "covered L \<longleftrightarrow> (worker_at L = Blocked \<longrightarrow> msg_queue L = [] \<or> 0 < notifies L) \<and>
     (worker_at L = Checked \<longrightarrow> msg_queue L = [])"

definition pushes :: "('m, 'h, 'c) logic_sys \<Rightarrow> ('m, 'h, 'c) logic_sys \<Rightarrow> bool" where
  "pushes L L' \<longleftrightarrow> (\<exists>m. msg_queue L' = msg_queue L @ [m] \<and> posts L' = posts L @ [m] \<and>
     handled L' = handled L \<and> turn_log L' = turn_log L)"

definition pops :: "('m \<Rightarrow> 'c \<Rightarrow> bool) \<Rightarrow> ('m, 'h, 'c) logic_sys \<Rightarrow> ('m, 'h, 'c) logic_sys \<Rightarrow> bool" where
  "pops turn L L' \<longleftrightarrow> (\<exists>m c. msg_queue L = m # msg_queue L' \<and> handled L' = handled L @ [m] \<and>
     posts L' = posts L \<and> turn_log L' = turn_log L @ [c] \<and> turn m c)"

definition keeps :: "('m, 'h, 'c) logic_sys \<Rightarrow> ('m, 'h, 'c) logic_sys \<Rightarrow> bool" where
  "keeps L L' \<longleftrightarrow> msg_queue L' = msg_queue L \<and> posts L' = posts L \<and> handled L' = handled L \<and> turn_log L' = turn_log L"

locale fifo_worker =
  fixes step :: "('m, 'h, 'c) logic_sys \<Rightarrow> ('m, 'h, 'c) logic_sys \<Rightarrow> bool"
    and turn :: "'m \<Rightarrow> 'c \<Rightarrow> bool"
  assumes step_lists: "step L L' \<Longrightarrow> pushes L L' \<or> pops turn L L' \<or> keeps L L'"
    and step_alive: "step L L' \<Longrightarrow> alive L"
    and step_covered: "step L L' \<Longrightarrow> covered L \<Longrightarrow> covered L'"
    and step_finishes: "step L L' \<Longrightarrow> worker_at L' = Finished \<Longrightarrow> worker_at L \<noteq> Finished \<Longrightarrow> msg_queue L' = []"
begin

lemma reachable_lists:
  "step\<^sup>*\<^sup>* (new_logic h) L \<Longrightarrow> handled L @ msg_queue L = posts L \<and> list_all2 turn (handled L) (turn_log L)"
proof (induction rule: rtranclp_induct)
  case base
  show ?case by (simp add: new_logic_def)
next
  case (step L L')
  with step_lists [OF step.hyps(2)] show ?case
    by (auto simp: pushes_def pops_def keeps_def list_all2_appendI)
qed

lemma reachable_covered: "step\<^sup>*\<^sup>* (new_logic h) L \<Longrightarrow> covered L"
proof (induction rule: rtranclp_induct)
  case base
  show ?case by (simp add: new_logic_def covered_def)
next
  case (step L L')
  then show ?case using step_covered by blast
qed

text \<open>The worker does not sleep on a message, unless a thread is about to wake it.\<close>

lemma no_lost_wakeup:
  "step\<^sup>*\<^sup>* (new_logic h) L \<Longrightarrow> worker_at L = Blocked \<Longrightarrow> notifies L = 0 \<Longrightarrow> msg_queue L = []"
  using reachable_covered [of h L] by (simp add: covered_def)

end

end
