(* ===== verification/V3_Logic.thy ===== *)
theory V3_Logic
  imports Logic_Queue V3_Sending
begin

text \<open>
  \<open>LogicSystem\<close> of \<open>Server-version-3\<close>: the callback registered for \<open>MSG_HELLO_WORD\<close>, one turn of
  \<open>DealMsg\<close>, \<open>PostMsgtoQueue\<close> and the destructor, and the system of threads they make up. The JSON
  library is not part of the repository: it is the parameter \<open>J\<close>, one field per operation the
  callback uses, each of which may throw.
\<close>

section \<open>The JSON library\<close>

record 'j json =
  json_value :: 'j                                             \<comment> \<open>\<open>Json::Value()\<close>\<close>
  json_parse :: "byte list \<Rightarrow> 'j \<Rightarrow> fault + 'j"                 \<comment> \<open>\<open>reader.parse(text, root)\<close>: the new root\<close>
  json_at :: "'j \<Rightarrow> string \<Rightarrow> fault + 'j \<times> 'j"                  \<comment> \<open>\<open>root[key]\<close>: the root after it, the member\<close>
  json_as_int :: "'j \<Rightarrow> fault + int"
  json_as_string :: "'j \<Rightarrow> fault + byte list"
  json_assign :: "'j \<Rightarrow> string \<Rightarrow> byte list \<Rightarrow> fault + 'j"       \<comment> \<open>\<open>root[key] = text\<close>\<close>
  json_styled :: "'j \<Rightarrow> byte list"

definition bytes_of :: "string \<Rightarrow> byte list" where
  "bytes_of s = map of_char s"

text \<open>\<open>root[key].asInt()\<close> and \<open>root[key].asString()\<close>: looking up a member may create it.\<close>

definition member_int :: "'j json \<Rightarrow> 'j \<Rightarrow> string \<Rightarrow> fault + 'j \<times> int" where
  "member_int J root key =
     (case json_at J root key of
        Inl f \<Rightarrow> Inl f
      | Inr (root', v) \<Rightarrow> (case json_as_int J v of Inl f \<Rightarrow> Inl f | Inr i \<Rightarrow> Inr (root', i)))"

definition member_string :: "'j json \<Rightarrow> 'j \<Rightarrow> string \<Rightarrow> fault + 'j \<times> byte list" where
  "member_string J root key =
     (case json_at J root key of
        Inl f \<Rightarrow> Inl f
      | Inr (root', v) \<Rightarrow> (case json_as_string J v of Inl f \<Rightarrow> Inl f | Inr t \<Rightarrow> Inr (root', t)))"

section \<open>The callback\<close>

text \<open>\<open>HelloWorldCallBack\<close> up to its call of \<open>Send\<close>: the reply and the argument for \<open>msg_id\<close>.\<close>

definition v3_hello_reply :: "'j json \<Rightarrow> byte list \<Rightarrow> fault + byte list \<times> short" where
  "v3_hello_reply J msg_data =
     (case json_parse J msg_data (json_value J) of
        Inl f \<Rightarrow> Inl f
      | Inr root0 \<Rightarrow>
     (case member_int J root0 ''id'' of
        Inl f \<Rightarrow> Inl f
      | Inr (root1, _) \<Rightarrow>
     (case member_string J root1 ''data'' of
        Inl f \<Rightarrow> Inl f
      | Inr (root2, _) \<Rightarrow>
     (case member_string J root2 ''data'' of
        Inl f \<Rightarrow> Inl f
      | Inr (root3, t) \<Rightarrow>
     (case json_assign J root3 ''data'' (bytes_of ''Server has received msg, msg data is '' @ t) of
        Inl f \<Rightarrow> Inl f
      | Inr root4 \<Rightarrow>
     (case member_int J root4 ''id'' of
        Inl f \<Rightarrow> Inl f
      | Inr (_, i) \<Rightarrow> Inr (json_styled J root4, short_of_int i)))))))"

definition v3_HelloWorldCallBack ::
  "platform \<Rightarrow> 'j json \<Rightarrow> v3_session \<Rightarrow> short \<Rightarrow> byte list \<Rightarrow> v3_effect list \<times> v3_session outcome" where
  "v3_HelloWorldCallBack P J session msg_id msg_data =
     (case v3_hello_reply J msg_data of
        Inl f \<Rightarrow> ([], Raised f session)
      | Inr (return_str, i) \<Rightarrow> v3_Send_string P return_str i session)"

section \<open>The table of callbacks and one message\<close>

datatype callback = Hello_World

definition v3_RegisterCallBacks :: "(short \<rightharpoonup> callback) \<Rightarrow> (short \<rightharpoonup> callback)" where
  "v3_RegisterCallBacks table = table(short_of_int MSG_HELLO_WORD \<mapsto> Hello_World)"

text \<open>
  What happens to the message at the front of the queue, under the mutex: dispatch on its id and pop
  it. \<open>heap\<close> maps a session pointer to the session. An exception leaves the message in the queue.
\<close>

type_synonym session_heap = "string \<Rightarrow> v3_session"

definition v3_deal_front ::
  "platform \<Rightarrow> 'j json \<Rightarrow> (short \<rightharpoonup> callback) \<Rightarrow> logic_node \<Rightarrow> session_heap \<Rightarrow> v3_effect list \<times> session_heap outcome" where
  "v3_deal_front P J table msg_node heap =
     (let recvnode = ln_recvnode msg_node; session = ln_session msg_node in
      case table (recv_msg_id recvnode) of
        None \<Rightarrow> ([], Returned heap)
      | Some Hello_World \<Rightarrow>
          (case v3_HelloWorldCallBack P J (heap session) (recv_msg_id recvnode) (node_text recvnode) of
             (es, Returned s) \<Rightarrow> (es, Returned (heap(session := s)))
           | (es, Raised f s) \<Rightarrow> (es, Raised f (heap(session := s)))))"

section \<open>Threads\<close>

text \<open>
  For each message dealt with, \<open>turn_log\<close> keeps what its turn did: the session objects it found, the effects
  its callback had and the session objects it left.
\<close>

type_synonym turn = "session_heap \<times> v3_effect list \<times> session_heap"

type_synonym v3_logic = "(logic_node, session_heap, turn) logic_sys"

text \<open>\<open>PostMsgtoQueue\<close>: the notification is sent under the mutex.\<close>

definition v3_PostMsgtoQueue :: "logic_node \<Rightarrow> v3_logic \<Rightarrow> v3_logic" where
  "v3_PostMsgtoQueue msg L =
     (let L1 = L\<lparr>msg_queue := msg_queue L @ [msg], posts := posts L @ [msg]\<rparr> in
      if length (msg_queue L1) = 1 then L1\<lparr>worker_at := wake (worker_at L1)\<rparr> else L1)"

text \<open>The front message is dealt with and popped; the worker is at \<open>next_pc\<close> afterwards.\<close>

definition v3_take_front :: "platform \<Rightarrow> 'j json \<Rightarrow> worker \<Rightarrow> v3_logic \<Rightarrow> v3_logic" where
  "v3_take_front P J next_pc L =
     (case msg_queue L of
        [] \<Rightarrow> L\<lparr>worker_at := Terminated Empty_Queue\<rparr>
      | msg_node # rest \<Rightarrow>
          (case v3_deal_front P J (v3_RegisterCallBacks Map.empty) msg_node (objects L) of
             (_, Raised f heap) \<Rightarrow> L\<lparr>worker_at := Terminated f, objects := heap\<rparr>
           | (es, Returned heap) \<Rightarrow>
               L\<lparr>msg_queue := rest, worker_at := next_pc, objects := heap, handled := handled L @ [msg_node],
                 turn_log := turn_log L @ [(objects L, es, heap)]\<rparr>))"

text \<open>
  One step of \<open>DealMsg\<close>: test the condition under the mutex and begin to wait, take a message, or,
  once \<open>_b_stop\<close> is seen, empty the queue and leave. A \<open>Blocked\<close> worker has no step of its own.
\<close>

definition v3_DealMsg :: "platform \<Rightarrow> 'j json \<Rightarrow> v3_logic \<Rightarrow> v3_logic option" where
  "v3_DealMsg P J L =
     (case worker_at L of
        Ready \<Rightarrow>
          Some (if b_stop L then L\<lparr>worker_at := Draining\<rparr>
                else if msg_queue L = [] then L\<lparr>worker_at := Checked\<rparr>
                else v3_take_front P J Ready L)
      | Checked \<Rightarrow> Some (L\<lparr>worker_at := Blocked\<rparr>)
      | Draining \<Rightarrow>
          Some (if msg_queue L \<noteq> [] then v3_take_front P J Draining L else L\<lparr>worker_at := Finished\<rparr>)
      | _ \<Rightarrow> None)"

text \<open>\<open>~LogicSystem\<close>, statement by statement; none of them takes the mutex.\<close>

definition v3_destruct :: "v3_logic \<Rightarrow> v3_logic option" where
  "v3_destruct L =
     (case destr L of
        Not_Begun \<Rightarrow> Some (L\<lparr>b_stop := True, destr := Stop_Set\<rparr>)
      | Stop_Set \<Rightarrow> Some (L\<lparr>worker_at := wake (worker_at L), destr := Notified\<rparr>)
      | Notified \<Rightarrow> (if worker_at L = Finished then Some (L\<lparr>destr := Joined\<rparr>) else None)
      | Joined \<Rightarrow> None)"

text \<open>
  The interleavings. A posting thread needs the mutex; a condition variable may wake spuriously; the
  network threads change session objects under the sessions' own locks.
\<close>

inductive v3_logic_step :: "platform \<Rightarrow> 'j json \<Rightarrow> v3_logic \<Rightarrow> v3_logic \<Rightarrow> bool" for P J where
  worker: "v3_DealMsg P J L = Some L' \<Longrightarrow> v3_logic_step P J L L'"
| post: "alive L \<Longrightarrow> mutex_free L \<Longrightarrow> v3_logic_step P J L (v3_PostMsgtoQueue msg L)"
| spurious: "worker_at L = Blocked \<Longrightarrow> v3_logic_step P J L (L\<lparr>worker_at := Ready\<rparr>)"
| network: "alive L \<Longrightarrow> v3_logic_step P J L (L\<lparr>objects := heap\<rparr>)"
| destroy: "alive L \<Longrightarrow> v3_destruct L = Some L' \<Longrightarrow> v3_logic_step P J L L'"

inductive_cases v3_logic_stepE [consumes 1, case_names worker post spurious network destroy]: "v3_logic_step P J L L'"

section \<open>One message and its turn\<close>

text \<open>
  What a turn has to do: for a greeting, one call of \<open>Send\<close> of the session the message points to, with the
  reply to its text, which has its effects on that session and nothing else; for any other message nothing.
\<close>

definition v3_turn :: "platform \<Rightarrow> 'j json \<Rightarrow> logic_node \<Rightarrow> turn \<Rightarrow> bool" where
  "v3_turn P J nd t \<longleftrightarrow>
     (case t of (heap, es, heap') \<Rightarrow>
        if recv_msg_id (ln_recvnode nd) = short_of_int MSG_HELLO_WORD
        then \<exists>reply i s. v3_hello_reply J (node_text (ln_recvnode nd)) = Inr (reply, i) \<and>
          v3_Send_string P reply i (heap (ln_session nd)) = (es, Returned s) \<and> heap' = heap(ln_session nd := s)
        else es = [] \<and> heap' = heap)"

lemma v3_deal_front_turn:
  "v3_deal_front P J (v3_RegisterCallBacks Map.empty) nd heap = (es, Returned heap') \<Longrightarrow> v3_turn P J nd (heap, es, heap')"
  by (auto simp: v3_turn_def v3_deal_front_def v3_RegisterCallBacks_def v3_HelloWorldCallBack_def Let_def
      split: if_splits sum.splits prod.splits outcome.splits)

lemma v3_take_front_cases:
  assumes "msg_queue L = nd # rest" "alive (v3_take_front P J pc L)"
  shows "pops (v3_turn P J) L (v3_take_front P J pc L)"
    and "worker_at (v3_take_front P J pc L) = pc" and "notifies (v3_take_front P J pc L) = notifies L"
  using assms
  by (auto simp: v3_take_front_def pops_def alive_def v3_deal_front_turn split: prod.splits outcome.splits)

lemma v3_take_front_lists: "pops (v3_turn P J) L (v3_take_front P J pc L) \<or> keeps L (v3_take_front P J pc L)"
  by (auto simp: v3_take_front_def pops_def keeps_def v3_deal_front_turn split: list.splits prod.splits outcome.splits)

lemma v3_take_front_worker:
  "worker_at (v3_take_front P J pc L) = pc \<or> (\<exists>f. worker_at (v3_take_front P J pc L) = Terminated f)"
  by (auto simp: v3_take_front_def split: list.splits prod.splits outcome.splits)

section \<open>The contract\<close>

lemma v3_take_front_awake:
  "pc \<noteq> Blocked \<Longrightarrow> worker_at (v3_take_front P J pc L) \<noteq> Blocked"
  "pc \<noteq> Checked \<Longrightarrow> worker_at (v3_take_front P J pc L) \<noteq> Checked"
  "pc \<noteq> Finished \<Longrightarrow> worker_at (v3_take_front P J pc L) \<noteq> Finished"
  using v3_take_front_worker [of P J pc L] by auto

lemma v3_fifo_worker: "fifo_worker (v3_logic_step P J) (v3_turn P J)"
proof
  fix L L' :: v3_logic
  assume step: "v3_logic_step P J L L'"
  show "alive L"
    using step by (cases rule: v3_logic_stepE) (auto simp: alive_def v3_DealMsg_def split: worker.splits)
  show "pushes L L' \<or> pops (v3_turn P J) L L' \<or> keeps L L'"
    using step
  proof (cases rule: v3_logic_stepE)
    case worker
    then show ?thesis
      using v3_take_front_lists [of P J L] by (auto simp: v3_DealMsg_def keeps_def split: worker.splits if_splits)
  next
    case (post msg)
    then show ?thesis by (auto simp: v3_PostMsgtoQueue_def Let_def pushes_def)
  qed (auto simp: keeps_def v3_destruct_def split: destructor.splits if_splits)
  show "covered L'" if "covered L"
    using step
  proof (cases rule: v3_logic_stepE)
    case worker
    with that show ?thesis
      by (auto simp: v3_DealMsg_def v3_take_front_awake covered_def
          split: worker.splits if_splits)
  next
    case (post msg)
    with that show ?thesis
      by (cases "worker_at L = Blocked")
        (auto simp: v3_PostMsgtoQueue_def Let_def covered_def mutex_free_def)
  next
    case network
    with that show ?thesis by (simp add: covered_def)
  next
    case destroy
    with that show ?thesis
      by (auto simp: v3_destruct_def covered_def wake_def split: destructor.splits if_splits)
  qed (simp add: covered_def)
  show "worker_at L' = Finished \<Longrightarrow> worker_at L \<noteq> Finished \<Longrightarrow> msg_queue L' = []"
    using step
  proof (cases rule: v3_logic_stepE)
    case worker
    assume fin: "worker_at L' = Finished" "worker_at L \<noteq> Finished"
    with worker show ?thesis
      by (auto simp: v3_DealMsg_def v3_take_front_awake split: worker.splits if_splits)
  qed (auto simp: v3_PostMsgtoQueue_def Let_def wake_def v3_destruct_def split: destructor.splits if_splits)
qed

interpretation v3_worker: fifo_worker "v3_logic_step P J" "v3_turn P J"
  for P J
  by (rule v3_fifo_worker)

section \<open>Progress\<close>

text \<open>As long as the worker has not left its loop, it is blocked or has a step.\<close>

lemma v3_DealMsg_enabled:
  "v3_DealMsg P J L = None \<longleftrightarrow> worker_at L = Blocked \<or> worker_at L = Finished \<or> \<not> alive L"
  by (auto simp: v3_DealMsg_def alive_def split: worker.splits)

text \<open>The worker alone, for a bounded number of steps.\<close>

fun v3_worker_run :: "platform \<Rightarrow> 'j json \<Rightarrow> nat \<Rightarrow> v3_logic \<Rightarrow> v3_logic" where
  "v3_worker_run P J 0 L = L"
| "v3_worker_run P J (Suc n) L =
     (case v3_DealMsg P J L of None \<Rightarrow> L | Some L' \<Rightarrow> v3_worker_run P J n L')"

lemma v3_worker_run_steps: "(v3_logic_step P J)\<^sup>*\<^sup>* L (v3_worker_run P J n L)"
proof (induction n arbitrary: L)
  case (Suc n)
  show ?case
  proof (cases "v3_DealMsg P J L")
    case (Some L')
    then have "v3_logic_step P J L L'" by (rule v3_logic_step.worker)
    with Suc [of L'] Some show ?thesis by (simp add: converse_rtranclp_into_rtranclp)
  qed simp
qed simp

text \<open>After the stop the worker empties the queue and leaves, unless a callback throws.\<close>

lemma v3_drains:
  fixes P J
  assumes "worker_at L = Draining"
  defines "L' \<equiv> v3_worker_run P J (Suc (length (msg_queue L))) L"
  shows "worker_at L' = Finished \<and> msg_queue L' = [] \<and> handled L' = handled L @ msg_queue L \<or> \<not> alive L'"
  using assms(1) unfolding L'_def
proof (induction "msg_queue L" arbitrary: L)
  case Nil
  then show ?case by (simp add: v3_DealMsg_def)
next
  case (Cons nd rest)
  let ?L1 = "v3_take_front P J Draining L"
  have deal: "v3_DealMsg P J L = Some ?L1"
    using Cons.prems Cons.hyps(2) by (auto simp: v3_DealMsg_def)
  have q: "msg_queue L = nd # rest" using Cons.hyps(2) by simp
  show ?case
  proof (cases "alive ?L1")
    case True
    note c = v3_take_front_cases [OF q True]
    then have "msg_queue ?L1 = rest" "handled ?L1 = handled L @ [nd]" "worker_at ?L1 = Draining"
      using q by (auto simp: pops_def)
    with Cons.hyps(1) [of ?L1] deal q show ?thesis by simp
  next
    case False
    then obtain f where "worker_at ?L1 = Terminated f" by (auto simp: alive_def split: worker.splits)
    then have "v3_DealMsg P J ?L1 = None" by (simp add: v3_DealMsg_def)
    with deal False show ?thesis by (cases "length (msg_queue L)") simp_all
  qed
qed

lemma v3_stops:
  fixes P J
  assumes "worker_at L = Ready" "b_stop L"
  defines "L' \<equiv> v3_worker_run P J (length (msg_queue L) + 2) L"
  shows "worker_at L' = Finished \<and> msg_queue L' = [] \<and> handled L' = handled L @ msg_queue L \<or> \<not> alive L'"
proof -
  let ?L1 = "L\<lparr>worker_at := Draining\<rparr>"
  have "L' = v3_worker_run P J (Suc (length (msg_queue ?L1))) ?L1"
    using assms(1,2) unfolding L'_def by (simp add: v3_DealMsg_def)
  then show ?thesis using v3_drains [of ?L1 P J] by simp
qed

text \<open>
  The notification of the destructor can fall between the worker's test of \<open>_b_stop\<close> and its wait:
  the worker then blocks although the destructor is waiting for it.
\<close>

definition v3_hang :: "session_heap \<Rightarrow> v3_logic" where
  "v3_hang heap = (new_logic heap)\<lparr>b_stop := True, worker_at := Blocked, destr := Notified\<rparr>"

lemma v3_hang_reachable: "(v3_logic_step P J)\<^sup>*\<^sup>* (new_logic heap) (v3_hang heap)"
proof -
  let ?L = "new_logic heap :: v3_logic"
  have "v3_logic_step P J ?L (?L\<lparr>worker_at := Checked\<rparr>)"
    by (rule v3_logic_step.worker) (simp add: v3_DealMsg_def new_logic_def)
  moreover have "v3_logic_step P J (?L\<lparr>worker_at := Checked\<rparr>) (?L\<lparr>b_stop := True, worker_at := Checked, destr := Stop_Set\<rparr>)"
    by (rule v3_logic_step.destroy) (simp_all add: v3_destruct_def new_logic_def alive_def)
  moreover have "v3_logic_step P J (?L\<lparr>b_stop := True, worker_at := Checked, destr := Stop_Set\<rparr>)
      (?L\<lparr>b_stop := True, worker_at := Checked, destr := Notified\<rparr>)"
    by (rule v3_logic_step.destroy) (simp_all add: v3_destruct_def new_logic_def alive_def)
  moreover have "v3_logic_step P J (?L\<lparr>b_stop := True, worker_at := Checked, destr := Notified\<rparr>) (v3_hang heap)"
    by (rule v3_logic_step.worker) (simp add: v3_DealMsg_def v3_hang_def new_logic_def)
  ultimately show ?thesis
    by (meson converse_rtranclp_into_rtranclp r_into_rtranclp)
qed

lemma v3_hang_stuck: "v3_DealMsg P J (v3_hang heap) = None" "v3_destruct (v3_hang heap) = None"
  by (simp_all add: v3_DealMsg_def v3_destruct_def v3_hang_def)

text \<open>Here the notification is sent under the mutex, so no thread is ever about to send one.\<close>

lemma v3_no_pending_notify: "(v3_logic_step P J)\<^sup>*\<^sup>* (new_logic heap) L \<Longrightarrow> notifies L = 0"
proof (induction rule: rtranclp_induct)
  case base
  show ?case by (simp add: new_logic_def)
next
  case (step L L')
  have keep: "notifies (v3_take_front P J pc L) = notifies L" for pc
    by (simp add: v3_take_front_def split: list.split prod.split outcome.split)
  from step.hyps(2) show ?case
    using step.IH
    by (cases rule: v3_logic_stepE)
      (auto simp: v3_DealMsg_def keep v3_PostMsgtoQueue_def Let_def v3_destruct_def
        split: worker.splits destructor.splits if_splits)
qed

lemma v3_sleeps_empty:
  "(v3_logic_step P J)\<^sup>*\<^sup>* (new_logic heap) L \<Longrightarrow> worker_at L = Blocked \<Longrightarrow> msg_queue L = []"
  using v3_worker.no_lost_wakeup v3_no_pending_notify by blast

section \<open>Exceptions\<close>

text \<open>The two ways the callback can throw, for the message \<open>nd\<close> whose session is \<open>s\<close>.\<close>

definition v3_throws :: "'j json \<Rightarrow> logic_node \<Rightarrow> v3_session \<Rightarrow> fault \<Rightarrow> bool" where
  "v3_throws J nd s f \<longleftrightarrow>
     (case v3_hello_reply J (node_text (ln_recvnode nd)) of
        Inl g \<Rightarrow> f = g
      | Inr (reply, _) \<Rightarrow> 32764 \<le> length reply \<and> length reply \<le> 65530 \<and>
          length (send_que s) \<le> MAX_SENDQUEUE \<and> f = Bad_Array_New_Length)"

lemma v3_callback_throws:
  assumes "recv_msg_id (ln_recvnode nd) = short_of_int MSG_HELLO_WORD" "v3_throws J nd (heap (ln_session nd)) f"
  shows "\<exists>heap'. v3_deal_front P J (v3_RegisterCallBacks Map.empty) nd heap = ([], Raised f heap')"
proof (cases "v3_hello_reply J (node_text (ln_recvnode nd))")
  case (Inl g)
  then show ?thesis
    using assms by (simp add: v3_deal_front_def v3_RegisterCallBacks_def v3_HelloWorldCallBack_def v3_throws_def)
next
  case (Inr r)
  obtain reply i where r: "r = (reply, i)" by (cases r)
  then have "v3_SendNode P (reply @ [0]) (short_of_int (int (length reply))) i = Inl f"
    using assms(2) Inr by (auto simp: v3_throws_def intro!: v3_SendNode_throws)
  then show ?thesis
    using assms Inr r by (simp add: v3_deal_front_def v3_RegisterCallBacks_def v3_HelloWorldCallBack_def
        v3_throws_def v3_Send_string_def)
qed

lemma v3_throw_ends_process:
  assumes L: "worker_at L = Ready" "\<not> b_stop L" "msg_queue L = nd # rest"
    and deal: "v3_deal_front P J (v3_RegisterCallBacks Map.empty) nd (objects L) = (es, Raised f heap')"
  shows "\<exists>L'. v3_DealMsg P J L = Some L' \<and> worker_at L' = Terminated f \<and> (\<forall>L''. \<not> v3_logic_step P J L' L'')"
proof -
  have "v3_DealMsg P J L = Some (L\<lparr>worker_at := Terminated f, objects := heap'\<rparr>)"
    using L deal by (simp add: v3_DealMsg_def v3_take_front_def)
  moreover have "\<not> v3_logic_step P J (L\<lparr>worker_at := Terminated f, objects := heap'\<rparr>) L''" for L''
    using v3_worker.step_alive by (fastforce simp: alive_def)
  ultimately show ?thesis by (intro exI conjI allI) auto
qed

end
