(* ===== verification/Mt_Logic.thy ===== *)
theory Mt_Logic
  imports V3_Logic Mt_Session
begin

text \<open>
  \<open>LogicSystem\<close> of \<open>Server-version-3-multi-thread\<close>. \<open>PostMsgToQue\<close> gives the mutex back before it
  notifies, and several network threads post, so a worker may be asleep on a queue of several
  messages for as long as a notification is on its way; the contract \<open>fifo_worker\<close> holds all the
  same. The state of the system, the JSON library and the table's type are those of \<open>V3_Logic\<close>.
\<close>

section \<open>The callback\<close>

text \<open>\<open>HelloWordCallBack\<close> up to its call of \<open>Send\<close>: the reply and the argument for \<open>msg_id\<close>.\<close>

definition mt_hello_reply :: "'j json \<Rightarrow> byte list \<Rightarrow> fault + byte list \<times> short" where
  "mt_hello_reply J msg_data =
     (case json_parse J msg_data (json_value J) of
        Inl f \<Rightarrow> Inl f
      | Inr root0 \<Rightarrow>
     (case member_int J root0 ''id'' of
        Inl f \<Rightarrow> Inl f
      | Inr (root1, _) \<Rightarrow>
     (case member_string J root1 ''data'' of
        Inl f \<Rightarrow> Inl f
      | Inr (root2, _) \<Rightarrow>
     (case member_string J root2 ''data'' of
        Inl f \<Rightarrow> Inl f
      | Inr (root3, t) \<Rightarrow>
     (case json_assign J root3 ''data'' (bytes_of ''server has received msg, msg data is '' @ t) of
        Inl f \<Rightarrow> Inl f
      | Inr root4 \<Rightarrow>
     (case member_int J root4 ''id'' of
        Inl f \<Rightarrow> Inl f
      | Inr (_, i) \<Rightarrow> Inr (json_styled J root4, short_of_int i)))))))"

definition mt_HelloWordCallBack ::
  "platform \<Rightarrow> 'j json \<Rightarrow> v3_session \<Rightarrow> short \<Rightarrow> byte list \<Rightarrow> v3_effect list \<times> v3_session outcome" where
  "mt_HelloWordCallBack P J session msg_id msg_data =
     (case mt_hello_reply J msg_data of
        Inl f \<Rightarrow> ([], Raised f session)
      | Inr (return_str, i) \<Rightarrow> mt_Send_string P return_str i session)"

section \<open>The table of callbacks and one message\<close>

definition mt_RegisterCallBacks :: "(short \<rightharpoonup> callback) \<Rightarrow> (short \<rightharpoonup> callback)" where
  "mt_RegisterCallBacks table = table(short_of_int MSG_HELLO_WORD \<mapsto> Hello_World)"

text \<open>
  What happens to the message at the front of the queue, under the mutex: dispatch on its id and pop
  it. \<open>heap\<close> maps a session pointer to the session. An exception leaves the message in the queue.
\<close>

definition mt_deal_front ::
  "platform \<Rightarrow> 'j json \<Rightarrow> (short \<rightharpoonup> callback) \<Rightarrow> logic_node \<Rightarrow> session_heap \<Rightarrow> v3_effect list \<times> session_heap outcome" where
  "mt_deal_front P J table msg_node heap =
     (let recvnode = ln_recvnode msg_node; session = ln_session msg_node in
      case table (recv_msg_id recvnode) of
        None \<Rightarrow> ([], Returned heap)
      | Some Hello_World \<Rightarrow>
          (case mt_HelloWordCallBack P J (heap session) (recv_msg_id recvnode) (node_text recvnode) of
             (es, Returned s) \<Rightarrow> (es, Returned (heap(session := s)))
           | (es, Raised f s) \<Rightarrow> (es, Raised f (heap(session := s)))))"

section \<open>Threads\<close>

text \<open>The members of the class are those of the other server.\<close>

type_synonym mt_logic = "(logic_node, session_heap, turn) logic_sys"

text \<open>
  \<open>PostMsgToQue\<close>: the push and the test of the size under the mutex; the mutex is released before
  \<open>notify_one\<close>, which is therefore a step of its own.
\<close>

definition mt_PostMsgToQue :: "logic_node \<Rightarrow> mt_logic \<Rightarrow> mt_logic" where
  "mt_PostMsgToQue msg L =
     (let L1 = L\<lparr>msg_queue := msg_queue L @ [msg], posts := posts L @ [msg]\<rparr> in
      if length (msg_queue L1) = 1 then L1\<lparr>notifies := Suc (notifies L1)\<rparr> else L1)"

definition mt_notify_one :: "mt_logic \<Rightarrow> mt_logic" where
  "mt_notify_one L = L\<lparr>worker_at := wake (worker_at L), notifies := notifies L - 1\<rparr>"

text \<open>The front message is dealt with and popped; the worker is at \<open>next_pc\<close> afterwards.\<close>

definition mt_take_front :: "platform \<Rightarrow> 'j json \<Rightarrow> worker \<Rightarrow> mt_logic \<Rightarrow> mt_logic" where
  "mt_take_front P J next_pc L =
     (case msg_queue L of
        [] \<Rightarrow> L\<lparr>worker_at := Terminated Empty_Queue\<rparr>
      | msg_node # rest \<Rightarrow>
          (case mt_deal_front P J (mt_RegisterCallBacks Map.empty) msg_node (objects L) of
             (_, Raised f heap) \<Rightarrow> L\<lparr>worker_at := Terminated f, objects := heap\<rparr>
           | (es, Returned heap) \<Rightarrow>
               L\<lparr>msg_queue := rest, worker_at := next_pc, objects := heap, handled := handled L @ [msg_node],
                 turn_log := turn_log L @ [(objects L, es, heap)]\<rparr>))"

text \<open>
  One step of \<open>DealMsg\<close>: test the condition under the mutex and begin to wait, take a message, or,
  once \<open>_b_stop\<close> is seen, empty the queue and leave. A \<open>Blocked\<close> worker has no step of its own.
\<close>

definition mt_DealMsg :: "platform \<Rightarrow> 'j json \<Rightarrow> mt_logic \<Rightarrow> mt_logic option" where
  "mt_DealMsg P J L =
     (case worker_at L of
        Ready \<Rightarrow>
          Some (if b_stop L then L\<lparr>worker_at := Draining\<rparr>
                else if msg_queue L = [] then L\<lparr>worker_at := Checked\<rparr>
                else mt_take_front P J Ready L)
      | Checked \<Rightarrow> Some (L\<lparr>worker_at := Blocked\<rparr>)
      | Draining \<Rightarrow>
          Some (if msg_queue L \<noteq> [] then mt_take_front P J Draining L else L\<lparr>worker_at := Finished\<rparr>)
      | _ \<Rightarrow> None)"

text \<open>\<open>~LogicSystem\<close>, statement by statement; none of them takes the mutex.\<close>

definition mt_destruct :: "mt_logic \<Rightarrow> mt_logic option" where
  "mt_destruct L =
     (case destr L of
        Not_Begun \<Rightarrow> Some (L\<lparr>b_stop := True, destr := Stop_Set\<rparr>)
      | Stop_Set \<Rightarrow> Some (L\<lparr>worker_at := wake (worker_at L), destr := Notified\<rparr>)
      | Notified \<Rightarrow> (if worker_at L = Finished then Some (L\<lparr>destr := Joined\<rparr>) else None)
      | Joined \<Rightarrow> None)"

text \<open>
  The interleavings. A posting thread needs the mutex; a condition variable may wake spuriously; the
  network threads change session objects under the sessions' own locks.
\<close>

inductive mt_logic_step :: "platform \<Rightarrow> 'j json \<Rightarrow> mt_logic \<Rightarrow> mt_logic \<Rightarrow> bool" for P J where
  worker: "mt_DealMsg P J L = Some L' \<Longrightarrow> mt_logic_step P J L L'"
| post: "alive L \<Longrightarrow> mutex_free L \<Longrightarrow> mt_logic_step P J L (mt_PostMsgToQue msg L)"
| notify: "alive L \<Longrightarrow> 0 < notifies L \<Longrightarrow> mt_logic_step P J L (mt_notify_one L)"
| spurious: "worker_at L = Blocked \<Longrightarrow> mt_logic_step P J L (L\<lparr>worker_at := Ready\<rparr>)"
| network: "alive L \<Longrightarrow> mt_logic_step P J L (L\<lparr>objects := heap\<rparr>)"
| destroy: "alive L \<Longrightarrow> mt_destruct L = Some L' \<Longrightarrow> mt_logic_step P J L L'"

inductive_cases mt_logic_stepE [consumes 1, case_names worker post notify spurious network destroy]: "mt_logic_step P J L L'"

section \<open>One message and its turn\<close>

text \<open>
  What a turn has to do: for a greeting, one call of \<open>Send\<close> of the session the message points to, with the
  reply to its text, which has its effects on that session and nothing else; for any other message nothing.
\<close>

definition mt_turn :: "platform \<Rightarrow> 'j json \<Rightarrow> logic_node \<Rightarrow> turn \<Rightarrow> bool" where
  "mt_turn P J nd t \<longleftrightarrow>
     (case t of (heap, es, heap') \<Rightarrow>
        if recv_msg_id (ln_recvnode nd) = short_of_int MSG_HELLO_WORD
        then \<exists>reply i s. mt_hello_reply J (node_text (ln_recvnode nd)) = Inr (reply, i) \<and>
          mt_Send_string P reply i (heap (ln_session nd)) = (es, Returned s) \<and> heap' = heap(ln_session nd := s)
        else es = [] \<and> heap' = heap)"

lemma mt_deal_front_turn:
  "mt_deal_front P J (mt_RegisterCallBacks Map.empty) nd heap = (es, Returned heap') \<Longrightarrow> mt_turn P J nd (heap, es, heap')"
  by (auto simp: mt_turn_def mt_deal_front_def mt_RegisterCallBacks_def mt_HelloWordCallBack_def Let_def
      split: if_splits sum.splits prod.splits outcome.splits)

lemma mt_take_front_cases:
  assumes "msg_queue L = nd # rest" "alive (mt_take_front P J pc L)"
  shows "pops (mt_turn P J) L (mt_take_front P J pc L)"
    and "worker_at (mt_take_front P J pc L) = pc" and "notifies (mt_take_front P J pc L) = notifies L"
  using assms
  by (auto simp: mt_take_front_def pops_def alive_def mt_deal_front_turn split: prod.splits outcome.splits)

lemma mt_take_front_lists: "pops (mt_turn P J) L (mt_take_front P J pc L) \<or> keeps L (mt_take_front P J pc L)"
  by (auto simp: mt_take_front_def pops_def keeps_def mt_deal_front_turn split: list.splits prod.splits outcome.splits)

lemma mt_take_front_worker:
  "worker_at (mt_take_front P J pc L) = pc \<or> (\<exists>f. worker_at (mt_take_front P J pc L) = Terminated f)"
  by (auto simp: mt_take_front_def split: list.splits prod.splits outcome.splits)

section \<open>The contract\<close>

lemma mt_take_front_awake:
  "pc \<noteq> Blocked \<Longrightarrow> worker_at (mt_take_front P J pc L) \<noteq> Blocked"
  "pc \<noteq> Checked \<Longrightarrow> worker_at (mt_take_front P J pc L) \<noteq> Checked"
  "pc \<noteq> Finished \<Longrightarrow> worker_at (mt_take_front P J pc L) \<noteq> Finished"
  using mt_take_front_worker [of P J pc L] by auto

lemma mt_fifo_worker: "fifo_worker (mt_logic_step P J) (mt_turn P J)"
proof
  fix L L' :: mt_logic
  assume step: "mt_logic_step P J L L'"
  show "alive L"
    using step by (cases rule: mt_logic_stepE) (auto simp: alive_def mt_DealMsg_def split: worker.splits)
  show "pushes L L' \<or> pops (mt_turn P J) L L' \<or> keeps L L'"
    using step
  proof (cases rule: mt_logic_stepE)
    case worker
    then show ?thesis
      using mt_take_front_lists [of P J L] by (auto simp: mt_DealMsg_def keeps_def split: worker.splits if_splits)
  next
    case (post msg)
    then show ?thesis by (auto simp: mt_PostMsgToQue_def Let_def pushes_def)
  qed (auto simp: keeps_def mt_notify_one_def mt_destruct_def split: destructor.splits if_splits)
  show "covered L'" if "covered L"
    using step
  proof (cases rule: mt_logic_stepE)
    case worker
    with that show ?thesis
      by (auto simp: mt_DealMsg_def mt_take_front_awake covered_def
          split: worker.splits if_splits)
  next
    case (post msg)
    with that show ?thesis
      by (cases "worker_at L = Blocked")
        (auto simp: mt_PostMsgToQue_def Let_def covered_def mutex_free_def)
  next
    case notify
    with that show ?thesis by (auto simp: mt_notify_one_def covered_def wake_def)
  next
    case network
    with that show ?thesis by (simp add: covered_def)
  next
    case destroy
    with that show ?thesis
      by (auto simp: mt_destruct_def covered_def wake_def split: destructor.splits if_splits)
  qed (simp add: covered_def)
  show "worker_at L' = Finished \<Longrightarrow> worker_at L \<noteq> Finished \<Longrightarrow> msg_queue L' = []"
    using step
  proof (cases rule: mt_logic_stepE)
    case worker
    assume fin: "worker_at L' = Finished" "worker_at L \<noteq> Finished"
    with worker show ?thesis
      by (auto simp: mt_DealMsg_def mt_take_front_awake split: worker.splits if_splits)
  qed (auto simp: mt_PostMsgToQue_def mt_notify_one_def Let_def wake_def mt_destruct_def split: destructor.splits if_splits)
qed

interpretation mt_worker: fifo_worker "mt_logic_step P J" "mt_turn P J"
  for P J
  by (rule mt_fifo_worker)

section \<open>Progress\<close>

text \<open>As long as the worker has not left its loop, it is blocked or has a step.\<close>

lemma mt_DealMsg_enabled:
  "mt_DealMsg P J L = None \<longleftrightarrow> worker_at L = Blocked \<or> worker_at L = Finished \<or> \<not> alive L"
  by (auto simp: mt_DealMsg_def alive_def split: worker.splits)

text \<open>The worker alone, for a bounded number of steps.\<close>

fun mt_worker_run :: "platform \<Rightarrow> 'j json \<Rightarrow> nat \<Rightarrow> mt_logic \<Rightarrow> mt_logic" where
  "mt_worker_run P J 0 L = L"
| "mt_worker_run P J (Suc n) L =
     (case mt_DealMsg P J L of None \<Rightarrow> L | Some L' \<Rightarrow> mt_worker_run P J n L')"

lemma mt_worker_run_steps: "(mt_logic_step P J)\<^sup>*\<^sup>* L (mt_worker_run P J n L)"
proof (induction n arbitrary: L)
  case (Suc n)
  show ?case
  proof (cases "mt_DealMsg P J L")
    case (Some L')
    then have "mt_logic_step P J L L'" by (rule mt_logic_step.worker)
    with Suc [of L'] Some show ?thesis by (simp add: converse_rtranclp_into_rtranclp)
  qed simp
qed simp

text \<open>After the stop the worker empties the queue and leaves, unless a callback throws.\<close>

lemma mt_drains:
  fixes P J
  assumes "worker_at L = Draining"
  defines "L' \<equiv> mt_worker_run P J (Suc (length (msg_queue L))) L"
  shows "worker_at L' = Finished \<and> msg_queue L' = [] \<and> handled L' = handled L @ msg_queue L \<or> \<not> alive L'"
  using assms(1) unfolding L'_def
proof (induction "msg_queue L" arbitrary: L)
  case Nil
  then show ?case by (simp add: mt_DealMsg_def)
next
  case (Cons nd rest)
  let ?L1 = "mt_take_front P J Draining L"
  have deal: "mt_DealMsg P J L = Some ?L1"
    using Cons.prems Cons.hyps(2) by (auto simp: mt_DealMsg_def)
  have q: "msg_queue L = nd # rest" using Cons.hyps(2) by simp
  show ?case
  proof (cases "alive ?L1")
    case True
    note c = mt_take_front_cases [OF q True]
    then have "msg_queue ?L1 = rest" "handled ?L1 = handled L @ [nd]" "worker_at ?L1 = Draining"
      using q by (auto simp: pops_def)
    with Cons.hyps(1) [of ?L1] deal q show ?thesis by simp
  next
    case False
    then obtain f where "worker_at ?L1 = Terminated f" by (auto simp: alive_def split: worker.splits)
    then have "mt_DealMsg P J ?L1 = None" by (simp add: mt_DealMsg_def)
    with deal False show ?thesis by (cases "length (msg_queue L)") simp_all
  qed
qed

lemma mt_stops:
  fixes P J
  assumes "worker_at L = Ready" "b_stop L"
  defines "L' \<equiv> mt_worker_run P J (length (msg_queue L) + 2) L"
  shows "worker_at L' = Finished \<and> msg_queue L' = [] \<and> handled L' = handled L @ msg_queue L \<or> \<not> alive L'"
proof -
  let ?L1 = "L\<lparr>worker_at := Draining\<rparr>"
  have "L' = mt_worker_run P J (Suc (length (msg_queue ?L1))) ?L1"
    using assms(1,2) unfolding L'_def by (simp add: mt_DealMsg_def)
  then show ?thesis using mt_drains [of ?L1 P J] by simp
qed

text \<open>
  The notification of the destructor can fall between the worker's test of \<open>_b_stop\<close> and its wait:
  the worker then blocks although the destructor is waiting for it.
\<close>

definition mt_hang :: "session_heap \<Rightarrow> mt_logic" where
  "mt_hang heap = (new_logic heap)\<lparr>b_stop := True, worker_at := Blocked, destr := Notified\<rparr>"

lemma mt_hang_reachable: "(mt_logic_step P J)\<^sup>*\<^sup>* (new_logic heap) (mt_hang heap)"
proof -
  let ?L = "new_logic heap :: mt_logic"
  have "mt_logic_step P J ?L (?L\<lparr>worker_at := Checked\<rparr>)"
    by (rule mt_logic_step.worker) (simp add: mt_DealMsg_def new_logic_def)
  moreover have "mt_logic_step P J (?L\<lparr>worker_at := Checked\<rparr>) (?L\<lparr>b_stop := True, worker_at := Checked, destr := Stop_Set\<rparr>)"
    by (rule mt_logic_step.destroy) (simp_all add: mt_destruct_def new_logic_def alive_def)
  moreover have "mt_logic_step P J (?L\<lparr>b_stop := True, worker_at := Checked, destr := Stop_Set\<rparr>)
      (?L\<lparr>b_stop := True, worker_at := Checked, destr := Notified\<rparr>)"
    by (rule mt_logic_step.destroy) (simp_all add: mt_destruct_def new_logic_def alive_def)
  moreover have "mt_logic_step P J (?L\<lparr>b_stop := True, worker_at := Checked, destr := Notified\<rparr>) (mt_hang heap)"
    by (rule mt_logic_step.worker) (simp add: mt_DealMsg_def mt_hang_def new_logic_def)
  ultimately show ?thesis
    by (meson converse_rtranclp_into_rtranclp r_into_rtranclp)
qed

lemma mt_hang_stuck: "mt_DealMsg P J (mt_hang heap) = None" "mt_destruct (mt_hang heap) = None"
  by (simp_all add: mt_DealMsg_def mt_destruct_def mt_hang_def)

section \<open>Exceptions\<close>

text \<open>The two ways the callback can throw, for the message \<open>nd\<close> whose session is \<open>s\<close>.\<close>

definition mt_throws :: "'j json \<Rightarrow> logic_node \<Rightarrow> v3_session \<Rightarrow> fault \<Rightarrow> bool" where
  "mt_throws J nd s f \<longleftrightarrow>
     (case mt_hello_reply J (node_text (ln_recvnode nd)) of
        Inl g \<Rightarrow> f = g
      | Inr (reply, _) \<Rightarrow> 32764 \<le> length reply \<and> length reply \<le> 65530 \<and>
          length (send_que s) \<le> MAX_SENDQUEUE \<and> f = Bad_Array_New_Length)"

lemma mt_callback_throws:
  assumes "recv_msg_id (ln_recvnode nd) = short_of_int MSG_HELLO_WORD" "mt_throws J nd (heap (ln_session nd)) f"
  shows "\<exists>heap'. mt_deal_front P J (mt_RegisterCallBacks Map.empty) nd heap = ([], Raised f heap')"
proof (cases "mt_hello_reply J (node_text (ln_recvnode nd))")
  case (Inl g)
  then show ?thesis
    using assms by (simp add: mt_deal_front_def mt_RegisterCallBacks_def mt_HelloWordCallBack_def mt_throws_def)
next
  case (Inr r)
  obtain reply i where r: "r = (reply, i)" by (cases r)
  then have "mt_SendNode P (reply @ [0]) (short_of_int (int (length reply))) i = Inl f"
    using assms(2) Inr by (auto simp: mt_throws_def mt_SendNode_eq intro!: v3_SendNode_throws)
  then show ?thesis
    using assms Inr r by (simp add: mt_deal_front_def mt_RegisterCallBacks_def mt_HelloWordCallBack_def
        mt_throws_def mt_Send_string_def)
qed

lemma mt_throw_ends_process:
  assumes L: "worker_at L = Ready" "\<not> b_stop L" "msg_queue L = nd # rest"
    and deal: "mt_deal_front P J (mt_RegisterCallBacks Map.empty) nd (objects L) = (es, Raised f heap')"
  shows "\<exists>L'. mt_DealMsg P J L = Some L' \<and> worker_at L' = Terminated f \<and> (\<forall>L''. \<not> mt_logic_step P J L' L'')"
proof -
  have "mt_DealMsg P J L = Some (L\<lparr>worker_at := Terminated f, objects := heap'\<rparr>)"
    using L deal by (simp add: mt_DealMsg_def mt_take_front_def)
  moreover have "\<not> mt_logic_step P J (L\<lparr>worker_at := Terminated f, objects := heap'\<rparr>) L''" for L''
    using mt_worker.step_alive by (fastforce simp: alive_def)
  ultimately show ?thesis by (intro exI conjI allI) auto
qed

end
