(* ===== verification/Io_Service_Pool.thy ===== *)
theory Io_Service_Pool
  imports Cpp_Prelude
begin

text \<open>
  \<open>AsioIOServicePool\<close> of \<open>Server-version-3\<close> (\<open>AsioServicePool.cpp\<close>) and of
  \<open>Server-version-3-multi-thread\<close> (\<open>AsioIOServicePool.cpp\<close>): a vector of \<open>io_context\<close>s, each run by a
  thread and kept alive by a work object, handed out in turn. An \<open>io_context\<close> is its index. The locale
  \<open>round_robin\<close> states what one \<open>GetIOService\<close> does; that the load is balanced follows for both pools.
\<close>

record io_pool =
  io_stopped :: "bool list"      \<comment> \<open>\<open>_ioServices\<close>: whether each has been stopped\<close>
  works :: "bool list"           \<comment> \<open>whether each work object is still there\<close>
  pool_threads :: "bool list"    \<comment> \<open>whether each thread is joinable\<close>
  next_io_service :: nat

section \<open>Joining the threads\<close>

text \<open>
  Thread \<open>i\<close> executes \<open>_ioServices[i].run()\<close>, which returns when the context is stopped, or has
  neither a work object nor operations outstanding (\<open>busy\<close>). \<open>None\<close>: \<open>join\<close> never returns. Joining a
  thread twice throws.
\<close>

definition run_returns :: "(nat \<Rightarrow> bool) \<Rightarrow> io_pool \<Rightarrow> nat \<Rightarrow> bool" where
  "run_returns busy p i \<longleftrightarrow> io_stopped p ! i \<or> \<not> works p ! i \<and> \<not> busy i"

fun join_threads :: "(nat \<Rightarrow> bool) \<Rightarrow> nat \<Rightarrow> bool list \<Rightarrow> (fault + bool list) option" where
  "join_threads returns i [] = Some (Inr [])"
| "join_threads returns i (joinable # ts) =
     (if \<not> joinable then Some (Inl System_Exception)
      else if \<not> returns i then None
      else case join_threads returns (Suc i) ts of
             None \<Rightarrow> None
           | Some (Inl f) \<Rightarrow> Some (Inl f)
           | Some (Inr ts') \<Rightarrow> Some (Inr (False # ts')))"

lemma join_threads_all:
  "join_threads returns i (replicate n True) =
     (if \<forall>j<n. returns (i + j) then Some (Inr (replicate n False)) else None)"
proof (induction n arbitrary: i)
  case (Suc n)
  have "(\<forall>j<Suc n. returns (i + j)) \<longleftrightarrow> returns i \<and> (\<forall>j<n. returns (Suc i + j))"
    by (simp add: All_less_Suc2)
  with Suc.IH [of "Suc i"] show ?case by (simp only: replicate_Suc join_threads.simps) simp
qed simp

section \<open>The single-threaded server's pool\<close>

definition v3_AsioIOServicePool :: "nat \<Rightarrow> io_pool" where
  "v3_AsioIOServicePool n =
     \<lparr>io_stopped = replicate n False, works = replicate n True, pool_threads = replicate n True,
      next_io_service = 0\<rparr>"

definition v3_GetIOService :: "io_pool \<Rightarrow> (fault + nat) \<times> io_pool" where
  "v3_GetIOService p =
     (let i = next_io_service p; n = length (io_stopped p); p1 = p\<lparr>next_io_service := i + 1\<rparr> in
      if \<not> i < n then (Inl Out_Of_Bounds, p1)
      else (Inr i, if next_io_service p1 = n then p1\<lparr>next_io_service := 0\<rparr> else p1))"

definition v3_Stop :: "(nat \<Rightarrow> bool) \<Rightarrow> io_pool \<Rightarrow> (fault + io_pool) option" where
  "v3_Stop busy p =
     (let p1 = p\<lparr>works := map (\<lambda>_. False) (works p)\<rparr> in
      case join_threads (run_returns busy p1) 0 (pool_threads p1) of
        None \<Rightarrow> None
      | Some (Inl f) \<Rightarrow> Some (Inl f)
      | Some (Inr ts) \<Rightarrow> Some (Inr (p1\<lparr>pool_threads := ts\<rparr>)))"

section \<open>The multi-threaded server's pool\<close>

definition mt_AsioIOServicePool :: "nat \<Rightarrow> io_pool" where
  "mt_AsioIOServicePool n =
     \<lparr>io_stopped = replicate n False, works = replicate n True, pool_threads = replicate n True,
      next_io_service = 0\<rparr>"

definition mt_GetIOService :: "io_pool \<Rightarrow> (fault + nat) \<times> io_pool" where
  "mt_GetIOService p =
     (let i = next_io_service p; n = length (io_stopped p); p1 = p\<lparr>next_io_service := i + 1\<rparr> in
      if \<not> i < n then (Inl Out_Of_Bounds, p1)
      else (Inr i, if next_io_service p1 = n then p1\<lparr>next_io_service := 0\<rparr> else p1))"

text \<open>\<open>work->get_io_context().stop(); work.reset()\<close>, for each work object.\<close>

fun stop_works :: "bool list \<Rightarrow> fault + bool list \<times> bool list" where
  "stop_works [] = Inr ([], [])"
| "stop_works (present # ws) =
     (if \<not> present then Inl Null_Deref
      else case stop_works ws of Inl f \<Rightarrow> Inl f | Inr (stopped, ws') \<Rightarrow> Inr (True # stopped, False # ws'))"

definition mt_Stop :: "(nat \<Rightarrow> bool) \<Rightarrow> io_pool \<Rightarrow> (fault + io_pool) option" where
  "mt_Stop busy p =
     (case stop_works (works p) of
        Inl f \<Rightarrow> Some (Inl f)
      | Inr (stopped, ws) \<Rightarrow>
          (let p1 = p\<lparr>io_stopped := stopped, works := ws\<rparr> in
           case join_threads (run_returns busy p1) 0 (pool_threads p1) of
             None \<Rightarrow> None
           | Some (Inl f) \<Rightarrow> Some (Inl f)
           | Some (Inr ts) \<Rightarrow> Some (Inr (p1\<lparr>pool_threads := ts\<rparr>))))"

lemma stop_works_all: "stop_works (replicate n True) = Inr (replicate n True, replicate n False)"
  by (induction n) auto

text \<open>Stopping a pool: its first call and a second one.\<close>

lemma mt_Stop_ok:
  "mt_Stop busy (mt_AsioIOServicePool n) =
     Some (Inr \<lparr>io_stopped = replicate n True, works = replicate n False, pool_threads = replicate n False,
       next_io_service = 0\<rparr>)"
proof -
  let ?p = "(mt_AsioIOServicePool n)\<lparr>io_stopped := replicate n True, works := replicate n False\<rparr>"
  have "join_threads (run_returns busy ?p) 0 (replicate n True) = Some (Inr (replicate n False))"
    by (simp add: join_threads_all run_returns_def)
  then show ?thesis
    by (simp add: mt_Stop_def mt_AsioIOServicePool_def stop_works_all)
qed

lemma v3_Stop_eq:
  "v3_Stop busy (v3_AsioIOServicePool n) =
     (if \<exists>i<n. busy i then None
      else Some (Inr \<lparr>io_stopped = replicate n False, works = replicate n False, pool_threads = replicate n False,
        next_io_service = 0\<rparr>))"
proof -
  define p where "p = \<lparr>io_stopped = replicate n False, works = replicate n False, pool_threads = replicate n True,
    next_io_service = 0\<rparr>"
  have "run_returns busy p j \<longleftrightarrow> \<not> busy j" if "j < n" for j
    using that by (simp add: run_returns_def p_def)
  then have "join_threads (run_returns busy p) 0 (replicate n True) =
      (if \<exists>i<n. busy i then None else Some (Inr (replicate n False)))"
    by (auto simp: join_threads_all)
  then show ?thesis
    by (simp add: v3_Stop_def v3_AsioIOServicePool_def Let_def p_def)
qed

text \<open>The second call finds the work objects gone, or the threads joined.\<close>

lemma mt_Stop_twice:
  "0 < n \<Longrightarrow> \<exists>p. mt_Stop busy (mt_AsioIOServicePool n) = Some (Inr p) \<and> mt_Stop busy p = Some (Inl Null_Deref)"
  unfolding mt_Stop_ok by (cases n) (simp_all add: mt_Stop_def)

lemma v3_Stop_twice:
  "0 < n \<Longrightarrow> v3_Stop busy \<lparr>io_stopped = replicate n False, works = replicate n False, pool_threads = replicate n False,
     next_io_service = 0\<rparr> = Some (Inl System_Exception)"
  by (cases n) (simp_all add: v3_Stop_def)

section \<open>Round robin\<close>

fun call_times :: "('p \<Rightarrow> (fault + nat) \<times> 'p) \<Rightarrow> nat \<Rightarrow> 'p \<Rightarrow> (fault + nat) list \<times> 'p" where
  "call_times get 0 p = ([], p)"
| "call_times get (Suc k) p = (let (r, p1) = get p; (rs, p2) = call_times get k p1 in (r # rs, p2))"

lemma count_mod:
  assumes "j < n"
  shows "length (filter (\<lambda>i. i mod n = j) [0..<k]) = k div n + (if j < k mod n then 1 else 0)"
  using assms by (induction k) (auto simp: mod_Suc div_Suc)

locale round_robin =
  fixes get :: "'p \<Rightarrow> (fault + nat) \<times> 'p"
    and members :: "'p \<Rightarrow> nat"
    and turn :: "'p \<Rightarrow> nat"
  assumes get_turn: "turn p < members p \<Longrightarrow>
      \<exists>p'. get p = (Inr (turn p), p') \<and> members p' = members p \<and> turn p' = Suc (turn p) mod members p"
begin

lemma calls_in_turn:
  assumes "turn p < members p"
  shows "fst (call_times get k p) = map (\<lambda>i. Inr ((turn p + i) mod members p)) [0..<k]"
  using assms
proof (induction k arbitrary: p)
  case (Suc k)
  obtain p' where g: "get p = (Inr (turn p), p')" "members p' = members p" "turn p' = Suc (turn p) mod members p"
    using get_turn [OF Suc.prems] by blast
  then have "fst (call_times get k p') = map (\<lambda>i. Inr ((turn p' + i) mod members p)) [0..<k]"
    using Suc by (metis mod_less_divisor not_less_zero gr_zeroI)
  moreover have "[0..<Suc k] = 0 # map Suc [0..<k]" by (simp add: map_Suc_upt upt_conv_Cons)
  ultimately show ?case
    using g Suc.prems by (auto simp: Let_def mod_simps split: prod.splits)
qed simp

text \<open>After \<open>k\<close> calls on a fresh pool no member has been handed out more than once more than another.\<close>

lemma balanced:
  assumes "turn p = 0" "j < members p"
  shows "length (filter (\<lambda>r. r = Inr j) (fst (call_times get k p))) =
    k div members p + (if j < k mod members p then 1 else 0)"
proof -
  have "fst (call_times get k p) = map (\<lambda>i. Inr (i mod members p)) [0..<k]"
    using assms by (simp add: calls_in_turn)
  then show ?thesis using count_mod [OF assms(2), of k] by (simp add: filter_map o_def)
qed

end

interpretation v3_pool: round_robin v3_GetIOService "\<lambda>p. length (io_stopped p)" next_io_service
  by unfold_locales (auto simp: v3_GetIOService_def Let_def)

interpretation mt_pool: round_robin mt_GetIOService "\<lambda>p. length (io_stopped p)" next_io_service
  by unfold_locales (auto simp: mt_GetIOService_def Let_def)

end
