(* ===== verification/Session_Registry.thy ===== *)
theory Session_Registry
  imports Io_Service_Pool
begin

text \<open>
  \<open>CServer\<close> of the three servers: the accept loop and the map from uuids to sessions. A session object
  is the number of its allocation; \<open>gen k\<close> is the uuid its constructor draws (the generator of Boost is
  not part of the repository). The locale \<open>session_registry\<close> states what accepting and clearing do to
  the map, and derives from it which sessions the server holds after any sequence of the two.
\<close>

record server =
  sessions :: "string \<rightharpoonup> nat"
  next_object :: nat
  accepting :: "nat option"      \<comment> \<open>the session whose socket waits for a connection\<close>

definition new_server :: server where
  "new_server = \<lparr>sessions = Map.empty, next_object = 0, accepting = None\<rparr>"

text \<open>\<open>std::map::insert\<close> keeps an element that is already there.\<close>

definition map_insert :: "'k \<Rightarrow> 'v \<Rightarrow> ('k \<rightharpoonup> 'v) \<Rightarrow> ('k \<rightharpoonup> 'v)" where
  "map_insert k v m = (case m k of None \<Rightarrow> m(k \<mapsto> v) | Some _ \<Rightarrow> m)"

section \<open>The echo server and the single-threaded server\<close>

text \<open>One network thread runs all handlers, so each of these is one step.\<close>

type_synonym v2_server = server

definition v2_StartAccept :: "v2_server \<Rightarrow> v2_server" where
  "v2_StartAccept srv = srv\<lparr>next_object := Suc (next_object srv), accepting := Some (next_object srv)\<rparr>"

definition v2_CServer :: server where
  "v2_CServer = v2_StartAccept new_server"

definition v2_HandleAccept :: "(nat \<Rightarrow> string) \<Rightarrow> nat \<Rightarrow> bool \<Rightarrow> v2_server \<Rightarrow> v2_server" where
  "v2_HandleAccept gen new_session error srv =
     v2_StartAccept
       (if \<not> error then srv\<lparr>sessions := map_insert (gen new_session) new_session (sessions srv)\<rparr> else srv)"

definition v2_clear_session :: "string \<Rightarrow> v2_server \<Rightarrow> v2_server" where
  "v2_clear_session u srv = srv\<lparr>sessions := (sessions srv)(u := None)\<rparr>"

definition v3_StartAccept :: "server \<Rightarrow> server" where
  "v3_StartAccept srv = srv\<lparr>next_object := Suc (next_object srv), accepting := Some (next_object srv)\<rparr>"

definition v3_CServer :: server where
  "v3_CServer = v3_StartAccept new_server"

definition v3_HandleAccept :: "(nat \<Rightarrow> string) \<Rightarrow> nat \<Rightarrow> bool \<Rightarrow> server \<Rightarrow> server" where
  "v3_HandleAccept gen new_session error srv =
     v3_StartAccept
       (if \<not> error then srv\<lparr>sessions := map_insert (gen new_session) new_session (sessions srv)\<rparr> else srv)"

definition v3_clear_session :: "string \<Rightarrow> server \<Rightarrow> server" where
  "v3_clear_session u srv = srv\<lparr>sessions := (sessions srv)(u := None)\<rparr>"

text \<open>A completed accept, for the session waiting for it, and a session that asks to be cleared.\<close>

datatype server_event = Accepted bool | Cleared nat

fun v2_server_event :: "(nat \<Rightarrow> string) \<Rightarrow> v2_server \<Rightarrow> server_event \<Rightarrow> v2_server" where
  "v2_server_event gen srv (Accepted error) =
     (case accepting srv of None \<Rightarrow> srv | Some k \<Rightarrow> v2_HandleAccept gen k error srv)"
| "v2_server_event gen srv (Cleared k) = v2_clear_session (gen k) srv"

fun v3_server_event :: "(nat \<Rightarrow> string) \<Rightarrow> server \<Rightarrow> server_event \<Rightarrow> server" where
  "v3_server_event gen srv (Accepted error) =
     (case accepting srv of None \<Rightarrow> srv | Some k \<Rightarrow> v3_HandleAccept gen k error srv)"
| "v3_server_event gen srv (Cleared k) = v3_clear_session (gen k) srv"

section \<open>The contract of a registry\<close>

text \<open>The objects that should be registered: accepted, and not cleared since.\<close>

fun registered :: "nat \<Rightarrow> nat set \<Rightarrow> server_event list \<Rightarrow> nat set" where
  "registered k R [] = R"
| "registered k R (Accepted error # es) = registered (Suc k) (if error then R else insert k R) es"
| "registered k R (Cleared j # es) = registered k (R - {j}) es"

locale session_registry =
  fixes event :: "'s \<Rightarrow> server_event \<Rightarrow> 's"
    and inv :: "'s \<Rightarrow> bool"
    and turn :: "'s \<Rightarrow> nat"
    and members :: "'s \<Rightarrow> nat set"
  assumes accept: "inv s \<Longrightarrow> inv (event s (Accepted error)) \<and> turn (event s (Accepted error)) = Suc (turn s) \<and>
      members (event s (Accepted error)) = (if error then members s else insert (turn s) (members s))"
    and clear: "inv s \<Longrightarrow> inv (event s (Cleared j)) \<and> turn (event s (Cleared j)) = turn s \<and>
      members (event s (Cleared j)) = members s - {j}"
begin

lemma registry:
  "inv s \<Longrightarrow> inv (foldl event s es) \<and> members (foldl event s es) = registered (turn s) (members s) es"
proof (induction es arbitrary: s)
  case (Cons e es)
  then show ?case by (cases e) (simp_all add: accept clear)
qed simp

end

text \<open>
  The map is faithful: the uuid of a registered object leads to that object. One accept is
  outstanding, for an object that was never registered.
\<close>

definition server_inv :: "(nat \<Rightarrow> string) \<Rightarrow> server \<Rightarrow> bool" where
  "server_inv gen srv \<longleftrightarrow> accepting srv = Some (next_object srv - 1) \<and> 0 < next_object srv \<and>
     (\<forall>u k. sessions srv u = Some k \<longrightarrow> u = gen k \<and> Suc k < next_object srv)"

definition held :: "server \<Rightarrow> nat set" where
  "held srv = ran (sessions srv)"

lemma held_iff:
  "server_inv gen srv \<Longrightarrow> k \<in> held srv \<longleftrightarrow> sessions srv (gen k) = Some k"
  by (auto simp: server_inv_def held_def ran_def)

lemma server_inv_accept:
  assumes inj: "inj gen" and inv: "server_inv gen srv"
  defines "k \<equiv> next_object srv - 1"
  defines "srv' \<equiv> srv\<lparr>sessions := map_insert (gen k) k (sessions srv), next_object := Suc (next_object srv),
    accepting := Some (next_object srv)\<rparr>"
  shows "server_inv gen srv'" and "held srv' = insert k (held srv)"
proof -
  have "sessions srv (gen k) = None"
  proof (cases "sessions srv (gen k)")
    case (Some j)
    then have "j = k" "Suc j < next_object srv"
      using inv injD [OF inj, of k j] by (auto simp: server_inv_def)
    then show ?thesis by (simp add: k_def)
  qed
  then have s: "sessions srv' = (sessions srv)(gen k \<mapsto> k)" "sessions srv (gen k) = None"
    by (simp_all add: srv'_def map_insert_def)
  show "server_inv gen srv'"
    unfolding server_inv_def s using inv
    by (auto simp: server_inv_def srv'_def k_def dest: Suc_lessD)
  show "held srv' = insert k (held srv)"
    unfolding held_def s(1) using s(2) by (rule ran_map_upd)
qed

lemma server_inv_clear:
  fixes j
  assumes inj: "inj gen" and inv: "server_inv gen srv"
  defines "srv' \<equiv> srv\<lparr>sessions := (sessions srv)(gen j := None)\<rparr>"
  shows "server_inv gen srv'" and "held srv' = held srv - {j}"
proof -
  show i: "server_inv gen srv'" using inv by (auto simp: server_inv_def srv'_def)
  show "held srv' = held srv - {j}"
    using held_iff [OF inv] held_iff [OF i] by (auto simp: srv'_def inj_eq [OF inj] split: if_splits)
qed

lemma v3_session_registry:
  assumes inj: "inj gen"
  shows "session_registry (v3_server_event gen) (server_inv gen) (\<lambda>srv. next_object srv - 1) held"
proof
  fix s error
  assume inv: "server_inv gen s"
  then have acc: "accepting s = Some (next_object s - 1)" "0 < next_object s" by (simp_all add: server_inv_def)
  show "server_inv gen (v3_server_event gen s (Accepted error)) \<and>
      next_object (v3_server_event gen s (Accepted error)) - 1 = Suc (next_object s - 1) \<and>
      held (v3_server_event gen s (Accepted error)) = (if error then held s else insert (next_object s - 1) (held s))"
    using server_inv_accept [OF inj inv] inv acc
    by (auto simp: v3_HandleAccept_def v3_StartAccept_def server_inv_def held_def intro: Suc_lessD)
next
  fix s j
  assume "server_inv gen s"
  then show "server_inv gen (v3_server_event gen s (Cleared j)) \<and>
      next_object (v3_server_event gen s (Cleared j)) - 1 = next_object s - 1 \<and>
      held (v3_server_event gen s (Cleared j)) = held s - {j}"
    using server_inv_clear [OF inj] by (simp add: v3_clear_session_def)
qed

lemma v2_session_registry:
  assumes inj: "inj gen"
  shows "session_registry (v2_server_event gen) (server_inv gen) (\<lambda>srv. next_object srv - 1) held"
proof -
  have "v2_server_event gen srv e = v3_server_event gen srv e" for srv e
    by (cases e) (simp_all add: v2_HandleAccept_def v3_HandleAccept_def v2_StartAccept_def v3_StartAccept_def
        v2_clear_session_def v3_clear_session_def split: option.split)
  then have "v2_server_event gen = v3_server_event gen" by (simp add: fun_eq_iff)
  then show ?thesis using v3_session_registry [OF inj] by simp
qed

text \<open>A generator with distinct results.\<close>

definition numbered :: "nat \<Rightarrow> string" where
  "numbered k = replicate k (CHR ''0'')"

lemma inj_numbered: "inj numbered"
proof (rule injI)
  fix j k
  assume "numbered j = numbered k"
  then have "length (numbered j) = length (numbered k)" by simp
  then show "j = k" by (simp add: numbered_def)
qed

interpretation v3_registry: session_registry "v3_server_event numbered" "server_inv numbered"
  "\<lambda>srv. next_object srv - 1" held
  by (rule v3_session_registry) (rule inj_numbered)

interpretation v2_registry: session_registry "v2_server_event numbered" "server_inv numbered"
  "\<lambda>srv. next_object srv - 1" held
  by (rule v2_session_registry) (rule inj_numbered)

lemma server_inv_new: "server_inv gen v3_CServer" "held v3_CServer = {}" "next_object v3_CServer = 1"
  "v2_CServer = v3_CServer"
  by (simp_all add: server_inv_def held_def v3_CServer_def v3_StartAccept_def new_server_def
      v2_CServer_def v2_StartAccept_def)

end
