(* ===== verification/Mt_Server.thy ===== *)
theory Mt_Server
  imports Session_Registry
begin

text \<open>
  \<open>CServer\<close> of \<open>Server-version-3-multi-thread\<close>. A new session gets the next \<open>io_context\<close> of the pool, so
  its handlers run on another thread than the accept loop: between \<open>Start\<close> and the insertion into the
  map a session may already fail and clear itself. \<open>HandleAccept\<close> is therefore three steps, cut where
  the mutex is taken.
\<close>

text \<open>Where the accept thread stands: in \<open>async_accept\<close>, before the insertion, or before \<open>StartAccept\<close>.\<close>

datatype acceptor = Listening | Inserting nat | Restarting | Failed_With fault

record mt_server = server +
  io_pool_of :: io_pool
  bound_to :: "nat \<rightharpoonup> nat"        \<comment> \<open>the \<open>io_context\<close> of each session's socket\<close>
  acceptor_at :: acceptor
  started :: "nat set"             \<comment> \<open>the sessions whose \<open>Start\<close> was called\<close>
  uncleared :: "nat set"           \<comment> \<open>those of them that have not called \<open>ClearSession\<close>\<close>

definition mt_StartAccept :: "mt_server \<Rightarrow> mt_server" where
  "mt_StartAccept srv =
     (case mt_GetIOService (io_pool_of srv) of
        (Inl f, p) \<Rightarrow> srv\<lparr>io_pool_of := p, acceptor_at := Failed_With f\<rparr>
      | (Inr i, p) \<Rightarrow>
          srv\<lparr>next_object := Suc (next_object srv), accepting := Some (next_object srv), io_pool_of := p,
              bound_to := (bound_to srv)(next_object srv \<mapsto> i), acceptor_at := Listening\<rparr>)"

definition mt_CServer :: "nat \<Rightarrow> mt_server" where
  "mt_CServer n = mt_StartAccept
     \<lparr>sessions = Map.empty, next_object = 0, accepting = None, io_pool_of = mt_AsioIOServicePool n,
      bound_to = Map.empty, acceptor_at = Listening, started = {}, uncleared = {}\<rparr>"

text \<open>\<open>HandleAccept\<close> up to the mutex, the insertion under it, and \<open>ClearSession\<close>.\<close>

definition mt_HandleAccept :: "nat \<Rightarrow> bool \<Rightarrow> mt_server \<Rightarrow> mt_server" where
  "mt_HandleAccept new_session error srv =
     (if \<not> error
      then srv\<lparr>accepting := None, acceptor_at := Inserting new_session, started := insert new_session (started srv),
        uncleared := insert new_session (uncleared srv)\<rparr>
      else srv\<lparr>accepting := None, acceptor_at := Restarting\<rparr>)"

definition mt_insert :: "(nat \<Rightarrow> string) \<Rightarrow> nat \<Rightarrow> mt_server \<Rightarrow> mt_server" where
  "mt_insert gen new_session srv =
     srv\<lparr>sessions := map_insert (gen new_session) new_session (sessions srv), acceptor_at := Restarting\<rparr>"

definition mt_ClearSession :: "string \<Rightarrow> mt_server \<Rightarrow> mt_server" where
  "mt_ClearSession u srv = srv\<lparr>sessions := (sessions srv)(u := None)\<rparr>"

text \<open>
  The accept thread's steps and those of the pool threads. A session calls \<open>ClearSession\<close> with each of its
  operations that fails, so once it has been started it may do so at any time, and more than once.
\<close>

definition mt_clear_step :: "(nat \<Rightarrow> string) \<Rightarrow> nat \<Rightarrow> mt_server \<Rightarrow> mt_server" where
  "mt_clear_step gen k srv = mt_ClearSession (gen k) (srv\<lparr>uncleared := uncleared srv - {k}\<rparr>)"

inductive mt_server_step :: "(nat \<Rightarrow> string) \<Rightarrow> mt_server \<Rightarrow> mt_server \<Rightarrow> bool" for gen where
  accept: "acceptor_at srv = Listening \<Longrightarrow> accepting srv = Some k \<Longrightarrow>
    mt_server_step gen srv (mt_HandleAccept k error srv)"
| insert: "acceptor_at srv = Inserting k \<Longrightarrow> mt_server_step gen srv (mt_insert gen k srv)"
| restart: "acceptor_at srv = Restarting \<Longrightarrow> mt_server_step gen srv (mt_StartAccept srv)"
| clear: "k \<in> started srv \<Longrightarrow> mt_server_step gen srv (mt_clear_step gen k srv)"

inductive_cases mt_server_stepE [consumes 1, case_names accept insert restart clear]: "mt_server_step gen srv srv'"

section \<open>Sessions are spread over the pool\<close>

definition spread :: "nat \<Rightarrow> mt_server \<Rightarrow> bool" where
  "spread n srv \<longleftrightarrow> length (io_stopped (io_pool_of srv)) = n \<and>
     next_io_service (io_pool_of srv) = next_object srv mod n \<and>
     (\<forall>k<next_object srv. bound_to srv k = Some (k mod n))"

lemma spread_StartAccept:
  assumes "0 < n" "spread n srv"
  shows "spread n (mt_StartAccept srv)" and "acceptor_at (mt_StartAccept srv) = Listening"
proof -
  have "next_io_service (io_pool_of srv) < length (io_stopped (io_pool_of srv))"
    using assms by (simp add: spread_def)
  then obtain p where "mt_GetIOService (io_pool_of srv) = (Inr (next_object srv mod n), p)"
    "length (io_stopped p) = n" "next_io_service p = Suc (next_object srv) mod n"
    using mt_pool.get_turn [of "io_pool_of srv"] assms(2) by (auto simp: spread_def mod_Suc_eq)
  with assms show "spread n (mt_StartAccept srv)" "acceptor_at (mt_StartAccept srv) = Listening"
    by (auto simp: mt_StartAccept_def spread_def less_Suc_eq)
qed

lemma spread_step:
  "0 < n \<Longrightarrow> spread n srv \<Longrightarrow> mt_server_step gen srv srv' \<Longrightarrow> spread n srv'"
  using spread_StartAccept [of n srv]
  by (elim mt_server_stepE) (auto simp: spread_def mt_HandleAccept_def mt_insert_def mt_clear_step_def mt_ClearSession_def)

lemma spread_new: "0 < n \<Longrightarrow> spread n (mt_CServer n)"
  unfolding mt_CServer_def
  by (rule spread_StartAccept) (simp_all add: spread_def mt_AsioIOServicePool_def)

lemma spread_reachable:
  assumes "0 < n" "(mt_server_step gen)\<^sup>*\<^sup>* (mt_CServer n) srv"
  shows "spread n srv"
  using assms(2) by (induction rule: rtranclp_induct) (auto intro: spread_new spread_step assms(1))

section \<open>What the map holds\<close>

text \<open>
  Every session still served is in the map or about to be inserted. The converse fails: a session may be
  in the map that cleared itself before it was inserted, and then only another failing operation removes it.
\<close>

definition tracked :: "(nat \<Rightarrow> string) \<Rightarrow> mt_server \<Rightarrow> bool" where
  "tracked gen srv \<longleftrightarrow>
     (\<forall>u k. sessions srv u = Some k \<longrightarrow> u = gen k \<and> k < next_object srv \<and>
        accepting srv \<noteq> Some k \<and> acceptor_at srv \<noteq> Inserting k) \<and>
     (\<forall>k\<in>started srv. k < next_object srv \<and> accepting srv \<noteq> Some k) \<and>
     (\<forall>k\<in>uncleared srv. k \<in> started srv \<and> (sessions srv (gen k) = Some k \<or> acceptor_at srv = Inserting k)) \<and>
     (\<forall>k. accepting srv = Some k \<longrightarrow> k < next_object srv) \<and>
     (\<forall>k. acceptor_at srv = Inserting k \<longrightarrow> k < next_object srv \<and> accepting srv = None)"

lemma tracked_step:
  assumes inj: "inj gen" and t: "tracked gen srv" and step: "mt_server_step gen srv srv'"
  shows "tracked gen srv'"
  using step
proof (cases rule: mt_server_stepE)
  case (accept k error)
  then show ?thesis using t by (auto simp: tracked_def mt_HandleAccept_def)
next
  case (insert k)
  have "sessions srv (gen k) = None"
  proof (cases "sessions srv (gen k)")
    case (Some j)
    then have "gen k = gen j" "j \<noteq> k" using t insert by (auto simp: tracked_def)
    then show ?thesis by (simp add: inj_eq [OF inj])
  qed simp
  then show ?thesis using t insert by (auto simp: tracked_def mt_insert_def map_insert_def inj_eq [OF inj])
next
  case restart
  then show ?thesis
    using t by (auto simp: tracked_def mt_StartAccept_def less_Suc_eq split: prod.splits sum.splits)
next
  case (clear k)
  then show ?thesis using t by (auto simp: tracked_def mt_clear_step_def mt_ClearSession_def inj_eq [OF inj])
qed

lemma tracked_new: "tracked gen (mt_CServer n)"
  by (auto simp: tracked_def mt_CServer_def mt_StartAccept_def split: prod.splits sum.splits)

lemma tracked_reachable:
  assumes "inj gen" "(mt_server_step gen)\<^sup>*\<^sup>* (mt_CServer n) srv"
  shows "tracked gen srv"
  using assms(2) by (induction rule: rtranclp_induct) (auto intro: tracked_new tracked_step assms(1))

text \<open>How it starts.\<close>

lemma mt_CServer_starts:
  assumes "0 < n"
  shows "acceptor_at (mt_CServer n) = Listening" "accepting (mt_CServer n) = Some 0"
    "sessions (mt_CServer n) = Map.empty"
proof -
  have "\<exists>p. mt_GetIOService (mt_AsioIOServicePool n) = (Inr 0, p)"
    using mt_pool.get_turn [of "mt_AsioIOServicePool n"] assms by (auto simp: mt_AsioIOServicePool_def)
  then show "acceptor_at (mt_CServer n) = Listening" "accepting (mt_CServer n) = Some 0"
    "sessions (mt_CServer n) = Map.empty"
    by (auto simp: mt_CServer_def mt_StartAccept_def)
qed

end
