(* ===== verification/Service.thy ===== *)
theory Service
  imports Endpoints V3_Logic Mt_Logic Mt_Server
begin

text \<open>
  A whole server that answers requests: all its connections, the queue of its logic system and the worker,
  with the registry of sessions as a parameter. The network threads, the posting of a message and the
  worker's turns interleave arbitrarily. The locale \<open>request_server\<close> states what a read or write handler
  and a turn of the worker promise about one connection; that every client gets the answers to its own
  requests, in order and nothing else, follows for both servers that have a logic system.
\<close>

section \<open>The state of a server\<close>

record ('r, 's, 'm) netstate =
  reg :: 'r
  conns :: "string \<rightharpoonup> ('s, 'm) endpoint"     \<comment> \<open>by the uuid of the session\<close>
  down :: "fault option"                      \<comment> \<open>the fault the process has ended in\<close>

record 'r service = "('r, v3_session, logic_node) netstate" +
  handed :: "string \<Rightarrow> nat"           \<comment> \<open>how many messages of a session have been pushed\<close>
  logic_que :: "logic_node list"
  dealt :: "logic_node list"          \<comment> \<open>the messages the worker has popped\<close>

definition new_service :: "'r \<Rightarrow> 'r service" where
  "new_service r = \<lparr>reg = r, conns = Map.empty, down = None, handed = (\<lambda>_. 0), logic_que = [], dealt = []\<rparr>"

definition connect ::
  "string \<Rightarrow> fault + ('s, 'm) endpoint \<Rightarrow> ('r, 's, 'm, 'z) netstate_scheme \<Rightarrow> ('r, 's, 'm, 'z) netstate_scheme" where
  "connect u opened st =
     (case opened of Inl f \<Rightarrow> st\<lparr>down := Some f\<rparr> | Inr c \<Rightarrow> st\<lparr>conns := (conns st)(u \<mapsto> c)\<rparr>)"

definition on_completion ::
  "(('s, 'm) endpoint \<Rightarrow> net_event \<Rightarrow> ('s, 'm) endpoint) \<Rightarrow> string \<Rightarrow> net_event \<Rightarrow>
   ('r, 's, 'm, 'z) netstate_scheme \<Rightarrow> ('r, 's, 'm, 'z) netstate_scheme" where
  "on_completion ev u e st =
     (case conns st u of
        None \<Rightarrow> st
      | Some c \<Rightarrow> (let c' = ev c e in st\<lparr>conns := (conns st)(u \<mapsto> c'), down := ended c'\<rparr>))"

text \<open>Whether the handlers of \<open>u\<close> have called the server's \<open>clear_session\<close> on the way from \<open>st\<close> to \<open>st'\<close>.\<close>

definition asks_clear ::
  "string \<Rightarrow> ('r, 's, 'm, 'z) netstate_scheme \<Rightarrow> ('r, 's, 'm, 'z) netstate_scheme \<Rightarrow> bool" where
  "asks_clear u st st' \<longleftrightarrow>
     (case (conns st u, conns st' u) of (Some c, Some c') \<Rightarrow> clear_calls c < clear_calls c' | _ \<Rightarrow> False)"

text \<open>The read handler of \<open>u\<close> gets to push the next message it has cut out.\<close>

definition push_next :: "string \<Rightarrow> 'r service \<Rightarrow> 'r service" where
  "push_next u st =
     (case conns st u of
        None \<Rightarrow> st
      | Some c \<Rightarrow>
          if handed st u < length (inbox c)
          then st\<lparr>logic_que := logic_que st @ [inbox c ! handed st u], handed := (handed st)(u := Suc (handed st u))\<rparr>
          else st)"

definition all_pushed :: "'r service \<Rightarrow> bool" where
  "all_pushed st \<longleftrightarrow> (\<forall>u. case conns st u of None \<Rightarrow> True | Some c \<Rightarrow> handed st u = length (inbox c))"

text \<open>The worker takes the first message; \<open>deal\<close> is the dispatch on the session the message points to.\<close>

definition deal_next ::
  "(logic_node \<Rightarrow> v3_session \<Rightarrow> v3_effect list \<times> v3_session outcome) \<Rightarrow> 'r service \<Rightarrow> 'r service" where
  "deal_next deal st =
     (case logic_que st of
        [] \<Rightarrow> st
      | nd # rest \<Rightarrow>
          (case conns st (ln_session nd) of
             None \<Rightarrow> st
           | Some c \<Rightarrow>
               (case deal nd (ep_sess c) of
                  (es, Raised f s) \<Rightarrow> st\<lparr>down := Some f\<rparr>
                | (es, Returned s) \<Rightarrow>
                    st\<lparr>logic_que := rest, dealt := dealt st @ [nd],
                       conns := (conns st)(ln_session nd \<mapsto> finish_call c (es, Returned s))\<rparr>)))"

section \<open>The registry and the connections\<close>

definition serving :: "('r, 's, 'm, 'z) netstate_scheme \<Rightarrow> string \<Rightarrow> bool" where
  "serving st u \<longleftrightarrow> (\<exists>c. conns st u = Some c \<and> \<not> cleared c)"

lemma completion_serving:
  assumes "\<And>c. cleared (ev c e) \<longleftrightarrow> cleared c \<or> clear_calls c < clear_calls (ev c e)"
  shows "serving (on_completion ev u e st) v \<longleftrightarrow> serving st v \<and> \<not> (v = u \<and> asks_clear u st (on_completion ev u e st))"
  using assms by (auto simp: serving_def on_completion_def asks_clear_def Let_def split: option.splits)

lemma completion_dom:
  "conns (on_completion ev u e st) v = None \<longleftrightarrow> conns st v = None" "reg (on_completion ev u e st) = reg st"
  by (auto simp: on_completion_def Let_def split: option.splits)

lemma push_next_frame [simp]:
  "conns (push_next u st) = conns st" "reg (push_next u st) = reg st" "down (push_next u st) = down st"
  by (auto simp: push_next_def split: option.splits)

lemma deal_next_frame:
  assumes "\<And>nd s es s'. deal nd s = (es, Returned s') \<Longrightarrow> \<not> clears es"
  shows "serving (deal_next deal st) v = serving st v" "conns (deal_next deal st) v = None \<longleftrightarrow> conns st v = None"
    "reg (deal_next deal st) = reg st"
  using assms
  by (auto simp: deal_next_def serving_def simp del: finish_call.simps split: list.splits option.splits prod.splits outcome.splits)

text \<open>Handlers that push get to the end of it: \<open>unpushed\<close> counts the messages that are left.\<close>

definition unpushed :: "(nat \<Rightarrow> string) \<Rightarrow> nat \<Rightarrow> 'r service \<Rightarrow> nat" where
  "unpushed gen n st =
     (\<Sum>u\<in>gen ` {..<n}. case conns st u of None \<Rightarrow> 0 | Some c \<Rightarrow> length (inbox c) - handed st u)"

lemma unpushed_push:
  assumes "u \<in> gen ` {..<n}" "conns st u = Some c" "handed st u < length (inbox c)"
  shows "unpushed gen n (push_next u st) < unpushed gen n st"
  unfolding unpushed_def
proof (rule sum_strict_mono_ex1)
  let ?left = "\<lambda>st v. case conns st v of None \<Rightarrow> 0 | Some c \<Rightarrow> length (inbox c) - handed st v"
  show "\<forall>v\<in>gen ` {..<n}. ?left (push_next u st) v \<le> ?left st v"
    using assms by (auto simp: push_next_def split: option.split)
  show "\<exists>v\<in>gen ` {..<n}. ?left (push_next u st) v < ?left st v"
    using assms by (intro bexI [of _ u]) (simp_all add: push_next_def)
qed simp

definition push_all :: "(nat \<Rightarrow> string) \<Rightarrow> nat list \<Rightarrow> 'r service \<Rightarrow> 'r service" where
  "push_all gen ks st = fold (\<lambda>k. push_next (gen k)) ks st"

lemma pushes_finish:
  assumes "\<And>u c. conns st u = Some c \<Longrightarrow> u \<in> gen ` {..<n} \<and> handed st u \<le> length (inbox c)"
  shows "\<exists>ks. all_pushed (push_all gen ks st) \<and> (all_pushed st \<longrightarrow> ks = [])"
  using assms
proof (induction "unpushed gen n st" arbitrary: st rule: less_induct)
  case less
  show ?case
  proof (cases "all_pushed st")
    case True
    then show ?thesis by (intro exI [of _ "[]"]) (simp add: push_all_def)
  next
    case False
    then obtain u c where c: "conns st u = Some c" "handed st u \<noteq> length (inbox c)"
      by (auto simp: all_pushed_def split: option.splits)
    then have u: "u \<in> gen ` {..<n}" "handed st u < length (inbox c)" using less.prems by (simp_all add: le_neq_implies_less)
    then obtain k where k: "u = gen k" by blast
    have inv: "v \<in> gen ` {..<n} \<and> handed (push_next u st) v \<le> length (inbox d)" if "conns (push_next u st) v = Some d" for v d
      using that less.prems c(1) u(2) by (auto simp: push_next_def split: if_splits)
    obtain ks where "all_pushed (push_all gen ks (push_next u st))"
      using less.hyps [OF unpushed_push [OF u(1) c(1) u(2)] inv] by blast
    with False show ?thesis by (intro exI [of _ "k # ks"]) (simp add: push_all_def k)
  qed
qed

text \<open>
  For the servers whose registry changes in the network thread: the connections are those of accepted
  sessions, and the map holds the ones not cleared.
\<close>

definition reg_ok :: "(nat \<Rightarrow> string) \<Rightarrow> (server, 's, 'm, 'z) netstate_scheme \<Rightarrow> bool" where
  "reg_ok gen st \<longleftrightarrow> server_inv gen (reg st) \<and>
     (\<forall>u. conns st u \<noteq> None \<longrightarrow> (\<exists>k. u = gen k \<and> Suc k < next_object (reg st))) \<and>
     (\<forall>k. sessions (reg st) (gen k) = Some k \<longleftrightarrow> serving st (gen k))"

lemma reg_ok_new:
  "conns st = Map.empty \<Longrightarrow> reg st = v3_CServer \<Longrightarrow> reg_ok gen st"
  using server_inv_new by (simp add: reg_ok_def serving_def) (simp add: held_def ran_def)

lemma reg_ok_frame:
  assumes "reg_ok gen st" "reg st' = reg st" "\<And>v. serving st' v = serving st v" "\<And>v. conns st' v = None \<longleftrightarrow> conns st v = None"
  shows "reg_ok gen st'"
  using assms(1) unfolding reg_ok_def assms(2-4) by blast

lemma reg_ok_accept:
  fixes error
  assumes inj: "inj gen" and reg: "reg_ok gen st" and acc: "accepting (reg st) = Some k"
    and c: "\<not> cleared c"
  defines "st' \<equiv> (if error then st else connect (gen k) (Inr c) st)\<lparr>reg := v3_HandleAccept gen k error (reg st)\<rparr>"
  shows "reg_ok gen st'" and "conns st (gen k) = None"
proof -
  have inv: "server_inv gen (reg st)" using reg by (simp add: reg_ok_def)
  have k: "next_object (reg st) = Suc k" using acc inv by (auto simp: server_inv_def)
  show new: "conns st (gen k) = None"
  proof (rule ccontr)
    assume "conns st (gen k) \<noteq> None"
    then obtain j where "gen k = gen j" "Suc j < next_object (reg st)" using reg by (auto simp: reg_ok_def)
    then show False by (simp add: inj_eq [OF inj] k)
  qed
  let ?srv = "v3_HandleAccept gen k error (reg st)"
  have srv: "server_inv gen ?srv" "held ?srv = (if error then held (reg st) else insert k (held (reg st)))"
    "next_object ?srv = Suc (next_object (reg st))"
    using session_registry.accept [OF v3_session_registry [OF inj] inv, of error] acc
    by (simp_all add: k) (simp add: v3_HandleAccept_def v3_StartAccept_def k)
  have "serving st' (gen j) \<longleftrightarrow> serving st (gen j) \<or> \<not> error \<and> j = k" for j
    using c new by (auto simp: st'_def serving_def connect_def inj_eq [OF inj])
  moreover have "sessions ?srv (gen j) = Some j \<longleftrightarrow> sessions (reg st) (gen j) = Some j \<or> \<not> error \<and> j = k" for j
    using held_iff [OF srv(1), of j] held_iff [OF inv, of j] srv(2) by (auto split: if_splits)
  moreover have "\<exists>j. u = gen j \<and> Suc j < Suc (next_object (reg st))" if "conns st' u \<noteq> None" for u
  proof (cases "conns st u = None")
    case True
    then have "u = gen k" using that by (auto simp: st'_def connect_def split: if_splits)
    then show ?thesis by (auto simp: k)
  next
    case False
    then obtain j where "u = gen j" "Suc j < next_object (reg st)" using reg by (auto simp: reg_ok_def)
    then show ?thesis by auto
  qed
  moreover have "reg st' = ?srv" by (simp add: st'_def)
  ultimately show "reg_ok gen st'" using srv reg by (simp add: reg_ok_def)
qed

lemma reg_ok_completion:
  fixes k
  assumes inj: "inj gen" and reg: "reg_ok gen st" and asked: "\<And>c. cleared (ev c e) \<longleftrightarrow> cleared c \<or> clear_calls c < clear_calls (ev c e)"
  defines "st1 \<equiv> on_completion ev (gen k) e st"
  shows "reg_ok gen (if asks_clear (gen k) st st1 then st1\<lparr>reg := v3_clear_session (gen k) (reg st1)\<rparr> else st1)"
proof -
  have sv: "serving st1 v \<longleftrightarrow> serving st v \<and> \<not> (v = gen k \<and> asks_clear (gen k) st st1)" for v
    unfolding st1_def by (rule completion_serving) (rule asked)
  have frame: "reg st1 = reg st" "conns st1 v = None \<longleftrightarrow> conns st v = None" for v
    by (simp_all add: st1_def completion_dom)
  have inv: "server_inv gen (reg st)" using reg by (simp add: reg_ok_def)
  show ?thesis
  proof (cases "asks_clear (gen k) st st1")
    case False
    then have "serving st1 v = serving st v" for v using sv by blast
    from reg_ok_frame [OF reg frame(1) this frame(2)] False show ?thesis by simp
  next
    case True
    let ?srv = "v3_clear_session (gen k) (reg st)"
    have srv: "server_inv gen ?srv" using server_inv_clear(1) [OF inj inv, of k] by (simp add: v3_clear_session_def)
    have "serving (st1\<lparr>reg := r\<rparr>) v \<longleftrightarrow> serving st v \<and> v \<noteq> gen k" for v r
      using sv [of v] True by (simp add: serving_def)
    moreover have "conns (st1\<lparr>reg := r\<rparr>) v = None \<longleftrightarrow> conns st v = None" for v r using frame by simp
    ultimately show ?thesis
      using True srv reg unfolding reg_ok_def
      by (auto simp: frame v3_clear_session_def inj_eq [OF inj])
  qed
qed

section \<open>The contract of a server that answers\<close>

definition msg_of :: "logic_node \<Rightarrow> short \<times> byte list" where
  "msg_of nd = (recv_msg_id (ln_recvnode nd), node_text (ln_recvnode nd))"

lemma ln_view_msg_of: "ln_view nd = (ln_session nd, msg_of nd)"
  by (simp add: ln_view_def msg_of_def)

definition sized :: "net_event \<Rightarrow> bool" where
  "sized e \<longleftrightarrow> (case e of Got chunk \<Rightarrow> chunk_ok chunk | _ \<Rightarrow> True)"

definition for_session :: "string \<Rightarrow> logic_node list \<Rightarrow> logic_node list" where
  "for_session u = filter (\<lambda>nd. ln_session nd = u)"

lemma for_session_simps [simp]:
  "for_session u [] = []" "for_session u (xs @ ys) = for_session u xs @ for_session u ys"
  "for_session u (nd # xs) = (if ln_session nd = u then nd # for_session u xs else for_session u xs)"
  by (simp_all add: for_session_def)

lemma filter_for_session: "\<forall>nd\<in>set xs. ln_session nd = u \<Longrightarrow> for_session v xs = (if v = u then xs else [])"
  by (induction xs) auto

locale request_server =
  fixes ev :: "v3_endpoint \<Rightarrow> net_event \<Rightarrow> v3_endpoint"
    and deal :: "logic_node \<Rightarrow> v3_session \<Rightarrow> v3_effect list \<times> v3_session outcome"
    and answer :: "short \<times> byte list \<Rightarrow> byte list list"
  assumes ev_ok: "v3_ep_ok u c \<Longrightarrow> sized e \<Longrightarrow> ended (ev c e) = None \<Longrightarrow>
      v3_ep_ok u (ev c e) \<and> v3_backlog (ev c e) = v3_backlog c \<and> (\<exists>ms. inbox (ev c e) = inbox c @ ms)"
    and deal_ok: "v3_ep_ok u c \<Longrightarrow> deal nd (ep_sess c) = (es, Returned s) \<Longrightarrow>
      v3_ep_ok u (finish_call c (es, Returned s)) \<and> inbox (finish_call c (es, Returned s)) = inbox c \<and>
      v3_backlog (finish_call c (es, Returned s)) =
        v3_backlog c @ (if length (v3_queue (ep_sess c)) \<le> MAX_SENDQUEUE then answer (msg_of nd) else [])"
    and one_answer: "length (answer m) \<le> 1"
begin

definition answers :: "logic_node list \<Rightarrow> byte list list" where
  "answers nds = concat (map (\<lambda>nd. answer (msg_of nd)) nds)"

lemma answers_simps [simp]:
  "answers [] = []" "answers (xs @ ys) = answers xs @ answers ys" "answers (nd # xs) = answer (msg_of nd) @ answers xs"
  by (simp_all add: answers_def)

lemma length_answers: "length (answers nds) \<le> length nds"
proof (induction nds)
  case (Cons nd nds)
  with one_answer [of "msg_of nd"] show ?case by (simp add: add_mono)
qed simp

text \<open>
  One connection: its messages are handed on, queued and dealt with in order, and the frames accepted
  for its client are answers to those dealt with, all of them while they are at most 1001.
\<close>

definition conn_ok :: "'r service \<Rightarrow> string \<Rightarrow> v3_endpoint \<Rightarrow> bool" where
  "conn_ok st u c \<longleftrightarrow> v3_ep_ok u c \<and> handed st u \<le> length (inbox c) \<and>
     for_session u (dealt st) @ for_session u (logic_que st) = take (handed st u) (inbox c) \<and>
     subseq (v3_backlog c) (answers (for_session u (dealt st))) \<and>
     (length (for_session u (dealt st)) \<le> Suc MAX_SENDQUEUE \<longrightarrow> v3_backlog c = answers (for_session u (dealt st)))"

definition service_ok :: "'r service \<Rightarrow> bool" where
  "service_ok st \<longleftrightarrow> (\<forall>u. case conns st u of
     None \<Rightarrow> handed st u = 0 \<and> for_session u (dealt st) = [] \<and> for_session u (logic_que st) = []
   | Some c \<Rightarrow> conn_ok st u c)"

lemma service_okD: "service_ok st \<Longrightarrow> conns st u = Some c \<Longrightarrow> conn_ok st u c"
  by (auto simp: service_ok_def split: option.splits)

lemma new_service_ok: "service_ok (new_service r)"
  by (simp add: service_ok_def new_service_def)

text \<open>A step that concerns one connection leaves the others as they are.\<close>

lemma service_ok_update:
  assumes "service_ok st" "conn_ok st' u c" "conns st' u = Some c"
    and "\<And>v. v \<noteq> u \<Longrightarrow> conns st' v = conns st v \<and> handed st' v = handed st v \<and>
      for_session v (dealt st') = for_session v (dealt st) \<and> for_session v (logic_que st') = for_session v (logic_que st)"
  shows "service_ok st'"
proof -
  have "conn_ok st' v d = conn_ok st v d" if "v \<noteq> u" for v d using assms(4) [OF that] by (simp add: conn_ok_def)
  then show ?thesis unfolding service_ok_def
    using assms by (metis (no_types, lifting) option.simps(5) service_ok_def option.case_eq_if)
qed

lemma reg_irrelevant [simp]: "service_ok (st\<lparr>reg := r\<rparr>) = service_ok st"
  by (simp add: service_ok_def conn_ok_def cong: option.case_cong)

lemma inbox_sessions:
  assumes "v3_ep_ok u c" "nd \<in> set (inbox c)"
  shows "ln_session nd = u"
proof -
  have "map ln_view (inbox c) = concat (map (\<lambda>m. [(u, m)]) (v3_messages c))"
    using assms(1) by (simp add: v3_ep.ep_ok_def v3_ep_views)
  then have "ln_view nd \<in> set (concat (map (\<lambda>m. [(u, m)]) (v3_messages c)))"
    using assms(2) by (metis image_eqI list.set_map)
  then show ?thesis by (auto simp: ln_view_msg_of)
qed

lemma connect_ok:
  assumes "service_ok st" "conns st u = None" "opened = Inr c"
    "v3_ep_ok u c" "on_tcp c = []" "v3_queue (ep_sess c) = []"
  shows "service_ok (connect u opened st)"
  unfolding service_ok_def
proof
  fix v
  show "case conns (connect u opened st) v of
      None \<Rightarrow> handed (connect u opened st) v = 0 \<and> for_session v (dealt (connect u opened st)) = [] \<and>
        for_session v (logic_que (connect u opened st)) = []
    | Some c \<Rightarrow> conn_ok (connect u opened st) v c"
    using assms by (cases "v = u") (auto simp: service_ok_def connect_def conn_ok_def v3_backlog_def
        dest: spec [of _ v] split: option.splits)
qed

lemma on_completion_ok:
  assumes ok: "service_ok st" and e: "sized e" and up: "down (on_completion ev u e st) = None"
  shows "service_ok (on_completion ev u e st)"
proof (cases "conns st u")
  case None
  with ok show ?thesis by (simp add: on_completion_def)
next
  case (Some c)
  let ?c = "ev c e"
  have c: "conn_ok st u c" using service_okD [OF ok Some] .
  then have "ended ?c = None" "v3_ep_ok u c" using up Some by (simp_all add: on_completion_def Let_def conn_ok_def)
  with ev_ok e obtain ms where ms: "v3_ep_ok u ?c" "v3_backlog ?c = v3_backlog c" "inbox ?c = inbox c @ ms"
    by blast
  with c have "conn_ok (on_completion ev u e st) u ?c"
    by (simp add: conn_ok_def on_completion_def Some Let_def)
  moreover have "case conns st v of
      None \<Rightarrow> handed st v = 0 \<and> for_session v (dealt st) = [] \<and> for_session v (logic_que st) = []
    | Some c \<Rightarrow> conn_ok st v c" for v
    using ok by (simp add: service_ok_def)
  ultimately show ?thesis
    by (simp add: service_ok_def on_completion_def Some Let_def conn_ok_def cong: option.case_cong)
qed

lemma push_next_ok:
  assumes ok: "service_ok st"
  shows "service_ok (push_next u st)"
proof (cases "\<exists>c. conns st u = Some c \<and> handed st u < length (inbox c)")
  case False
  with ok show ?thesis by (auto simp: push_next_def split: option.split)
next
  case True
  then obtain c where some: "conns st u = Some c" and less: "handed st u < length (inbox c)" by blast
  let ?nd = "inbox c ! handed st u"
  have c: "conn_ok st u c" using service_okD [OF ok some] .
  then have nd: "ln_session ?nd = u" using inbox_sessions [of u c ?nd] less by (simp add: conn_ok_def)
  have st': "push_next u st =
      st\<lparr>logic_que := logic_que st @ [?nd], handed := (handed st)(u := Suc (handed st u))\<rparr>"
    using some less by (simp add: push_next_def)
  have "take (Suc (handed st u)) (inbox c) = take (handed st u) (inbox c) @ [?nd]"
    using less by (rule take_Suc_conv_app_nth)
  then have "conn_ok (push_next u st) u c"
    using c nd less by (simp add: conn_ok_def st' flip: append_assoc)
  with ok show ?thesis by (rule service_ok_update) (use some nd in \<open>simp_all add: st'\<close>)
qed

text \<open>The worker's answer, on the connection the message belongs to.\<close>

lemma answer_ok:
  assumes c: "conn_ok st u c" and que: "logic_que st = nd # rest" "ln_session nd = u"
    and run: "deal nd (ep_sess c) = (es, Returned s)"
  defines "c' \<equiv> finish_call c (es, Returned s)"
  shows "conn_ok (st\<lparr>logic_que := rest, dealt := dealt st @ [nd], conns := (conns st)(u \<mapsto> c')\<rparr>) u c'"
proof -
  have ep: "v3_ep_ok u c'" "inbox c' = inbox c" "v3_backlog c' =
      v3_backlog c @ (if length (v3_queue (ep_sess c)) \<le> MAX_SENDQUEUE then answer (msg_of nd) else [])"
    using deal_ok [of u c nd es s] run c by (simp_all add: conn_ok_def c'_def)
  let ?d = "for_session u (dealt st)"
  have "v3_backlog c' = answers (?d @ [nd])" if "length ?d < Suc MAX_SENDQUEUE"
  proof -
    have b: "v3_backlog c = answers ?d" using c that by (simp add: conn_ok_def)
    have "length (v3_queue (ep_sess c)) \<le> length (v3_backlog c)" by (simp add: v3_backlog_def)
    also have "\<dots> \<le> length ?d" unfolding b by (rule length_answers)
    finally show ?thesis using that b ep(3) by simp
  qed
  moreover have "subseq (v3_backlog c') (answers (?d @ [nd]))"
    using c unfolding ep(3) conn_ok_def by (simp add: list_emb_append_mono)
  ultimately show ?thesis using c ep que by (simp add: conn_ok_def)
qed

lemma deal_next_ok:
  assumes ok: "service_ok st" and up: "down (deal_next deal st) = None"
  shows "service_ok (deal_next deal st)"
proof (cases "logic_que st")
  case Nil
  with ok show ?thesis by (simp add: deal_next_def)
next
  case (Cons nd rest)
  let ?u = "ln_session nd"
  show ?thesis
  proof (cases "conns st ?u")
    case None
    with ok Cons show ?thesis by (simp add: deal_next_def)
  next
    case (Some c)
    obtain es r where run: "deal nd (ep_sess c) = (es, r)" by fastforce
    then obtain s where r: "r = Returned s"
      using up Cons Some by (cases r) (simp_all add: deal_next_def)
    let ?c = "finish_call c (es, Returned s)"
    have st': "deal_next deal st =
        st\<lparr>logic_que := rest, dealt := dealt st @ [nd], conns := (conns st)(?u \<mapsto> ?c)\<rparr>"
      using Cons Some run r by (simp add: deal_next_def)
    have "conn_ok (deal_next deal st) ?u ?c"
      unfolding st' by (rule answer_ok [OF service_okD [OF ok Some] Cons refl run [unfolded r]])
    with ok show ?thesis by (rule service_ok_update) (use Cons in \<open>simp_all add: st' del: finish_call.simps\<close>)
  qed
qed

text \<open>The message the worker takes next is one of those a connection has received.\<close>

lemma conn_endpoint_ok: "service_ok st \<Longrightarrow> conns st u = Some c \<Longrightarrow> v3_ep_ok u c"
  using service_okD unfolding conn_ok_def by blast

lemma next_message:
  assumes ok: "service_ok st" and q: "logic_que st = nd # rest"
  shows "\<exists>c. conns st (ln_session nd) = Some c \<and> msg_of nd \<in> set (v3_messages c)"
proof -
  let ?u = "ln_session nd"
  have nd: "nd \<in> set (for_session ?u (logic_que st))" using q by simp
  obtain c where c: "conns st ?u = Some c"
    using ok nd unfolding service_ok_def by (cases "conns st ?u") (metis empty_iff list.set(1) option.simps(4), blast)
  have conn: "v3_ep_ok ?u c" "for_session ?u (dealt st) @ for_session ?u (logic_que st) = take (handed st ?u) (inbox c)"
    using service_okD [OF ok c] by (simp_all add: conn_ok_def)
  then have "nd \<in> set (inbox c)" using nd by (metis Un_iff in_set_takeD set_append)
  then have "ln_view nd \<in> set (map ln_view (inbox c))" by simp
  also have "map ln_view (inbox c) = concat (map (\<lambda>m. [(?u, m)]) (v3_messages c))"
    using conn(1) by (simp add: v3_ep.ep_ok_def v3_ep_views)
  finally show ?thesis using c by (auto simp: ln_view_msg_of)
qed

text \<open>What a client may rely on.\<close>

lemma client_view:
  assumes "service_ok st" "conns st u = Some c"
  defines "n \<equiv> length (for_session u (dealt st))"
  shows "n \<le> length (v3_messages c)"
    and "subseq (v3_backlog c) (concat (map answer (take n (v3_messages c))))"
    and "n \<le> Suc MAX_SENDQUEUE \<Longrightarrow> v3_backlog c = concat (map answer (take n (v3_messages c)))"
    and "handed st u = length (inbox c) \<Longrightarrow> for_session u (logic_que st) = [] \<Longrightarrow> n = length (v3_messages c)"
proof -
  have c: "conn_ok st u c" using service_okD [OF assms(1,2)] .
  let ?d = "for_session u (dealt st)" and ?q = "for_session u (logic_que st)"
  have views: "map ln_view (inbox c) = map (Pair u) (v3_messages c)"
    using c by (simp add: conn_ok_def v3_ep.ep_ok_def v3_ep_views)
  have "map msg_of (inbox c) = map snd (map ln_view (inbox c))" by (simp add: ln_view_msg_of)
  then have msgs: "map msg_of (inbox c) = v3_messages c" by (simp add: views o_def)
  have len: "length (inbox c) = length (v3_messages c)" using views by (metis length_map)
  have split: "?d @ ?q = take (handed st u) (inbox c)" "handed st u \<le> length (inbox c)" using c by (simp_all add: conn_ok_def)
  from arg_cong [OF split(1), of length] have "n \<le> handed st u" using split(2) by (simp add: n_def)
  moreover have "?d = take n (?d @ ?q)" by (simp add: n_def)
  ultimately have "?d = take n (inbox c)" unfolding split(1) by (simp add: min_absorb1)
  then have ans: "answers ?d = concat (map answer (take n (v3_messages c)))"
    by (simp add: answers_def msgs [symmetric] take_map o_def)
  have "length (?d @ ?q) = handed st u" using split by simp
  then show "n \<le> length (v3_messages c)" using split(2) len by (simp add: n_def)
  show "subseq (v3_backlog c) (concat (map answer (take n (v3_messages c))))"
    "n \<le> Suc MAX_SENDQUEUE \<Longrightarrow> v3_backlog c = concat (map answer (take n (v3_messages c)))"
    using c by (simp_all add: conn_ok_def ans n_def)
  show "handed st u = length (inbox c) \<Longrightarrow> ?q = [] \<Longrightarrow> n = length (v3_messages c)"
    using split len by (simp add: n_def)
qed

end

text \<open>
  The same, as a statement about one client: the first \<open>n\<close> of its messages have been dealt with, the frames
  accepted for it are among their answers, in order, and are all of them while \<open>n\<close> is at most 1001.
\<close>

definition answered :: "(short \<times> byte list \<Rightarrow> byte list list) \<Rightarrow> 'r service \<Rightarrow> string \<Rightarrow> v3_endpoint \<Rightarrow> bool" where
  "answered answer st u c \<longleftrightarrow>
     (let n = length (for_session u (dealt st)); replies = concat (map answer (take n (v3_messages c)))
      in n \<le> length (v3_messages c) \<and> subseq (v3_backlog c) replies \<and>
         (n \<le> Suc MAX_SENDQUEUE \<longrightarrow> v3_backlog c = replies) \<and>
         (handed st u = length (inbox c) \<and> for_session u (logic_que st) = [] \<longrightarrow> n = length (v3_messages c)))"

lemma service_answered:
  assumes server: "request_server ev deal answer" and ok: "request_server.service_ok answer st" and c: "conns st u = Some c"
  shows "answered answer st u c"
  unfolding answered_def Let_def using request_server.client_view [OF server ok c] by blast

end
