(* ===== verification/V3_Service.thy ===== *)
theory V3_Service
  imports Service
begin

text \<open>
  \<open>Server-version-3\<close> as a whole: the accept loop, the handlers of all connections, and the worker of the
  logic system, composed from the methods of the other theories. A fault of a handler leaves \<open>ioc.run()\<close>
  in the network thread, one of a callback leaves the worker thread; neither is caught, so either ends the
  process. The contract \<open>request_server\<close> is interpreted on this server.
\<close>

section \<open>The server's steps\<close>

text \<open>\<open>k\<close> is the number of a session object, \<open>gen k\<close> its uuid, \<open>junk k\<close> what its buffer holds at first.\<close>

datatype service_event =
    Accept bool            \<comment> \<open>the outstanding accept completes, with an error or not\<close>
  | On nat net_event       \<comment> \<open>a read or write of session \<open>k\<close> completes\<close>
  | Push nat               \<comment> \<open>the read handler of session \<open>k\<close> pushes its next message\<close>
  | Work                   \<comment> \<open>the worker takes a message\<close>

definition v3_deal :: "platform \<Rightarrow> 'j json \<Rightarrow> logic_node \<Rightarrow> v3_session \<Rightarrow> v3_effect list \<times> v3_session outcome" where
  "v3_deal P J nd s =
     (case v3_deal_front P J (v3_RegisterCallBacks Map.empty) nd (\<lambda>_. s) of
        (es, Returned heap) \<Rightarrow> (es, Returned (heap (ln_session nd)))
      | (es, Raised f heap) \<Rightarrow> (es, Raised f (heap (ln_session nd))))"

fun v3_service_step ::
  "platform \<Rightarrow> 'j json \<Rightarrow> (nat \<Rightarrow> string) \<Rightarrow> (nat \<Rightarrow> byte list) \<Rightarrow> server service \<Rightarrow> service_event \<Rightarrow> server service" where
  "v3_service_step P J gen junk st (Accept error) =
     (case accepting (reg st) of
        None \<Rightarrow> st
      | Some k \<Rightarrow>
          (let st1 = (if error then st else connect (gen k) (v3_accepted (gen k) (junk k)) st)
           in st1\<lparr>reg := v3_HandleAccept gen k error (reg st1)\<rparr>))"
| "v3_service_step P J gen junk st (On k e) =
     (let st1 = on_completion (v3_event P) (gen k) e st
      in if asks_clear (gen k) st st1 then st1\<lparr>reg := v3_clear_session (gen k) (reg st1)\<rparr> else st1)"
| "v3_service_step P J gen junk st (Push k) = push_next (gen k) st"
| "v3_service_step P J gen junk st Work = deal_next (v3_deal P J) st"

definition v3_serve ::
  "platform \<Rightarrow> 'j json \<Rightarrow> (nat \<Rightarrow> string) \<Rightarrow> (nat \<Rightarrow> byte list) \<Rightarrow> server service \<Rightarrow> service_event \<Rightarrow> server service" where
  "v3_serve P J gen junk st e = (if down st = None then v3_service_step P J gen junk st e else st)"

section \<open>The contract\<close>

text \<open>What a message is answered with.\<close>

definition v3_answer :: "'j json \<Rightarrow> short \<times> byte list \<Rightarrow> byte list list" where
  "v3_answer J m =
     (if fst m = short_of_int MSG_HELLO_WORD
      then (case v3_hello_reply J (snd m) of Inl _ \<Rightarrow> [] | Inr (t, i) \<Rightarrow> [call_frame (Send_String t i)]) else [])"

text \<open>A node is only built for a length that survives the conversion to \<open>short\<close>.\<close>

lemma v3_SendNode_length:
  assumes node: "v3_SendNode P msg (short_of_int (int n)) msg_id = Inr nd"
  shows "n mod 65536 \<le> 32763"
proof (rule ccontr)
  assume "\<not> n mod 65536 \<le> 32763"
  define m where "m = int n mod 65536"
  have "m = int (n mod 65536)" by (simp add: m_def zmod_int)
  with \<open>\<not> n mod 65536 \<le> 32763\<close> have m: "32764 \<le> m" "m < 65536" by simp_all
  have eq: "short_of_int (int n) = short_of_int m"
    unfolding short_of_int_def m_def by (rule word_of_int_eq_iff [THEN iffD2]) (simp add: take_bit_eq_mod)
  show False
  proof (cases "m \<le> 65530")
    case True
    with m node show False by (simp add: eq v3_SendNode_throws)
  next
    case False
    then have s: "sint (short_of_int m) = m - 65536" using m by (intro sint_short_wrap) auto
    then have "unat (size_of_int (sint (short_of_int m))) = nat (2 ^ 64 + (m - 65536))"
      using m by (subst unat_size_of_int_neg) auto
    moreover have "2 ^ 63 \<le> (2 :: int) ^ 64 + (m - 65536)" using m by simp
    ultimately have "\<not> unat (size_of_int (sint (short_of_int m))) < 2 ^ 63"
      by (simp add: nat_less_iff not_less)
    then have "memcpy d k msg 0 (size_of_int (sint (short_of_int m))) = Inl Out_Of_Bounds" for d k
      by (simp add: memcpy_def mem_read_def)
    with node show False by (simp add: eq v3_SendNode_def split: sum.splits)
  qed
qed

lemma v3_Send_string_ok:
  assumes "v3_Send_string P t i s = (es, Returned s')"
  shows "call_ok (Send_String t i) \<or> MAX_SENDQUEUE < length (send_que s) \<and> es = [] \<and> s' = s"
  using assms v3_SendNode_length [of P "t @ [0]" "length t" i]
  by (auto simp: v3_Send_string_def Let_def split: if_splits sum.splits)

lemma v3_reply_sent:
  assumes P: "network_order P" and ok: "v3_ep_ok u c" and send: "v3_Send_string P t i (ep_sess c) = (es, Returned s)"
  defines "c' \<equiv> finish_call c (es, Returned s)"
  shows "v3_ep_ok u c' \<and> inbox c' = inbox c \<and> v3_backlog c' = v3_backlog c @
    (if length (v3_queue (ep_sess c)) \<le> MAX_SENDQUEUE then [call_frame (Send_String t i)] else [])"
proof (cases "call_ok (Send_String t i)")
  case True
  note contract = v3_session_contract [OF P, of u]
  have send': "v3_Send P (Send_String t i) (ep_sess c) = (es, Returned s)" using send by simp
  note step = session_contract.send_step [OF contract ok True, unfolded send', folded c'_def]
  have "posted es = []" using v3_Send_only [OF send'] by simp
  then have "inbox c' = inbox c" by (simp add: c'_def del: finish_call.simps)
  with step show ?thesis by (simp add: v3_ep_views)
next
  case False
  then have "MAX_SENDQUEUE < length (v3_queue (ep_sess c))" "es = []" "s = ep_sess c"
    using v3_Send_string_ok [OF send] by (simp_all add: v3_queue_def)
  with ok show ?thesis by (simp add: c'_def)
qed

lemma v3_request_server:
  assumes P: "network_order P"
  shows "request_server (v3_event P) (v3_deal P J) (v3_answer J)"
proof
  fix u c e
  assume ok: "v3_ep_ok u c" and e: "sized e" and up: "ended (v3_event P c e) = None"
  note contract = v3_session_contract [OF P, of u]
  have "\<And>chunk. e = Got chunk \<Longrightarrow> chunk_ok chunk" using e by (simp add: sized_def)
  note step = session_contract.event_step [OF contract ok this, folded v3_event_def, OF _ up]
  from step(2) have "v3_backlog (v3_event P c e) = v3_backlog c" by (simp add: v3_ep_views) force
  with step(1) show "v3_ep_ok u (v3_event P c e) \<and> v3_backlog (v3_event P c e) = v3_backlog c \<and>
      (\<exists>ms. inbox (v3_event P c e) = inbox c @ ms)"
    unfolding v3_event_def using ep_event_grows(1) by blast
next
  fix u c nd es s
  assume ok: "v3_ep_ok u c" and run: "v3_deal P J nd (ep_sess c) = (es, Returned s)"
  let ?id = "recv_msg_id (ln_recvnode nd)"
  show "v3_ep_ok u (finish_call c (es, Returned s)) \<and> inbox (finish_call c (es, Returned s)) = inbox c \<and>
      v3_backlog (finish_call c (es, Returned s)) =
        v3_backlog c @ (if length (v3_queue (ep_sess c)) \<le> MAX_SENDQUEUE then v3_answer J (msg_of nd) else [])"
  proof (cases "?id = short_of_int MSG_HELLO_WORD")
    case False
    then have "es = []" "s = ep_sess c"
      using run by (simp_all add: v3_deal_def v3_deal_front_def v3_RegisterCallBacks_def)
    with False ok show ?thesis by (simp add: v3_answer_def msg_of_def)
  next
    case True
    obtain t i where reply: "v3_hello_reply J (node_text (ln_recvnode nd)) = Inr (t, i)"
      and send: "v3_Send_string P t i (ep_sess c) = (es, Returned s)"
      using run True by (auto simp: v3_deal_def v3_deal_front_def v3_RegisterCallBacks_def v3_HelloWorldCallBack_def
          Let_def split: sum.splits prod.splits outcome.splits)
    from v3_reply_sent [OF P ok send] reply True show ?thesis by (simp add: v3_answer_def msg_of_def del: finish_call.simps)
  qed
next
  fix m
  show "length (v3_answer J m) \<le> 1" by (simp add: v3_answer_def split: sum.split)
qed

interpretation v3_srv: request_server "v3_event x86_host" "v3_deal x86_host J" "v3_answer J" for J
  by (rule v3_request_server) (rule x86.network_order_axioms)

section \<open>Runs of the server\<close>

definition v3_started :: "server service" where
  "v3_started = new_service v3_CServer"

lemma v3_deal_clears: "v3_deal P J nd s = (es, Returned s') \<Longrightarrow> \<not> clears es"
  using v3_Send_only [of P "Send_String _ _"]
  by (fastforce simp: v3_deal_def v3_deal_front_def v3_HelloWorldCallBack_def Let_def
      split: option.splits callback.splits sum.splits prod.splits outcome.splits)

lemma v3_step_ok:
  assumes P: "network_order P" and inj: "inj gen" and reg: "reg_ok gen st"
    and ok: "request_server.service_ok (v3_answer J) st" and e: "\<And>k ne. e = On k ne \<Longrightarrow> sized ne"
    and up: "down st = None" "down (v3_serve P J gen junk st e) = None"
  shows "reg_ok gen (v3_serve P J gen junk st e) \<and>
    request_server.service_ok (v3_answer J) (v3_serve P J gen junk st e)"
proof -
  note server = v3_request_server [OF P, of J]
  have step: "v3_serve P J gen junk st e = v3_service_step P J gen junk st e" using up by (simp add: v3_serve_def)
  show ?thesis
  proof (cases e)
    case (Accept error)
    obtain k where acc: "accepting (reg st) = Some k" using reg by (auto simp: reg_ok_def server_inv_def)
    obtain c where c: "v3_accepted (gen k) (junk k) = Inr c" "v3_ep_ok (gen k) c" "on_tcp c = []"
      "v3_queue (ep_sess c) = []" "\<not> cleared c"
      using v3_accepted_ok by blast
    note accept = reg_ok_accept(1) [OF inj reg acc c(5), of error] reg_ok_accept(2) [OF inj reg acc c(5)]
    let ?st1 = "if error then st else connect (gen k) (Inr c) st"
    have st': "v3_serve P J gen junk st e = ?st1\<lparr>reg := v3_HandleAccept gen k error (reg st)\<rparr>"
      using acc c(1) unfolding step unfolding Accept by (simp add: connect_def)
    have "request_server.service_ok (v3_answer J) ?st1"
      using request_server.connect_ok [OF server ok accept(2) refl c(2-4)] ok by simp
    with accept(1) show ?thesis by (simp add: st' request_server.reg_irrelevant [OF server])
  next
    case (On k ne)
    let ?st1 = "on_completion (v3_event P) (gen k) ne st"
    have st': "v3_serve P J gen junk st e =
        (if asks_clear (gen k) st ?st1 then ?st1\<lparr>reg := v3_clear_session (gen k) (reg ?st1)\<rparr> else ?st1)"
      unfolding step unfolding On by (simp add: Let_def)
    then have "down ?st1 = None" using up(2) by (simp split: if_splits)
    then have "request_server.service_ok (v3_answer J) ?st1"
      using request_server.on_completion_ok [OF server ok] e On by blast
    moreover have "reg_ok gen (v3_serve P J gen junk st e)"
      unfolding st' by (rule reg_ok_completion [OF inj reg]) (simp only: v3_event_def ep_event_clears)
    ultimately show ?thesis
      by (auto simp: st' request_server.reg_irrelevant [OF server])
  next
    case (Push k)
    have "reg_ok gen (push_next (gen k) st)" by (rule reg_ok_frame [OF reg]) (simp_all add: serving_def)
    then show ?thesis
      using request_server.push_next_ok [OF server ok] unfolding step unfolding Push by simp
  next
    case Work
    have "reg_ok gen (deal_next (v3_deal P J) st)"
      by (rule reg_ok_frame [OF reg]) (rule deal_next_frame, erule v3_deal_clears)+
    then show ?thesis
      using request_server.deal_next_ok [OF server ok] up(2) unfolding step unfolding Work by simp
  qed
qed

definition events_sized :: "service_event list \<Rightarrow> bool" where
  "events_sized es \<longleftrightarrow> (\<forall>e\<in>set es. case e of On k ne \<Rightarrow> sized ne | _ \<Rightarrow> True)"

lemma v3_run_ok:
  assumes P: "network_order P" and inj: "inj gen" and sized: "events_sized es"
    and up: "down (foldl (v3_serve P J gen junk) v3_started es) = None"
  defines "st \<equiv> foldl (v3_serve P J gen junk) v3_started es"
  shows "reg_ok gen st" and "request_server.service_ok (v3_answer J) st"
proof -
  have "reg_ok gen st \<and> request_server.service_ok (v3_answer J) st"
    using sized up unfolding st_def
  proof (induction es rule: rev_induct)
    case Nil
    show ?case
      using request_server.new_service_ok [OF v3_request_server [OF P], of J v3_CServer] reg_ok_new [of v3_started gen]
      by (simp add: v3_started_def) (simp add: new_service_def)
  next
    case (snoc e es)
    let ?st = "foldl (v3_serve P J gen junk) v3_started es"
    have "down ?st = None" using snoc.prems(2) by (auto simp: v3_serve_def [of _ _ _ _ ?st] split: if_splits)
    moreover have "sized ne" if "e = On k ne" for k ne using snoc.prems(1) that by (simp add: events_sized_def)
    ultimately show ?case using snoc v3_step_ok [OF P inj, of ?st J e junk] by (simp add: events_sized_def)
  qed
  then show "reg_ok gen st" "request_server.service_ok (v3_answer J) st" by simp_all
qed

section \<open>What ends the server\<close>

text \<open>A message whose callback throws: the JSON library does, or the reply's length is lost in a \<open>short\<close>.\<close>

definition v3_fatal_message :: "'j json \<Rightarrow> short \<times> byte list \<Rightarrow> bool" where
  "v3_fatal_message J m \<longleftrightarrow> fst m = short_of_int MSG_HELLO_WORD \<and>
     (case v3_hello_reply J (snd m) of Inl f \<Rightarrow> True | Inr (t, i) \<Rightarrow> 32763 < length t mod 65536)"

lemma v3_Send_string_returns:
  assumes P: "network_order P" and ok: "v3_ep_ok u c" and "length t mod 65536 \<le> 32763"
  shows "\<exists>es s. v3_Send_string P t i (ep_sess c) = (es, Returned s)"
proof -
  have call: "call_ok (Send_String t i)" using assms(3) by simp
  have inv: "v3_send_inv (ep_sess c)" using ok by (simp add: v3_ep.ep_ok_def)
  note queue = v3_write_queue [OF P]
  have "\<exists>es s. v3_Send P (Send_String t i) (ep_sess c) = (es, Returned s)"
    using write_queue.send_full [OF queue inv call] write_queue.send_queued [OF queue inv call]
    by (cases "length (v3_queue (ep_sess c)) \<le> MAX_SENDQUEUE") (auto simp: not_le)
  then show ?thesis by simp
qed

lemma v3_deal_raises:
  assumes P: "network_order P" and ok: "v3_ep_ok u c" and run: "v3_deal P J nd (ep_sess c) = (es, Raised f s)"
  shows "v3_fatal_message J (msg_of nd)"
proof (rule ccontr)
  assume good: "\<not> v3_fatal_message J (msg_of nd)"
  have id: "recv_msg_id (ln_recvnode nd) = short_of_int MSG_HELLO_WORD"
    using run by (auto simp: v3_deal_def v3_deal_front_def v3_RegisterCallBacks_def Let_def split: if_splits)
  with good obtain t i where reply: "v3_hello_reply J (node_text (ln_recvnode nd)) = Inr (t, i)"
    and short: "length t mod 65536 \<le> 32763"
    by (auto simp: v3_fatal_message_def msg_of_def not_less split: sum.splits)
  from v3_Send_string_returns [OF P ok short, of i] show False
    using run id reply
    by (auto simp: v3_deal_def v3_deal_front_def v3_RegisterCallBacks_def v3_HelloWorldCallBack_def Let_def)
qed

lemma v3_goes_down:
  assumes P: "network_order P" and ok: "request_server.service_ok (v3_answer J) st"
    and e: "\<And>k ne. e = On k ne \<Longrightarrow> sized ne" and up: "down st = None"
    and dn: "down (v3_serve P J gen junk st e) = Some f"
  shows "(\<exists>k chunk c. e = On k (Got chunk) \<and> conns st (gen k) = Some c \<and>
      fst (v3_spec (Head []) (received c @ chunk)) = Crashed f) \<or>
    (\<exists>nd rest. e = Work \<and> logic_que st = nd # rest \<and> v3_fatal_message J (msg_of nd))"
proof -
  note server = v3_request_server [OF P, of J]
  have step: "down (v3_service_step P J gen junk st e) = Some f" using dn up by (simp add: v3_serve_def)
  have conn: "v3_ep_ok u c" if "conns st u = Some c" for u c
    using request_server.service_okD [OF server ok that] request_server.conn_ok_def [OF server, of st u c] by blast
  show ?thesis
  proof (cases e)
    case (Accept error)
    have "\<exists>c. v3_accepted u j = Inr c" for u j using v3_accepted_ok by blast
    then have "down (connect u (v3_accepted u j) st) = None" for u j
      using up by (auto simp: connect_def split: sum.split) (metis Inl_Inr_False)
    with step up Accept show ?thesis by (auto simp: Let_def split: option.splits if_splits)
  next
    case (On k ne)
    let ?st1 = "on_completion (v3_event P) (gen k) ne st"
    have "down ?st1 = Some f" using step On by (simp add: Let_def split: if_splits)
    then obtain c where c: "conns st (gen k) = Some c" "ended (v3_event P c ne) = Some f"
      using up by (auto simp: on_completion_def Let_def split: option.splits)
    have "\<And>chunk. ne = Got chunk \<Longrightarrow> chunk_ok chunk" using e [OF On] by (simp add: sized_def)
    with session_contract.event_ends [OF v3_session_contract [OF P] conn [OF c(1)], of ne f] c(2)
    obtain chunk where "ne = Got chunk" "fst (v3_spec (Head []) (received c @ chunk)) = Crashed f"
      by (auto simp: v3_event_def)
    with On c(1) show ?thesis by blast
  next
    case (Push k)
    with step up show ?thesis by simp
  next
    case Work
    then have "down (deal_next (v3_deal P J) st) = Some f" using step by simp
    then obtain nd rest c es s where nd: "logic_que st = nd # rest" "conns st (ln_session nd) = Some c"
      "v3_deal P J nd (ep_sess c) = (es, Raised f s)"
      using up by (auto simp: deal_next_def split: list.splits option.splits prod.splits outcome.splits)
    with v3_deal_raises [OF P conn [OF nd(2)] nd(3)] Work show ?thesis by blast
  qed
qed

text \<open>Conversely, bytes that crash one client's stream end the server for all of them.\<close>

lemma v3_crash_ends_server:
  assumes P: "network_order P" and ok: "request_server.service_ok (v3_answer J) st" and up: "down st = None"
    and c: "conns st (gen k) = Some c" "read_pending c" and chunk: "chunk_ok chunk"
    and crash: "fst (v3_spec (Head []) (received c @ chunk)) = Crashed f"
  shows "down (v3_serve P J gen junk st (On k (Got chunk))) = Some f"
proof -
  note server = v3_request_server [OF P, of J]
  have "v3_ep_ok (gen k) c"
    using request_server.service_okD [OF server ok c(1)] request_server.conn_ok_def [OF server, of st "gen k" c] by blast
  then have "ended (v3_event P c (Got chunk)) = Some f"
    using session_contract.event_ends [OF v3_session_contract [OF P], of "gen k" c "Got chunk" f] chunk crash c(2)
    by (simp add: v3_event_def)
  then have "down (on_completion (v3_event P) (gen k) (Got chunk) st) = Some f"
    using c(1) by (simp add: on_completion_def Let_def)
  then show ?thesis using up by (simp add: v3_serve_def Let_def)
qed

end
