(* ===== verification/Lifecycle.thy ===== *)
theory Lifecycle
  imports Cpp_Prelude
begin

text \<open>
  Start and end of the processes: the \<open>Singleton\<close> that \<open>LogicSystem\<close> and the pools derive from, and
  the main thread of \<open>Server-version-3\<close> waiting for a signal.
\<close>

section \<open>The end of a process\<close>

datatype process_end =
    Killed                    \<comment> \<open>by a signal that has no handler\<close>
  | Terminated_By fault       \<comment> \<open>\<open>std::terminate\<close> for an exception that nothing catches, or undefined behaviour\<close>
  | Joinable_Destroyed        \<comment> \<open>\<open>std::terminate\<close> in the destructor of a thread that was not joined\<close>
  | Exited                    \<comment> \<open>the end of \<open>main\<close>, and of the destructors after it\<close>

section \<open>Singleton\<close>

text \<open>
  \<open>GetInstance\<close>: \<open>std::call_once\<close> runs the constructor in the first call that does not throw; an
  exception leaves the flag unset. \<open>fresh\<close> is what \<open>new T\<close> would give in this call. Calls of
  \<open>call_once\<close> on one flag exclude each other, so concurrent calls are a list.
\<close>

record 'a singleton =
  once_done :: bool
  the_instance :: "'a option"

definition new_singleton :: "'a singleton" where
  "new_singleton = \<lparr>once_done = False, the_instance = None\<rparr>"

definition GetInstance :: "fault + 'a \<Rightarrow> 'a singleton \<Rightarrow> (fault + 'a option) \<times> 'a singleton" where
  "GetInstance fresh st =
     (if once_done st then (Inr (the_instance st), st)
      else case fresh of
             Inl f \<Rightarrow> (Inl f, st)
           | Inr x \<Rightarrow> (Inr (Some x), \<lparr>once_done = True, the_instance = Some x\<rparr>))"

text \<open>The template of the multi-threaded server is the same, with a method that prints the pointer.\<close>

definition mt_GetInstance :: "fault + 'a \<Rightarrow> 'a singleton \<Rightarrow> (fault + 'a option) \<times> 'a singleton" where
  "mt_GetInstance fresh st =
     (if once_done st then (Inr (the_instance st), st)
      else case fresh of
             Inl f \<Rightarrow> (Inl f, st)
           | Inr x \<Rightarrow> (Inr (Some x), \<lparr>once_done = True, the_instance = Some x\<rparr>))"

definition PrintAddress :: "'a singleton \<Rightarrow> 'a option" where
  "PrintAddress st = the_instance st"

lemma mt_GetInstance_eq: "mt_GetInstance = GetInstance"
  by (simp add: fun_eq_iff mt_GetInstance_def GetInstance_def)

text \<open>The printed pointer is null until the first call that succeeds, and what the call returns from then on.\<close>

lemma PrintAddress_new: "PrintAddress new_singleton = None"
  by (simp add: PrintAddress_def new_singleton_def)

lemma PrintAddress_after:
  "mt_GetInstance fresh st = (Inr p, st') \<Longrightarrow> PrintAddress st' = p"
  by (auto simp: mt_GetInstance_def PrintAddress_def split: if_splits sum.splits)

fun get_instances :: "(fault + 'a) list \<Rightarrow> 'a singleton \<Rightarrow> (fault + 'a option) list" where
  "get_instances [] st = []"
| "get_instances (fresh # cs) st = (let (r, st') = GetInstance fresh st in r # get_instances cs st')"

lemma get_instances_done:
  "once_done st \<Longrightarrow> get_instances cs st = replicate (length cs) (Inr (the_instance st))"
  by (induction cs) (auto simp: GetInstance_def)

text \<open>The calls up to the first constructor that succeeds fail; all others give its object.\<close>

lemma get_instances_new:
  "get_instances (map Inl fs @ Inr x # cs) new_singleton =
     map Inl fs @ Inr (Some x) # replicate (length cs) (Inr (Some x))"
  by (induction fs) (simp_all add: GetInstance_def new_singleton_def get_instances_done)

section \<open>Waiting for a signal\<close>

text \<open>
  The loop of \<open>main\<close>: test the flag without the mutex, take the mutex, wait. The handler sets the flag
  and notifies under the mutex; \<open>signal\<close> is a delivery to another thread, \<open>signal_here\<close> one to the main
  thread, which then locks a mutex it may hold already.
\<close>

datatype main_at = Testing | Locking | Holding | Waiting | Leaving | Deadlocked

record v3_main =
  main_at :: main_at
  is_server_terminated :: bool

definition v3_main_start :: v3_main where
  "v3_main_start = \<lparr>main_at = Testing, is_server_terminated = False\<rparr>"

definition v3_main_loop :: "v3_main \<Rightarrow> v3_main option" where
  "v3_main_loop m =
     (case main_at m of
        Testing \<Rightarrow> Some (m\<lparr>main_at := (if is_server_terminated m then Leaving else Locking)\<rparr>)
      | Locking \<Rightarrow> Some (m\<lparr>main_at := Holding\<rparr>)
      | Holding \<Rightarrow> Some (m\<lparr>main_at := Waiting\<rparr>)
      | _ \<Rightarrow> None)"

definition v3_signal_handler :: "v3_main \<Rightarrow> v3_main" where
  "v3_signal_handler m =
     m\<lparr>main_at := (if main_at m = Waiting then Testing else main_at m), is_server_terminated := True\<rparr>"

inductive v3_main_step :: "v3_main \<Rightarrow> v3_main \<Rightarrow> bool" where
  loop: "v3_main_loop m = Some m' \<Longrightarrow> v3_main_step m m'"
| spurious: "main_at m = Waiting \<Longrightarrow> v3_main_step m (m\<lparr>main_at := Testing\<rparr>)"
| signal: "main_at m \<noteq> Holding \<Longrightarrow> v3_main_step m (v3_signal_handler m)"
| signal_here: "main_at m = Holding \<Longrightarrow> v3_main_step m (m\<lparr>main_at := Deadlocked\<rparr>)"

inductive_cases v3_main_stepE [consumes 1, case_names loop spurious signal signal_here]: "v3_main_step m m'"

text \<open>The server never shuts down unasked, and a signal that finds the main thread waiting shuts it down.\<close>

lemma main_leaves_only_on_signal:
  "v3_main_step\<^sup>*\<^sup>* v3_main_start m \<Longrightarrow> main_at m = Leaving \<Longrightarrow> is_server_terminated m"
proof -
  have "main_at m = Leaving \<longrightarrow> is_server_terminated m" if "v3_main_step\<^sup>*\<^sup>* v3_main_start m"
    using that
  proof (induction rule: rtranclp_induct)
    case (step m m')
    from step.hyps(2) step.IH show ?case
      by (elim v3_main_stepE) (auto simp: v3_main_loop_def v3_signal_handler_def split: main_at.splits if_splits)
  qed (simp add: v3_main_start_def)
  then show "v3_main_step\<^sup>*\<^sup>* v3_main_start m \<Longrightarrow> main_at m = Leaving \<Longrightarrow> is_server_terminated m" by blast
qed

lemma main_waiting_signal:
  "main_at m = Waiting \<Longrightarrow> v3_main_loop (v3_signal_handler m) = Some (m\<lparr>main_at := Leaving, is_server_terminated := True\<rparr>)"
  by (simp add: v3_signal_handler_def v3_main_loop_def)

text \<open>A signal between the test and the wait is lost: the main thread waits although the flag is set.\<close>

definition v3_lost_signal :: v3_main where
  "v3_lost_signal = \<lparr>main_at = Waiting, is_server_terminated = True\<rparr>"

lemma lost_signal_reachable: "v3_main_step\<^sup>*\<^sup>* v3_main_start v3_lost_signal"
proof -
  let ?m1 = "v3_main_start\<lparr>main_at := Locking\<rparr>" and ?m2 = "\<lparr>main_at = Locking, is_server_terminated = True\<rparr>"
  have "v3_main_step v3_main_start ?m1"
    by (rule v3_main_step.loop) (simp add: v3_main_loop_def v3_main_start_def)
  moreover have "v3_main_step ?m1 (v3_signal_handler ?m1)" by (rule v3_main_step.signal) simp
  then have "v3_main_step ?m1 ?m2" by (simp add: v3_signal_handler_def v3_main_start_def)
  moreover have "v3_main_step ?m2 (?m2\<lparr>main_at := Holding\<rparr>)"
    by (rule v3_main_step.loop) (simp add: v3_main_loop_def)
  moreover have "v3_main_step (?m2\<lparr>main_at := Holding\<rparr>) v3_lost_signal"
    by (rule v3_main_step.loop) (simp add: v3_main_loop_def v3_lost_signal_def)
  ultimately show ?thesis by (meson converse_rtranclp_into_rtranclp r_into_rtranclp)
qed

end
