(* ===== verification/V3_Process.thy ===== *)
theory V3_Process
  imports V3_Service Lifecycle
begin

text \<open>
  The process of \<open>Server-version-3\<close>: \<open>main\<close> installs its handlers, waits for a signal, stops the
  \<open>io_context\<close>, joins the network thread and returns; the network thread constructs the server and runs
  the handlers of \<open>V3_Service\<close>; the worker thread of the logic system goes on until the destructor that
  runs after \<open>main\<close> has joined it. The steps of the three threads and the signals interleave freely.
\<close>

section \<open>The process\<close>

datatype v3_phase =
    Installing nat       \<comment> \<open>so many of the two handlers are installed\<close>
  | In_Loop              \<comment> \<open>where in the loop is the field \<open>main_thread\<close>\<close>
  | Stopping             \<comment> \<open>before \<open>ioc.stop()\<close>\<close>
  | Joining              \<comment> \<open>in \<open>network_thread.join()\<close>\<close>
  | Unwinding            \<comment> \<open>before the destructor of \<open>ioc\<close>\<close>
  | Exiting              \<comment> \<open>after \<open>main\<close>: the destructor of the logic system\<close>

datatype network = Constructing | Running | Run_Over

datatype signal_number = SIGINT | SIGTERM

record v3_process =
  phase :: v3_phase
  main_thread :: v3_main
  network :: network
  ioc_stopped :: bool
  ioc_gone :: bool
  svc :: "server service"
  process_end :: "process_end option"

definition v3_process_start :: v3_process where
  "v3_process_start = \<lparr>phase = Installing 0, main_thread = v3_main_start, network = Constructing,
     ioc_stopped = False, ioc_gone = False, svc = v3_started, process_end = None\<rparr>"

fun v3_handler_installed :: "v3_phase \<Rightarrow> signal_number \<Rightarrow> bool" where
  "v3_handler_installed (Installing n) sig = (sig = SIGINT \<and> 1 \<le> n)"
| "v3_handler_installed _ sig = True"

text \<open>Without a handler a signal has its default effect.\<close>

definition v3_signalled :: "signal_number \<Rightarrow> v3_process \<Rightarrow> v3_process" where
  "v3_signalled sig p =
     (if v3_handler_installed (phase p) sig then p\<lparr>main_thread := v3_signal_handler (main_thread p)\<rparr>
      else p\<lparr>process_end := Some Killed\<rparr>)"

text \<open>The statements of \<open>main\<close>.\<close>

definition v3_main_next :: "v3_process \<Rightarrow> v3_process option" where
  "v3_main_next p =
     (case phase p of
        Installing n \<Rightarrow> Some (p\<lparr>phase := (if n = 0 then Installing 1 else In_Loop)\<rparr>)
      | In_Loop \<Rightarrow>
          (case v3_main_loop (main_thread p) of
             None \<Rightarrow> None
           | Some m \<Rightarrow> Some (p\<lparr>main_thread := m, phase := (if main_at m = Leaving then Stopping else In_Loop)\<rparr>))
      | Stopping \<Rightarrow> Some (p\<lparr>ioc_stopped := True, phase := Joining\<rparr>)
      | Joining \<Rightarrow> (if network p = Run_Over then Some (p\<lparr>phase := Unwinding\<rparr>) else None)
      | Unwinding \<Rightarrow> Some (p\<lparr>ioc_gone := True, phase := Exiting\<rparr>)
      | Exiting \<Rightarrow> (if logic_que (svc p) = [] then Some (p\<lparr>process_end := Some Exited\<rparr>) else None))"

text \<open>
  The network thread. A port that cannot be bound throws in the constructor of \<open>_acceptor\<close>, and nothing
  in the thread catches. \<open>run\<close> returns once the context is stopped and the handler it executes has
  returned, that is, has pushed its messages; the server is destroyed as it leaves the lambda.
\<close>

definition v3_construct :: "bool \<Rightarrow> v3_process \<Rightarrow> v3_process" where
  "v3_construct bound p =
     (if bound then p\<lparr>network := Running\<rparr>
      else p\<lparr>process_end := Some (Terminated_By System_Exception)\<rparr>)"

definition v3_process_serve ::
  "platform \<Rightarrow> 'j json \<Rightarrow> (nat \<Rightarrow> string) \<Rightarrow> (nat \<Rightarrow> byte list) \<Rightarrow> service_event \<Rightarrow> v3_process \<Rightarrow> v3_process" where
  "v3_process_serve P J gen junk e p =
     (let st = v3_serve P J gen junk (svc p) e
      in p\<lparr>svc := st, process_end := map_option Terminated_By (down st)\<rparr>)"

text \<open>
  The worker thread, after the destructor of \<open>ioc\<close>: nodes in the queue hold the last pointers to their
  sessions, whose sockets refer to the context. A write on such a socket uses it, and so does the
  destructor of the socket, when the last node of the session is released.
\<close>

definition v3_late_fault :: "platform \<Rightarrow> 'j json \<Rightarrow> server service \<Rightarrow> fault option" where
  "v3_late_fault P J st =
     (case logic_que st of
        [] \<Rightarrow> None
      | nd # rest \<Rightarrow>
          (let es = (case conns st (ln_session nd) of None \<Rightarrow> [] | Some c \<Rightarrow> fst (v3_deal P J nd (ep_sess c)))
           in if written es \<noteq> [] \<or> ln_session nd \<notin> set (map ln_session rest) then Some Use_After_Free else None))"

definition v3_process_work ::
  "platform \<Rightarrow> 'j json \<Rightarrow> (nat \<Rightarrow> string) \<Rightarrow> (nat \<Rightarrow> byte list) \<Rightarrow> v3_process \<Rightarrow> v3_process" where
  "v3_process_work P J gen junk p =
     (let p' = v3_process_serve P J gen junk Work p
      in if process_end p' = None \<and> ioc_gone p
         then p'\<lparr>process_end := map_option Terminated_By (v3_late_fault P J (svc p))\<rparr> else p')"

inductive v3_process_step ::
  "platform \<Rightarrow> 'j json \<Rightarrow> (nat \<Rightarrow> string) \<Rightarrow> (nat \<Rightarrow> byte list) \<Rightarrow> v3_process \<Rightarrow> v3_process \<Rightarrow> bool"
  for P J gen junk where
  main: "process_end p = None \<Longrightarrow> v3_main_next p = Some p' \<Longrightarrow> v3_process_step P J gen junk p p'"
| spurious: "process_end p = None \<Longrightarrow> phase p = In_Loop \<Longrightarrow> main_at (main_thread p) = Waiting \<Longrightarrow>
    v3_process_step P J gen junk p (p\<lparr>main_thread := (main_thread p)\<lparr>main_at := Testing\<rparr>\<rparr>)"
| signal: "process_end p = None \<Longrightarrow> main_at (main_thread p) \<noteq> Holding \<Longrightarrow>
    v3_process_step P J gen junk p (v3_signalled sig p)"
| signal_here: "process_end p = None \<Longrightarrow> main_at (main_thread p) = Holding \<Longrightarrow>
    v3_process_step P J gen junk p (p\<lparr>main_thread := (main_thread p)\<lparr>main_at := Deadlocked\<rparr>\<rparr>)"
| construct: "process_end p = None \<Longrightarrow> network p = Constructing \<Longrightarrow>
    v3_process_step P J gen junk p (v3_construct bound p)"
| accept: "process_end p = None \<Longrightarrow> network p = Running \<Longrightarrow> \<not> ioc_stopped p \<Longrightarrow>
    v3_process_step P J gen junk p (v3_process_serve P J gen junk (Accept error) p)"
| handler: "process_end p = None \<Longrightarrow> network p = Running \<Longrightarrow> \<not> ioc_stopped p \<Longrightarrow> sized ne \<Longrightarrow>
    v3_process_step P J gen junk p (v3_process_serve P J gen junk (On k ne) p)"
| push: "process_end p = None \<Longrightarrow> network p = Running \<Longrightarrow>
    v3_process_step P J gen junk p (v3_process_serve P J gen junk (Push k) p)"
| over: "process_end p = None \<Longrightarrow> network p = Running \<Longrightarrow> ioc_stopped p \<Longrightarrow> all_pushed (svc p) \<Longrightarrow>
    v3_process_step P J gen junk p (p\<lparr>network := Run_Over\<rparr>)"
| work: "process_end p = None \<Longrightarrow> v3_process_step P J gen junk p (v3_process_work P J gen junk p)"

inductive_cases v3_process_stepE
  [consumes 1, case_names main spurious signal signal_here construct accept handler push over work]:
  "v3_process_step P J gen junk p p'"

section \<open>The order of the shutdown\<close>

text \<open>
  The handlers and the server never outlive the \<open>io_context\<close>, nothing is stopped unasked, and while the
  process lives, the invariants of the server hold.
\<close>

definition shutdown_ok :: "v3_process \<Rightarrow> bool" where
  "shutdown_ok p \<longleftrightarrow>
     (phase p \<in> {Stopping, Joining, Unwinding, Exiting} \<longrightarrow> is_server_terminated (main_thread p)) \<and>
     (ioc_stopped p \<longleftrightarrow> phase p \<in> {Joining, Unwinding, Exiting}) \<and>
     (network p = Run_Over \<longrightarrow> ioc_stopped p \<and> all_pushed (svc p)) \<and>
     (phase p \<in> {Unwinding, Exiting} \<longrightarrow> network p = Run_Over) \<and>
     (ioc_gone p \<longleftrightarrow> phase p = Exiting) \<and>
     (process_end p = Some Exited \<longrightarrow> phase p = Exiting \<and> logic_que (svc p) = [])"

lemma shutdown_start: "shutdown_ok v3_process_start"
  by (simp add: shutdown_ok_def v3_process_start_def)

lemma v3_deal_posts: "v3_deal P J nd s = (es, Returned s') \<Longrightarrow> posted es = []"
  using v3_Send_only [of P "Send_String _ _"]
  by (fastforce simp: v3_deal_def v3_deal_front_def v3_HelloWorldCallBack_def Let_def
      split: option.splits callback.splits sum.splits prod.splits outcome.splits)

lemma deal_next_pushed: "all_pushed st \<Longrightarrow> all_pushed (deal_next (v3_deal P J) st)"
  by (auto simp: all_pushed_def deal_next_def v3_deal_posts split: list.splits option.splits prod.splits outcome.splits)

lemma main_loop_leaves:
  "v3_main_loop m = Some m' \<Longrightarrow> main_at m' = Leaving \<Longrightarrow> is_server_terminated m'"
  by (auto simp: v3_main_loop_def split: main_at.splits if_splits)

lemma main_next_ok:
  assumes ok: "shutdown_ok p" and live: "process_end p = None" and main_step: "v3_main_next p = Some p'"
  shows "shutdown_ok p'"
proof (cases "phase p")
  case In_Loop
  with ok live main_step show ?thesis
    by (auto simp: shutdown_ok_def v3_main_next_def main_loop_leaves split: option.splits if_splits)
qed (use assms in \<open>auto simp: shutdown_ok_def v3_main_next_def split: if_splits\<close>)

lemma serve_ok:
  assumes "shutdown_ok p" "network p = Running"
  shows "shutdown_ok (v3_process_serve P J gen junk e p)"
  using assms by (auto simp: shutdown_ok_def v3_process_serve_def Let_def)

lemma work_ok:
  assumes "shutdown_ok p"
  shows "shutdown_ok (v3_process_work P J gen junk p)"
  using assms
  by (auto simp: shutdown_ok_def v3_process_work_def v3_process_serve_def v3_serve_def Let_def deal_next_pushed)

lemma shutdown_step:
  assumes ok: "shutdown_ok p" and step: "v3_process_step P J gen junk p p'"
  shows "shutdown_ok p'"
  using step
proof (cases rule: v3_process_stepE)
  case main
  then show ?thesis using main_next_ok [OF ok] by blast
next
  case (signal sig)
  then show ?thesis
    using ok by (auto simp: shutdown_ok_def v3_signalled_def v3_signal_handler_def)
next
  case (construct bound)
  then show ?thesis
    using ok by (simp add: shutdown_ok_def v3_construct_def)
next
  case over
  then show ?thesis using ok by (auto simp: shutdown_ok_def)
next
  case spurious
  then show ?thesis using ok by (auto simp: shutdown_ok_def)
next
  case signal_here
  then show ?thesis using ok by (auto simp: shutdown_ok_def)
qed (use ok in \<open>simp_all add: serve_ok work_ok\<close>)

lemma shutdown_reachable:
  "(v3_process_step P J gen junk)\<^sup>*\<^sup>* v3_process_start p \<Longrightarrow> shutdown_ok p"
  by (induction rule: rtranclp_induct) (auto intro: shutdown_start shutdown_step)

text \<open>The server inside the process.\<close>

definition server_sound :: "platform \<Rightarrow> 'j json \<Rightarrow> (nat \<Rightarrow> string) \<Rightarrow> v3_process \<Rightarrow> bool" where
  "server_sound P J gen p \<longleftrightarrow> (process_end p = None \<longrightarrow>
     down (svc p) = None \<and> reg_ok gen (svc p) \<and> request_server.service_ok (v3_answer J) (svc p))"

lemma sound_serve:
  assumes P: "network_order P" and inj: "inj gen" and ok: "server_sound P J gen p" "process_end p = None"
    and e: "\<And>k ne. e = On k ne \<Longrightarrow> sized ne"
  shows "server_sound P J gen (v3_process_serve P J gen junk e p)"
  using ok v3_step_ok [OF P inj _ _ e, of "svc p" J]
  by (simp add: server_sound_def v3_process_serve_def Let_def)

lemma sound_step:
  assumes P: "network_order P" and inj: "inj gen" and ok: "server_sound P J gen p"
    and step: "v3_process_step P J gen junk p p'"
  shows "server_sound P J gen p'"
  using step
proof (cases rule: v3_process_stepE)
  case main
  then have "svc p' = svc p" "process_end p = None"
    by (auto simp: v3_main_next_def split: v3_phase.splits option.splits if_splits)
  with ok show ?thesis by (simp add: server_sound_def)
next
  case work
  have "server_sound P J gen (v3_process_serve P J gen junk Work p)"
    using sound_serve [OF P inj ok work(2), of Work] by simp
  with work show ?thesis by (simp add: server_sound_def v3_process_work_def Let_def)
next
  case (handler ne k)
  then show ?thesis using sound_serve [OF P inj ok] by blast
qed (use ok sound_serve [OF P inj ok] in \<open>auto simp: server_sound_def v3_signalled_def v3_construct_def\<close>)

lemma sound_reachable:
  assumes P: "network_order P" and inj: "inj gen"
    and "(v3_process_step P J gen junk)\<^sup>*\<^sup>* v3_process_start p"
  shows "server_sound P J gen p"
  using assms(3)
proof (induction rule: rtranclp_induct)
  case base
  show ?case
    using v3_run_ok [OF P inj, of "[]" J junk]
    by (simp add: server_sound_def v3_process_start_def events_sized_def) (simp add: v3_started_def new_service_def)
next
  case (step p p')
  then show ?case using sound_step [OF P inj] by blast
qed

section \<open>Work that is left when the context is destroyed\<close>

definition doomed :: "v3_process \<Rightarrow> bool" where
  "doomed p \<longleftrightarrow> (case process_end p of
     Some x \<Rightarrow> x \<noteq> Exited
   | None \<Rightarrow> phase p = Exiting \<and> network p = Run_Over \<and> ioc_gone p \<and> logic_que (svc p) \<noteq> [])"

lemma late_work_doomed:
  assumes "doomed p" "process_end p = None"
  shows "doomed (v3_process_work P J gen junk p)"
proof -
  obtain nd rest where q: "logic_que (svc p) = nd # rest"
    using assms by (auto simp: doomed_def neq_Nil_conv)
  have "logic_que (v3_serve P J gen junk (svc p) Work) \<noteq> []" if "v3_late_fault P J (svc p) = None"
    using that q
    by (auto simp: v3_late_fault_def v3_serve_def deal_next_def Let_def
        split: if_splits option.splits prod.splits outcome.splits)
  with assms show ?thesis
    by (auto simp: doomed_def v3_process_work_def v3_process_serve_def Let_def split: option.splits)
qed

lemma doomed_step:
  assumes "doomed p" and step: "v3_process_step P J gen junk p p'"
  shows "doomed p'"
  using step
proof (cases rule: v3_process_stepE)
  case work
  then show ?thesis using late_work_doomed assms(1) by blast
qed (use assms(1) in \<open>auto simp: doomed_def v3_main_next_def v3_signalled_def\<close>)

lemma doomed_run:
  "(v3_process_step P J gen junk)\<^sup>*\<^sup>* p p' \<Longrightarrow> doomed p \<Longrightarrow> doomed p'"
  by (induction rule: rtranclp_induct) (auto intro: doomed_step)

section \<open>The shutdown comes to an end\<close>

lemma worker_drains:
  assumes P: "network_order P" and inj: "inj gen"
  shows "phase p = Exiting \<Longrightarrow> process_end p = None \<Longrightarrow> server_sound P J gen p \<Longrightarrow>
    \<exists>p'. (v3_process_step P J gen junk)\<^sup>*\<^sup>* p p' \<and> process_end p' \<noteq> None \<and>
      (logic_que (svc p) = [] \<longrightarrow> process_end p' = Some Exited)"
proof (induction "logic_que (svc p)" arbitrary: p)
  case Nil
  then have "v3_process_step P J gen junk p (p\<lparr>process_end := Some Exited\<rparr>)"
    by (intro v3_process_step.main) (simp_all add: v3_main_next_def)
  then show ?case by (intro exI [of _ "p\<lparr>process_end := Some Exited\<rparr>"]) auto
next
  case (Cons nd rest)
  let ?p = "v3_process_work P J gen junk p"
  have step: "v3_process_step P J gen junk p ?p" using Cons.prems(2) by (rule v3_process_step.work)
  show ?case
  proof (cases "process_end ?p = None")
    case False
    with step Cons.hyps(2) show ?thesis by (metis list.distinct(1) r_into_rtranclp)
  next
    case True
    have sound: "server_sound P J gen ?p" using sound_step [OF P inj Cons.prems(3) step] .
    obtain c where "conns (svc p) (ln_session nd) = Some c"
      using request_server.next_message [OF v3_request_server [OF P] _ Cons.hyps(2) [symmetric]] Cons.prems(2,3) unfolding server_sound_def by blast
    then have "rest = logic_que (svc ?p)"
      using True Cons.prems(2,3) Cons.hyps(2) [symmetric]
      by (auto simp: v3_process_work_def v3_process_serve_def v3_serve_def deal_next_def server_sound_def Let_def
          split: if_splits prod.splits outcome.splits)
    moreover have "phase ?p = Exiting"
      using Cons.prems(1) by (simp add: v3_process_work_def v3_process_serve_def Let_def)
    ultimately obtain p' where "(v3_process_step P J gen junk)\<^sup>*\<^sup>* ?p p'" "process_end p' \<noteq> None"
      using Cons.hyps(1) [of ?p] True sound by blast
    with step Cons.hyps(2) show ?thesis by (metis converse_rtranclp_into_rtranclp list.distinct(1))
  qed
qed

lemma push_steps:
  assumes "network p = Running" "process_end p = None" "down (svc p) = None"
  shows "(v3_process_step P J gen junk)\<^sup>*\<^sup>* p (p\<lparr>svc := push_all gen ks (svc p)\<rparr>)"
  using assms
proof (induction ks arbitrary: p)
  case (Cons k ks)
  let ?p = "p\<lparr>svc := push_next (gen k) (svc p)\<rparr>"
  have "v3_process_step P J gen junk p (p\<lparr>svc := push_next (gen k) (svc p), process_end := None\<rparr>)"
    using v3_process_step.push [of p P J gen junk k] Cons.prems
    by (simp add: v3_process_serve_def v3_serve_def Let_def)
  moreover have "p\<lparr>svc := push_next (gen k) (svc p), process_end := None\<rparr> = ?p"
    using Cons.prems(2) by (cases p) simp
  ultimately have "v3_process_step P J gen junk p ?p" by simp
  with Cons.IH [of ?p] Cons.prems show ?case by (auto simp: push_all_def intro: converse_rtranclp_into_rtranclp)
qed (simp add: push_all_def)

lemma handlers_finish:
  assumes P: "network_order P" and p: "network p = Running" "process_end p = None" "server_sound P J gen p"
  shows "\<exists>st. (v3_process_step P J gen junk)\<^sup>*\<^sup>* p (p\<lparr>svc := st\<rparr>) \<and> all_pushed st \<and> (all_pushed (svc p) \<longrightarrow> st = svc p)"
proof -
  have sound: "down (svc p) = None" "reg_ok gen (svc p)" "request_server.service_ok (v3_answer J) (svc p)"
    using p(2,3) by (simp_all add: server_sound_def)
  have "u \<in> gen ` {..<next_object (reg (svc p))} \<and> handed (svc p) u \<le> length (inbox c)" if c: "conns (svc p) u = Some c" for u c
  proof -
    obtain k where "u = gen k" "Suc k < next_object (reg (svc p))" using sound(2) c unfolding reg_ok_def by blast
    moreover have "handed (svc p) u \<le> length (inbox c)"
      using request_server.service_okD [OF v3_request_server [OF P] sound(3) c]
      unfolding request_server.conn_ok_def [OF v3_request_server [OF P]] by simp
    ultimately show ?thesis by auto
  qed
  from pushes_finish [of "svc p" gen "next_object (reg (svc p))", OF this]
  obtain ks where ks: "all_pushed (push_all gen ks (svc p))" "all_pushed (svc p) \<longrightarrow> ks = []" by blast
  with push_steps [OF p(1,2) sound(1), of P J gen junk ks] show ?thesis by (auto simp: push_all_def)
qed

lemma main_more:
  assumes "(v3_process_step P J gen junk)\<^sup>*\<^sup>* p q" "process_end q = None" "v3_main_next q = Some q'"
  shows "(v3_process_step P J gen junk)\<^sup>*\<^sup>* p q'"
  using assms(1) v3_process_step.main [OF assms(2,3)] by (rule rtranclp.rtrancl_into_rtrancl)

lemma shutdown_ends:
  assumes P: "network_order P" and inj: "inj gen"
    and p: "shutdown_ok p" "server_sound P J gen p" "process_end p = None"
    and after: "phase p \<in> {Stopping, Joining, Unwinding, Exiting}" "network p \<noteq> Constructing"
  shows "\<exists>p'. (v3_process_step P J gen junk)\<^sup>*\<^sup>* p p' \<and> process_end p' \<noteq> None \<and>
    (all_pushed (svc p) \<and> logic_que (svc p) = [] \<longrightarrow> process_end p' = Some Exited)"
proof -
  let ?R = "(v3_process_step P J gen junk)\<^sup>*\<^sup>*"
  have exiting: ?thesis if "?R p q" "phase q = Exiting" "process_end q = None" "all_pushed (svc p) \<longrightarrow> svc q = svc p" for q
  proof -
    have "server_sound P J gen q"
      using that(1) by (induction rule: rtranclp_induct) (auto intro: p(2) sound_step [OF P inj])
    with that worker_drains [OF P inj that(2,3)] show ?thesis by (metis rtranclp_trans)
  qed
  have unwinding: ?thesis if "?R p q" "phase q = Unwinding" "process_end q = None" "all_pushed (svc p) \<longrightarrow> svc q = svc p" for q
    by (rule exiting [of "q\<lparr>ioc_gone := True, phase := Exiting\<rparr>"])
      (use that in \<open>auto intro: main_more [OF that(1,3)] simp: v3_main_next_def\<close>)
  have joining: ?thesis if "?R p q" "phase q = Joining" "process_end q = None" "network q = Run_Over"
    "all_pushed (svc p) \<longrightarrow> svc q = svc p" for q
    by (rule unwinding [of "q\<lparr>phase := Unwinding\<rparr>"])
      (use that in \<open>auto intro: main_more [OF that(1,3)] simp: v3_main_next_def\<close>)
  have running: ?thesis if "?R p q" "phase q = Joining" "process_end q = None" "ioc_stopped q" "network q \<noteq> Constructing"
    "svc q = svc p" for q
  proof (cases "network q = Run_Over")
    case False
    note live = that(3)
    from False have run: "network q = Running" using that(5) by (cases "network q") auto
    have "server_sound P J gen q"
      using that(1) by (induction rule: rtranclp_induct) (auto intro: p(2) sound_step [OF P inj])
    then obtain st where st: "?R q (q\<lparr>svc := st\<rparr>)" "all_pushed st" "all_pushed (svc q) \<longrightarrow> st = svc q"
      using handlers_finish [OF P run live] by blast
    have "v3_process_step P J gen junk (q\<lparr>svc := st\<rparr>) (q\<lparr>svc := st, network := Run_Over\<rparr>)"
      using v3_process_step.over [of "q\<lparr>svc := st\<rparr>"] st(2) that run by simp
    with that(1) st(1) have "?R p (q\<lparr>svc := st, network := Run_Over\<rparr>)" by simp
    then show ?thesis by (rule joining) (use that st in auto)
  qed (use that joining in auto)
  from after(1) consider "phase p = Stopping" | "phase p = Joining" | "phase p = Unwinding" | "phase p = Exiting" by blast
  then show ?thesis
  proof cases
    case 1
    show ?thesis
      by (rule running [of "p\<lparr>ioc_stopped := True, phase := Joining\<rparr>"])
        (use 1 p after in \<open>auto intro: main_more [OF rtranclp.rtrancl_refl] simp: v3_main_next_def\<close>)
  next
    case 2
    with p after show ?thesis by (intro running [of p]) (auto simp: shutdown_ok_def)
  next
    case 3
    with p show ?thesis by (intro unwinding [of p]) auto
  next
    case 4
    with p show ?thesis by (intro exiting [of p]) auto
  qed
qed

section \<open>Any run of the server is one of the process\<close>

lemma serve_steps:
  assumes p: "network p = Running" "process_end p = None" "\<not> ioc_stopped p" "\<not> ioc_gone p" and sized: "events_sized es"
    and up: "down (foldl (v3_serve P J gen junk) (svc p) es) = None"
  shows "(v3_process_step P J gen junk)\<^sup>*\<^sup>* p (p\<lparr>svc := foldl (v3_serve P J gen junk) (svc p) es\<rparr>)"
  using sized up
proof (induction es rule: rev_induct)
  case (snoc e es)
  let ?st = "foldl (v3_serve P J gen junk) (svc p) es"
  let ?p = "p\<lparr>svc := ?st\<rparr>"
  have st: "down ?st = None" using snoc.prems(2) by (auto simp: v3_serve_def [of _ _ _ _ ?st] split: if_splits)
  have eq: "p\<lparr>svc := st, process_end := None\<rparr> = p\<lparr>svc := st\<rparr>" for st using p(2) by (cases p) simp
  have serve: "v3_process_serve P J gen junk e ?p = p\<lparr>svc := v3_serve P J gen junk ?st e\<rparr>"
    using snoc.prems(2) by (simp add: v3_process_serve_def Let_def eq)
  have "v3_process_step P J gen junk ?p (v3_process_serve P J gen junk e ?p)"
  proof (cases e)
    case (Accept error)
    then show ?thesis using v3_process_step.accept [of ?p P J gen junk error] p by simp
  next
    case (On k ne)
    then show ?thesis using v3_process_step.handler [of ?p ne P J gen junk k] p snoc.prems(1) by (simp add: events_sized_def)
  next
    case (Push k)
    then show ?thesis using v3_process_step.push [of ?p P J gen junk k] p by simp
  next
    case Work
    then have "v3_process_work P J gen junk ?p = v3_process_serve P J gen junk e ?p"
      using p(4) serve by (simp add: v3_process_work_def Let_def)
    then show ?thesis using v3_process_step.work [of ?p P J gen junk] p by simp
  qed
  moreover have "events_sized es" using snoc.prems(1) by (simp add: events_sized_def)
  ultimately show ?case using snoc.IH st serve by (auto intro: rtranclp.rtrancl_into_rtrancl)
qed simp

text \<open>A signal may find the server in any of its states; the process then goes down through all its phases.\<close>

lemma shutdown_from:
  assumes sized: "events_sized es" and up: "down (foldl (v3_serve P J gen junk) v3_started es) = None"
    and pushed: "all_pushed (foldl (v3_serve P J gen junk) v3_started es)"
  defines "st \<equiv> foldl (v3_serve P J gen junk) v3_started es"
  shows "(v3_process_step P J gen junk)\<^sup>*\<^sup>* v3_process_start
    \<lparr>phase = Exiting, main_thread = \<lparr>main_at = Leaving, is_server_terminated = True\<rparr>, network = Run_Over,
      ioc_stopped = True, ioc_gone = True, svc = st, process_end = None\<rparr>"
proof -
  let ?R = "(v3_process_step P J gen junk)\<^sup>*\<^sup>*"
  let ?p1 = "v3_process_start\<lparr>network := Running\<rparr>"
  let ?leaving = "\<lparr>main_at = Leaving, is_server_terminated = True\<rparr> :: v3_main"
  let ?p = "\<lambda>ph m net b g. \<lparr>phase = ph, main_thread = m, network = net, ioc_stopped = b, ioc_gone = g,
    svc = st, process_end = None\<rparr>"
  have "v3_process_step P J gen junk v3_process_start ?p1"
    using v3_process_step.construct [of v3_process_start P J gen junk True]
    by (simp add: v3_construct_def v3_process_start_def)
  moreover have "?R ?p1 (?p1\<lparr>svc := st\<rparr>)"
    using serve_steps [OF _ _ _ _ sized, of ?p1] up by (simp add: v3_process_start_def st_def)
  moreover have "?p1\<lparr>svc := st\<rparr> = ?p (Installing 0) v3_main_start Running False False"
    by (simp add: v3_process_start_def)
  ultimately have serving: "?R v3_process_start (?p (Installing 0) v3_main_start Running False False)"
    by (metis converse_rtranclp_into_rtranclp)
  have "?R v3_process_start (?p (Installing 1) v3_main_start Running False False)"
    by (rule main_more [OF serving]) (simp_all add: v3_main_next_def)
  then have loop: "?R v3_process_start (?p In_Loop v3_main_start Running False False)"
    by (rule main_more) (simp_all add: v3_main_next_def)
  have "v3_process_step P J gen junk (?p In_Loop v3_main_start Running False False)
      (?p In_Loop \<lparr>main_at = Testing, is_server_terminated = True\<rparr> Running False False)"
    using v3_process_step.signal [of "?p In_Loop v3_main_start Running False False" P J gen junk SIGINT]
    by (simp add: v3_signalled_def v3_signal_handler_def v3_main_start_def)
  with loop have flag: "?R v3_process_start (?p In_Loop \<lparr>main_at = Testing, is_server_terminated = True\<rparr> Running False False)"
    by (rule rtranclp.rtrancl_into_rtrancl)
  have "?R v3_process_start (?p Stopping ?leaving Running False False)"
    by (rule main_more [OF flag]) (simp_all add: v3_main_next_def v3_main_loop_def)
  then have stopped: "?R v3_process_start (?p Joining ?leaving Running True False)"
    by (rule main_more) (simp_all add: v3_main_next_def)
  have "v3_process_step P J gen junk (?p Joining ?leaving Running True False) (?p Joining ?leaving Run_Over True False)"
    using v3_process_step.over [of "?p Joining ?leaving Running True False"] pushed by (simp add: st_def)
  with stopped have over: "?R v3_process_start (?p Joining ?leaving Run_Over True False)"
    by (rule rtranclp.rtrancl_into_rtrancl)
  have "?R v3_process_start (?p Unwinding ?leaving Run_Over True False)"
    by (rule main_more [OF over]) (simp_all add: v3_main_next_def)
  then show ?thesis by (rule main_more) (simp_all add: v3_main_next_def)
qed

end
