(* ===== verification/Mt_Service.thy ===== *)
theory Mt_Service
  imports V3_Service
begin

text \<open>
  \<open>Server-version-3-multi-thread\<close> as a whole. The accept thread inserts a session into the map some time
  after it has started it, so \<open>HandleAccept\<close> is cut as in \<open>Mt_Server\<close>; handlers of different sessions run on
  different threads and catch exceptions, a callback's exception still ends the process. The contract
  \<open>request_server\<close> and the invariants of \<open>Mt_Server\<close> are carried over to this server.
\<close>

section \<open>The server's steps\<close>

datatype mt_service_event = Mt_Event service_event | Insert | Restart

definition mt_deal :: "platform \<Rightarrow> 'j json \<Rightarrow> logic_node \<Rightarrow> v3_session \<Rightarrow> v3_effect list \<times> v3_session outcome" where
  "mt_deal P J nd s =
     (case mt_deal_front P J (mt_RegisterCallBacks Map.empty) nd (\<lambda>_. s) of
        (es, Returned heap) \<Rightarrow> (es, Returned (heap (ln_session nd)))
      | (es, Raised f heap) \<Rightarrow> (es, Raised f (heap (ln_session nd))))"

fun mt_service_step ::
  "platform \<Rightarrow> 'j json \<Rightarrow> (nat \<Rightarrow> string) \<Rightarrow> (nat \<Rightarrow> byte list) \<Rightarrow> mt_server service \<Rightarrow> mt_service_event \<Rightarrow>
   mt_server service" where
  "mt_service_step P J gen junk st (Mt_Event (Accept error)) =
     (if acceptor_at (reg st) \<noteq> Listening then st
      else case accepting (reg st) of
        None \<Rightarrow> st
      | Some k \<Rightarrow>
          (let st1 = (if error then st else connect (gen k) (mt_accepted (gen k) (junk k)) st)
           in st1\<lparr>reg := mt_HandleAccept k error (reg st1)\<rparr>))"
| "mt_service_step P J gen junk st (Mt_Event (On k e)) =
     (let st1 = on_completion (mt_event P) (gen k) e st
      in if asks_clear (gen k) st st1 then st1\<lparr>reg := mt_clear_step gen k (reg st1)\<rparr> else st1)"
| "mt_service_step P J gen junk st (Mt_Event (Push k)) = push_next (gen k) st"
| "mt_service_step P J gen junk st (Mt_Event Work) = deal_next (mt_deal P J) st"
| "mt_service_step P J gen junk st Insert =
     (case acceptor_at (reg st) of Inserting k \<Rightarrow> st\<lparr>reg := mt_insert gen k (reg st)\<rparr> | _ \<Rightarrow> st)"
| "mt_service_step P J gen junk st Restart =
     (if acceptor_at (reg st) = Restarting
      then (let r = mt_StartAccept (reg st)
            in st\<lparr>reg := r, down := (case acceptor_at r of Failed_With f \<Rightarrow> Some f | _ \<Rightarrow> None)\<rparr>)
      else st)"

definition mt_serve ::
  "platform \<Rightarrow> 'j json \<Rightarrow> (nat \<Rightarrow> string) \<Rightarrow> (nat \<Rightarrow> byte list) \<Rightarrow> mt_server service \<Rightarrow> mt_service_event \<Rightarrow>
   mt_server service" where
  "mt_serve P J gen junk st e = (if down st = None then mt_service_step P J gen junk st e else st)"

definition mt_started :: "nat \<Rightarrow> mt_server service" where
  "mt_started n = new_service (mt_CServer n)"

section \<open>The contract\<close>

definition mt_answer :: "'j json \<Rightarrow> short \<times> byte list \<Rightarrow> byte list list" where
  "mt_answer J m =
     (if fst m = short_of_int MSG_HELLO_WORD
      then (case mt_hello_reply J (snd m) of Inl _ \<Rightarrow> [] | Inr (t, i) \<Rightarrow> [call_frame (Send_String t i)]) else [])"

lemma mt_deal_send:
  assumes "mt_deal P J nd s = (es, r)"
  shows "recv_msg_id (ln_recvnode nd) \<noteq> short_of_int MSG_HELLO_WORD \<and> es = [] \<and> r = Returned s \<or>
    recv_msg_id (ln_recvnode nd) = short_of_int MSG_HELLO_WORD \<and>
      ((\<exists>f. mt_hello_reply J (node_text (ln_recvnode nd)) = Inl f \<and> es = [] \<and> r = Raised f s) \<or>
       (\<exists>t i. mt_hello_reply J (node_text (ln_recvnode nd)) = Inr (t, i) \<and> v3_Send_string P t i s = (es, r)))"
  using assms
  by (auto simp: mt_deal_def mt_deal_front_def mt_RegisterCallBacks_def mt_HelloWordCallBack_def mt_Send_eq Let_def
      split: if_splits sum.splits prod.splits outcome.splits)

lemma mt_request_server:
  assumes P: "network_order P"
  shows "request_server (mt_event P) (mt_deal P J) (mt_answer J)"
proof
  fix u c e
  assume ok: "v3_ep_ok u c" and e: "sized e" and up: "ended (mt_event P c e) = None"
  note contract = mt_session_contract [OF P, of u]
  have "\<And>chunk. e = Got chunk \<Longrightarrow> chunk_ok chunk" using e by (simp add: sized_def)
  note step = session_contract.event_step [OF contract ok this, folded mt_event_def, OF _ up]
  from step(2) have "v3_backlog (mt_event P c e) = v3_backlog c" by (simp add: v3_ep_views) force
  with step(1) show "v3_ep_ok u (mt_event P c e) \<and> v3_backlog (mt_event P c e) = v3_backlog c \<and>
      (\<exists>ms. inbox (mt_event P c e) = inbox c @ ms)"
    unfolding mt_event_def using ep_event_grows(1) by blast
next
  fix u c nd es s
  assume ok: "v3_ep_ok u c" and run: "mt_deal P J nd (ep_sess c) = (es, Returned s)"
  from mt_deal_send [OF run] show "v3_ep_ok u (finish_call c (es, Returned s)) \<and>
      inbox (finish_call c (es, Returned s)) = inbox c \<and> v3_backlog (finish_call c (es, Returned s)) =
        v3_backlog c @ (if length (v3_queue (ep_sess c)) \<le> MAX_SENDQUEUE then mt_answer J (msg_of nd) else [])"
  proof (elim disjE conjE exE)
    fix t i
    assume "recv_msg_id (ln_recvnode nd) = short_of_int MSG_HELLO_WORD"
      "mt_hello_reply J (node_text (ln_recvnode nd)) = Inr (t, i)"
    moreover assume "v3_Send_string P t i (ep_sess c) = (es, Returned s)"
    note v3_reply_sent [OF P ok this]
    ultimately show ?thesis by (simp add: mt_answer_def msg_of_def del: finish_call.simps)
  qed (use ok in \<open>simp_all add: mt_answer_def msg_of_def\<close>)
next
  fix m
  show "length (mt_answer J m) \<le> 1" by (simp add: mt_answer_def split: sum.split)
qed

interpretation mt_srv: request_server "mt_event x86_host" "mt_deal x86_host J" "mt_answer J" for J
  by (rule mt_request_server) (rule x86.network_order_axioms)

lemma mt_deal_clears: "mt_deal P J nd s = (es, Returned s') \<Longrightarrow> \<not> clears es"
  using v3_Send_only [of P "Send_String _ _"] by (fastforce dest: mt_deal_send)

section \<open>Runs of the server\<close>

text \<open>
  The registry moves by the steps of \<open>Mt_Server\<close>, where \<open>uncleared\<close> are the sessions still served; no connection exists for the session being accepted.
\<close>

definition mt_reg_ok :: "nat \<Rightarrow> (nat \<Rightarrow> string) \<Rightarrow> mt_server service \<Rightarrow> bool" where
  "mt_reg_ok n gen st \<longleftrightarrow> (mt_server_step gen)\<^sup>*\<^sup>* (mt_CServer n) (reg st) \<and>
     (\<forall>k. k \<in> started (reg st) \<longleftrightarrow> conns st (gen k) \<noteq> None) \<and>
     (\<forall>k. k \<in> uncleared (reg st) \<longleftrightarrow> serving st (gen k)) \<and>
     (\<forall>k. conns st (gen k) \<noteq> None \<longrightarrow> k < next_object (reg st) \<and> accepting (reg st) \<noteq> Some k)"

lemma mt_reg_ok_frame:
  assumes "mt_reg_ok n gen st" "reg st' = reg st" "\<And>v. serving st' v = serving st v" "\<And>v. conns st' v = None \<longleftrightarrow> conns st v = None"
  shows "mt_reg_ok n gen st'"
  using assms(1) unfolding mt_reg_ok_def assms(2-4) by blast

lemma mt_reg_ok_accept:
  fixes error
  assumes inj: "inj gen" and reg: "mt_reg_ok n gen st" and acc: "acceptor_at (reg st) = Listening" "accepting (reg st) = Some k"
    and c: "\<not> cleared c"
  defines "st' \<equiv> (if error then st else connect (gen k) (Inr c) st)\<lparr>reg := mt_HandleAccept k error (reg st)\<rparr>"
  shows "mt_reg_ok n gen st'" and "conns st (gen k) = None"
proof -
  have reach: "(mt_server_step gen)\<^sup>*\<^sup>* (mt_CServer n) (reg st)" using reg by (simp add: mt_reg_ok_def)
  then have k: "k < next_object (reg st)" using tracked_reachable [OF inj] acc(2) by (auto simp: tracked_def)
  show new: "conns st (gen k) = None" using reg acc(2) by (auto simp: mt_reg_ok_def)
  have "(mt_server_step gen)\<^sup>*\<^sup>* (mt_CServer n) (reg st')"
    using reach mt_server_step.accept [OF acc, of gen error] by (auto simp: st'_def)
  moreover have "serving st' (gen j) \<longleftrightarrow> serving st (gen j) \<or> \<not> error \<and> j = k" for j
    using c new by (auto simp: st'_def serving_def connect_def inj_eq [OF inj])
  moreover have "conns st' (gen j) = None \<longleftrightarrow> conns st (gen j) = None \<and> (error \<or> j \<noteq> k)" for j
    by (auto simp: st'_def connect_def inj_eq [OF inj])
  moreover have "reg st' = mt_HandleAccept k error (reg st)" by (simp add: st'_def)
  ultimately show "mt_reg_ok n gen st'"
    using reg k by (auto simp: mt_reg_ok_def mt_HandleAccept_def)
qed

lemma mt_reg_ok_completion:
  fixes k
  assumes inj: "inj gen" and reg: "mt_reg_ok n gen st" and asked: "\<And>c. cleared (ev c e) \<longleftrightarrow> cleared c \<or> clear_calls c < clear_calls (ev c e)"
  defines "st1 \<equiv> on_completion ev (gen k) e st"
  shows "mt_reg_ok n gen (if asks_clear (gen k) st st1
    then st1\<lparr>reg := mt_clear_step gen k (reg st1)\<rparr> else st1)"
proof -
  have sv: "serving st1 v \<longleftrightarrow> serving st v \<and> \<not> (v = gen k \<and> asks_clear (gen k) st st1)" for v
    unfolding st1_def by (rule completion_serving) (rule asked)
  have frame: "reg st1 = reg st" "conns st1 v = None \<longleftrightarrow> conns st v = None" for v
    by (simp_all add: st1_def completion_dom)
  show ?thesis
  proof (cases "asks_clear (gen k) st st1")
    case False
    then have "serving st1 v = serving st v" for v using sv by blast
    from mt_reg_ok_frame [OF reg frame(1) this frame(2)] False show ?thesis by simp
  next
    case True
    then have "k \<in> started (reg st)"
      using reg by (auto simp: mt_reg_ok_def asks_clear_def split: option.splits)
    then have "(mt_server_step gen)\<^sup>*\<^sup>* (mt_CServer n) (mt_clear_step gen k (reg st))"
      using reg mt_server_step.clear [of k "reg st" gen] by (auto simp: mt_reg_ok_def)
    moreover have "serving (st1\<lparr>reg := r\<rparr>) v \<longleftrightarrow> serving st v \<and> v \<noteq> gen k" for v r
      using sv [of v] True by (simp add: serving_def)
    moreover have "conns (st1\<lparr>reg := r\<rparr>) v = None \<longleftrightarrow> conns st v = None" for v r using frame by simp
    ultimately show ?thesis
      using True reg unfolding mt_reg_ok_def
      by (simp add: frame inj_eq [OF inj]) (simp add: mt_clear_step_def mt_ClearSession_def)
  qed
qed

lemma mt_reg_ok_registry:
  assumes reg: "mt_reg_ok n gen st" and step: "mt_server_step gen (reg st) r"
    and same: "started r = started (reg st)" "uncleared r = uncleared (reg st)" and nxt: "next_object (reg st) \<le> next_object r"
    and acc: "\<And>k. accepting r = Some k \<Longrightarrow> accepting (reg st) = Some k \<or> next_object (reg st) \<le> k"
  shows "mt_reg_ok n gen (st\<lparr>reg := r\<rparr>)"
proof -
  have "(mt_server_step gen)\<^sup>*\<^sup>* (mt_CServer n) r" using reg step by (auto simp: mt_reg_ok_def)
  moreover have "serving (st\<lparr>reg := r\<rparr>) v = serving st v" for v by (simp add: serving_def)
  ultimately show ?thesis using reg same nxt acc by (fastforce simp: mt_reg_ok_def)
qed

lemma mt_StartAccept_frame:
  "started (mt_StartAccept srv) = started srv" "uncleared (mt_StartAccept srv) = uncleared srv"
  "next_object srv \<le> next_object (mt_StartAccept srv)"
  "accepting (mt_StartAccept srv) = Some k \<Longrightarrow> accepting srv = Some k \<or> next_object srv \<le> k"
  by (auto simp: mt_StartAccept_def split: prod.splits sum.splits)

lemma mt_accept_ok:
  fixes error :: bool and junk :: "nat \<Rightarrow> byte list"
  assumes P: "network_order P" and inj: "inj gen" and reg: "mt_reg_ok n gen st"
    and ok: "request_server.service_ok (mt_answer J) st"
  defines "st' \<equiv> mt_service_step P J gen junk st (Mt_Event (Accept error))"
  shows "mt_reg_ok n gen st' \<and> request_server.service_ok (mt_answer J) st'"
proof (cases "acceptor_at (reg st) = Listening \<and> accepting (reg st) \<noteq> None")
  case False
  then have "st' = st" unfolding st'_def by auto
  with reg ok show ?thesis by simp
next
  case True
  note server = mt_request_server [OF P, of J]
  from True obtain k where acc: "acceptor_at (reg st) = Listening" "accepting (reg st) = Some k" by blast
  obtain c where c: "mt_accepted (gen k) (junk k) = Inr c" "v3_ep_ok (gen k) c" "on_tcp c = []"
    "v3_queue (ep_sess c) = []" "\<not> cleared c"
    using v3_accepted_ok unfolding mt_accepted_eq by blast
  note accept = mt_reg_ok_accept(1) [OF inj reg acc c(5), of error] mt_reg_ok_accept(2) [OF inj reg acc c(5)]
  let ?st1 = "if error then st else connect (gen k) (Inr c) st"
  have st': "st' = ?st1\<lparr>reg := mt_HandleAccept k error (reg st)\<rparr>"
    using acc c(1) by (simp add: st'_def connect_def)
  have "request_server.service_ok (mt_answer J) ?st1"
    using request_server.connect_ok [OF server ok accept(2) refl c(2-4)] ok by simp
  with accept(1) show ?thesis by (simp add: st' request_server.reg_irrelevant [OF server])
qed

lemma mt_completion_ok:
  fixes k :: nat and junk :: "nat \<Rightarrow> byte list"
  assumes P: "network_order P" and inj: "inj gen" and reg: "mt_reg_ok n gen st"
    and ok: "request_server.service_ok (mt_answer J) st" and ne: "sized ne"
  defines "st' \<equiv> mt_service_step P J gen junk st (Mt_Event (On k ne))"
  assumes up: "down st' = None"
  shows "mt_reg_ok n gen st' \<and> request_server.service_ok (mt_answer J) st'"
proof -
  note server = mt_request_server [OF P, of J]
  let ?st1 = "on_completion (mt_event P) (gen k) ne st"
  have st': "st' = (if asks_clear (gen k) st ?st1
      then ?st1\<lparr>reg := mt_clear_step gen k (reg ?st1)\<rparr> else ?st1)"
    unfolding st'_def by (simp add: Let_def)
  then have "down ?st1 = None" using up by (simp split: if_splits)
  then have "request_server.service_ok (mt_answer J) ?st1"
    using request_server.on_completion_ok [OF server ok] ne by blast
  moreover have "mt_reg_ok n gen st'"
    unfolding st' by (rule mt_reg_ok_completion [OF inj reg]) (simp only: mt_event_def ep_event_clears)
  ultimately show ?thesis by (auto simp: st' request_server.reg_irrelevant [OF server])
qed

text \<open>The steps of the accept thread in which only the registry changes.\<close>

lemma mt_registry_ok:
  assumes P: "network_order P" and reg: "mt_reg_ok n gen st" and ok: "request_server.service_ok (mt_answer J) st"
    and e: "e \<in> {Insert, Restart}" and up: "down st = None" "down (mt_service_step P J gen junk st e) = None"
  shows "mt_reg_ok n gen (mt_service_step P J gen junk st e) \<and>
    request_server.service_ok (mt_answer J) (mt_service_step P J gen junk st e)"
proof (cases "e = Insert \<and> (\<exists>k. acceptor_at (reg st) = Inserting k) \<or> e = Restart \<and> acceptor_at (reg st) = Restarting")
  case False
  with e have "mt_service_step P J gen junk st e = st" by (auto split: acceptor.split)
  with reg ok show ?thesis by simp
next
  case True
  note regs = request_server.reg_irrelevant [OF mt_request_server [OF P, of J]]
  from True show ?thesis
  proof (elim disjE conjE exE)
    fix k
    assume e: "e = Insert" and k: "acceptor_at (reg st) = Inserting k"
    have "mt_reg_ok n gen (st\<lparr>reg := mt_insert gen k (reg st)\<rparr>)"
      by (rule mt_reg_ok_registry [OF reg mt_server_step.insert [OF k]]) (simp_all add: mt_insert_def)
    with k ok show ?thesis unfolding e by (simp add: regs)
  next
    assume e: "e = Restart" and r: "acceptor_at (reg st) = Restarting"
    have "mt_reg_ok n gen (st\<lparr>reg := mt_StartAccept (reg st)\<rparr>)"
      by (rule mt_reg_ok_registry [OF reg mt_server_step.restart [OF r]]) (rule mt_StartAccept_frame, assumption?)+
    moreover have "mt_service_step P J gen junk st e = st\<lparr>reg := mt_StartAccept (reg st)\<rparr>"
      using up r unfolding e by (auto simp: Let_def)
    ultimately show ?thesis using ok by (simp add: regs)
  qed
qed

lemma mt_step_ok:
  assumes P: "network_order P" and inj: "inj gen" and reg: "mt_reg_ok n gen st"
    and ok: "request_server.service_ok (mt_answer J) st" and e: "\<And>k ne. e = Mt_Event (On k ne) \<Longrightarrow> sized ne"
    and up: "down st = None" "down (mt_serve P J gen junk st e) = None"
  shows "mt_reg_ok n gen (mt_serve P J gen junk st e) \<and>
    request_server.service_ok (mt_answer J) (mt_serve P J gen junk st e)"
proof -
  note server = mt_request_server [OF P, of J]
  have step: "mt_serve P J gen junk st e = mt_service_step P J gen junk st e" using up by (simp add: mt_serve_def)
  show ?thesis
  proof (cases "e \<in> {Insert, Restart}")
    case True
    with mt_registry_ok [OF P reg ok True up(1)] up(2) show ?thesis by (simp add: step)
  next
    case False
    then obtain x where x: "e = Mt_Event x" by (cases e) auto
    show ?thesis
    proof (cases x)
      case (Accept error)
      show ?thesis unfolding step unfolding x Accept by (rule mt_accept_ok [OF P inj reg ok])
    next
      case (On k ne)
      then show ?thesis
        using mt_completion_ok [OF P inj reg ok, of ne junk k] e up(2) unfolding step unfolding x by blast
    next
      case (Push k)
      have "mt_reg_ok n gen (push_next (gen k) st)" by (rule mt_reg_ok_frame [OF reg]) (simp_all add: serving_def)
      then show ?thesis using request_server.push_next_ok [OF server ok] unfolding step unfolding x Push by simp
    next
      case Work
      have "mt_reg_ok n gen (deal_next (mt_deal P J) st)"
        by (rule mt_reg_ok_frame [OF reg]) (rule deal_next_frame, erule mt_deal_clears)+
      then show ?thesis using request_server.deal_next_ok [OF server ok] up(2) unfolding step unfolding x Work by simp
    qed
  qed
qed

definition mt_events_sized :: "mt_service_event list \<Rightarrow> bool" where
  "mt_events_sized es \<longleftrightarrow> (\<forall>e\<in>set es. case e of Mt_Event (On k ne) \<Rightarrow> sized ne | _ \<Rightarrow> True)"

lemma mt_run_ok:
  assumes P: "network_order P" and inj: "inj gen" and sized: "mt_events_sized es"
    and up: "down (foldl (mt_serve P J gen junk) (mt_started n) es) = None"
  defines "st \<equiv> foldl (mt_serve P J gen junk) (mt_started n) es"
  shows "mt_reg_ok n gen st" and "request_server.service_ok (mt_answer J) st"
proof -
  have "mt_reg_ok n gen st \<and> request_server.service_ok (mt_answer J) st"
    using sized up unfolding st_def
  proof (induction es rule: rev_induct)
    case Nil
    have "started (mt_CServer n) = {}" "uncleared (mt_CServer n) = {}" by (simp_all add: mt_CServer_def mt_StartAccept_frame)
    then show ?case
      using request_server.new_service_ok [OF mt_request_server [OF P], of J "mt_CServer n"]
      by (simp add: mt_started_def) (simp add: mt_reg_ok_def new_service_def serving_def)
  next
    case (snoc e es)
    let ?st = "foldl (mt_serve P J gen junk) (mt_started n) es"
    have "down ?st = None" using snoc.prems(2) by (auto simp: mt_serve_def [of _ _ _ _ ?st] split: if_splits)
    moreover have "sized ne" if "e = Mt_Event (On k ne)" for k ne
      using snoc.prems(1) that by (simp add: mt_events_sized_def)
    ultimately show ?case using snoc mt_step_ok [OF P inj, of n ?st J e junk] by (simp add: mt_events_sized_def)
  qed
  then show "mt_reg_ok n gen st" "request_server.service_ok (mt_answer J) st" by simp_all
qed

text \<open>Connections have the uuids of sessions.\<close>

lemma mt_serve_dom:
  assumes "dom (conns st) \<subseteq> range gen"
  shows "dom (conns (mt_serve P J gen junk st e)) \<subseteq> range gen"
proof (cases "(P, J, gen, junk, st, e)" rule: mt_service_step.cases)
  case (1 P J gen junk st error)
  with assms show ?thesis
    by (auto simp: mt_serve_def Let_def connect_def split: option.splits sum.splits if_splits)
next
  case (2 P J gen junk st k ne)
  with assms show ?thesis
    by (auto simp: mt_serve_def Let_def on_completion_def split: option.splits if_splits)
next
  case (4 P J gen junk st)
  with assms show ?thesis
    by (auto simp: mt_serve_def deal_next_def split: list.splits option.splits prod.splits outcome.splits if_splits)
next
  case (5 P J gen junk st)
  with assms show ?thesis by (auto simp: mt_serve_def split: acceptor.splits if_splits)
next
  case (6 P J gen junk st)
  with assms show ?thesis by (auto simp: mt_serve_def Let_def split: if_splits)
qed (use assms in \<open>auto simp: mt_serve_def\<close>)

section \<open>What ends the server\<close>

definition mt_fatal_message :: "'j json \<Rightarrow> short \<times> byte list \<Rightarrow> bool" where
  "mt_fatal_message J m \<longleftrightarrow> fst m = short_of_int MSG_HELLO_WORD \<and>
     (case mt_hello_reply J (snd m) of Inl f \<Rightarrow> True | Inr (t, i) \<Rightarrow> 32763 < length t mod 65536)"

text \<open>
  Exceptions of one connection's handlers stay in that connection; what is left are undefined behaviour
  (a header announcing \<open>-1\<close> bytes), a callback that throws, and a pool without contexts.
\<close>

lemma mt_isolates_exceptions:
  assumes P: "network_order P" and ok: "request_server.service_ok (mt_answer J) st"
    and sized: "sized ne" and up: "down st = None"
    and dn: "down (mt_serve P J gen junk st (Mt_Event (On k ne))) = Some f"
  shows "\<not> is_exception f \<and> (\<exists>chunk c. ne = Got chunk \<and> conns st (gen k) = Some c \<and> read_pending c \<and>
    fst (v3_spec (Head []) (received c @ chunk)) = Crashed f)"
proof -
  note server = mt_request_server [OF P, of J]
  let ?st1 = "on_completion (mt_event P) (gen k) ne st"
  have "down ?st1 = Some f" using dn up by (simp add: mt_serve_def Let_def split: if_splits)
  then obtain c where c: "conns st (gen k) = Some c" "ended (mt_event P c ne) = Some f"
    using up by (auto simp: on_completion_def Let_def split: option.splits)
  have ep: "v3_ep_ok (gen k) c"
    using request_server.service_okD [OF server ok c(1)] request_server.conn_ok_def [OF server, of st "gen k" c] by blast
  have "\<And>chunk. ne = Got chunk \<Longrightarrow> chunk_ok chunk" using sized by (simp add: sized_def)
  from session_contract.event_ends [OF mt_session_contract [OF P] ep this, of ne f] c
  show ?thesis by (auto simp: mt_event_def mt_fatal_def)
qed

lemma mt_deal_raises:
  assumes P: "network_order P" and ok: "v3_ep_ok u c" and run: "mt_deal P J nd (ep_sess c) = (es, Raised f s)"
  shows "mt_fatal_message J (msg_of nd)"
proof (rule ccontr)
  assume good: "\<not> mt_fatal_message J (msg_of nd)"
  from mt_deal_send [OF run] obtain t i where id: "recv_msg_id (ln_recvnode nd) = short_of_int MSG_HELLO_WORD"
    and reply: "mt_hello_reply J (node_text (ln_recvnode nd)) = Inr (t, i)"
    and send: "v3_Send_string P t i (ep_sess c) = (es, Raised f s)"
    using good by (auto simp: mt_fatal_message_def msg_of_def)
  then have "length t mod 65536 \<le> 32763" using good by (simp add: mt_fatal_message_def msg_of_def)
  from v3_Send_string_returns [OF P ok this, of i] send show False by simp
qed

end
