(* ===== verification/Mt_Process.thy ===== *)
theory Mt_Process
  imports Mt_Service Lifecycle
begin

text \<open>
  The process of \<open>Server-version-3-multi-thread\<close>. \<open>main\<close> creates the pool, registers for the signals with
  an \<open>io_context\<close> of its own, constructs the server and runs that context, whose thread is also the accept
  thread; a signal stops the context and the pool. After \<open>main\<close> the destructors of the two singletons
  run, in an order the language does not fix.
\<close>

section \<open>The process\<close>

datatype mt_phase =
    Mt_Starting       \<comment> \<open>the pool exists, no signal is registered yet\<close>
  | Mt_Registered     \<comment> \<open>before the constructor of the server\<close>
  | Mt_Running        \<comment> \<open>in \<open>io_context.run()\<close>\<close>
  | Mt_Stopping       \<comment> \<open>in \<open>pool->Stop()\<close>: the contexts are stopped, the threads being joined\<close>
  | Mt_Leaving        \<comment> \<open>\<open>run\<close> returns\<close>
  | Mt_Exiting        \<comment> \<open>after \<open>main\<close>\<close>

record mt_process =
  mt_phase :: mt_phase
  mt_pool :: io_pool                   \<comment> \<open>the pool, until the server that uses it exists\<close>
  mt_svc :: "mt_server service"
  mt_pool_gone :: bool
  mt_end :: "process_end option"

definition mt_process_start :: "nat \<Rightarrow> mt_process" where
  "mt_process_start n = \<lparr>mt_phase = Mt_Starting, mt_pool = mt_AsioIOServicePool n, mt_svc = mt_started n,
     mt_pool_gone = False, mt_end = None\<rparr>"

text \<open>A thread that is destroyed while it can still be joined ends the process.\<close>

definition destroy_pool :: "io_pool \<Rightarrow> process_end option" where
  "destroy_pool pool = (if True \<in> set (pool_threads pool) then Some Joinable_Destroyed else None)"

text \<open>
  The constructor of the server. A port that cannot be bound throws, and \<open>main\<close> catches; but then nothing
  has stopped the pool when its destructor runs. A pool without contexts is accessed out of bounds.
\<close>

definition mt_construct :: "bool \<Rightarrow> mt_process \<Rightarrow> mt_process" where
  "mt_construct bound p =
     (if \<not> bound
      then p\<lparr>mt_end := Some (case destroy_pool (mt_pool p) of Some x \<Rightarrow> x | None \<Rightarrow> Exited)\<rparr>
      else case acceptor_at (reg (mt_svc p)) of
             Failed_With f \<Rightarrow> p\<lparr>mt_end := Some (Terminated_By f)\<rparr>
           | _ \<Rightarrow> p\<lparr>mt_phase := Mt_Running\<rparr>)"

definition mt_process_serve ::
  "platform \<Rightarrow> 'j json \<Rightarrow> (nat \<Rightarrow> string) \<Rightarrow> (nat \<Rightarrow> byte list) \<Rightarrow> mt_service_event \<Rightarrow> mt_process \<Rightarrow> mt_process" where
  "mt_process_serve P J gen junk e p =
     (let st = mt_serve P J gen junk (mt_svc p) e
      in p\<lparr>mt_svc := st, mt_end := map_option Terminated_By (down st)\<rparr>)"

text \<open>
  \<open>pool->Stop()\<close> returns to the signal's handler, once the handlers that the pool's threads execute have
  pushed their messages.
\<close>

definition mt_process_stop :: "mt_process \<Rightarrow> mt_process option" where
  "mt_process_stop p =
     (case mt_Stop (\<lambda>_. True) (io_pool_of (reg (mt_svc p))) of
        None \<Rightarrow> None
      | Some (Inl f) \<Rightarrow> Some (p\<lparr>mt_end := Some (Terminated_By f)\<rparr>)
      | Some (Inr pool) \<Rightarrow>
          Some (p\<lparr>mt_phase := Mt_Leaving, mt_svc := (mt_svc p)\<lparr>reg := (reg (mt_svc p))\<lparr>io_pool_of := pool\<rparr>\<rparr>\<rparr>))"

text \<open>The worker thread, once the pool's contexts are gone: as in the other server.\<close>

definition mt_late_fault :: "platform \<Rightarrow> 'j json \<Rightarrow> mt_server service \<Rightarrow> fault option" where
  "mt_late_fault P J st =
     (case logic_que st of
        [] \<Rightarrow> None
      | nd # rest \<Rightarrow>
          (let es = (case conns st (ln_session nd) of None \<Rightarrow> [] | Some c \<Rightarrow> fst (mt_deal P J nd (ep_sess c)))
           in if written es \<noteq> [] \<or> ln_session nd \<notin> set (map ln_session rest) then Some Use_After_Free else None))"

definition mt_process_work ::
  "platform \<Rightarrow> 'j json \<Rightarrow> (nat \<Rightarrow> string) \<Rightarrow> (nat \<Rightarrow> byte list) \<Rightarrow> mt_process \<Rightarrow> mt_process" where
  "mt_process_work P J gen junk p =
     (let p' = mt_process_serve P J gen junk (Mt_Event Work) p
      in if mt_end p' = None \<and> mt_pool_gone p
         then p'\<lparr>mt_end := map_option Terminated_By (mt_late_fault P J (mt_svc p))\<rparr> else p')"

inductive mt_process_step ::
  "platform \<Rightarrow> 'j json \<Rightarrow> (nat \<Rightarrow> string) \<Rightarrow> (nat \<Rightarrow> byte list) \<Rightarrow> mt_process \<Rightarrow> mt_process \<Rightarrow> bool"
  for P J gen junk where
  early: "mt_end p = None \<Longrightarrow> mt_phase p = Mt_Starting \<Longrightarrow>
    mt_process_step P J gen junk p (p\<lparr>mt_end := Some Killed\<rparr>)"
| signals: "mt_end p = None \<Longrightarrow> mt_phase p = Mt_Starting \<Longrightarrow>
    mt_process_step P J gen junk p (p\<lparr>mt_phase := Mt_Registered\<rparr>)"
| construct: "mt_end p = None \<Longrightarrow> mt_phase p = Mt_Registered \<Longrightarrow>
    mt_process_step P J gen junk p (mt_construct bound p)"
| accept_thread: "mt_end p = None \<Longrightarrow> mt_phase p = Mt_Running \<Longrightarrow> e \<in> {Mt_Event (Accept error), Insert, Restart} \<Longrightarrow>
    mt_process_step P J gen junk p (mt_process_serve P J gen junk e p)"
| handler: "mt_end p = None \<Longrightarrow> mt_phase p = Mt_Running \<Longrightarrow> sized ne \<Longrightarrow>
    mt_process_step P J gen junk p (mt_process_serve P J gen junk (Mt_Event (On k ne)) p)"
| push: "mt_end p = None \<Longrightarrow> mt_phase p \<in> {Mt_Running, Mt_Stopping} \<Longrightarrow>
    mt_process_step P J gen junk p (mt_process_serve P J gen junk (Mt_Event (Push k)) p)"
| signal: "mt_end p = None \<Longrightarrow> mt_phase p = Mt_Running \<Longrightarrow> acceptor_at (reg (mt_svc p)) = Listening \<Longrightarrow>
    mt_process_step P J gen junk p (p\<lparr>mt_phase := Mt_Stopping\<rparr>)"
| stop: "mt_end p = None \<Longrightarrow> mt_phase p = Mt_Stopping \<Longrightarrow> all_pushed (mt_svc p) \<Longrightarrow> mt_process_stop p = Some p' \<Longrightarrow>
    mt_process_step P J gen junk p p'"
| leave: "mt_end p = None \<Longrightarrow> mt_phase p = Mt_Leaving \<Longrightarrow>
    mt_process_step P J gen junk p (p\<lparr>mt_phase := Mt_Exiting\<rparr>)"
| pool_destructor: "mt_end p = None \<Longrightarrow> mt_phase p = Mt_Exiting \<Longrightarrow> \<not> mt_pool_gone p \<Longrightarrow>
    mt_process_step P J gen junk p
      (p\<lparr>mt_pool_gone := True, mt_end := destroy_pool (io_pool_of (reg (mt_svc p)))\<rparr>)"
| work: "mt_end p = None \<Longrightarrow> mt_process_step P J gen junk p (mt_process_work P J gen junk p)"
| exit: "mt_end p = None \<Longrightarrow> mt_phase p = Mt_Exiting \<Longrightarrow> mt_pool_gone p \<Longrightarrow> logic_que (mt_svc p) = [] \<Longrightarrow>
    mt_process_step P J gen junk p (p\<lparr>mt_end := Some Exited\<rparr>)"

inductive_cases mt_process_stepE
  [consumes 1, case_names early signals construct accept_thread handler push signal stop leave pool_destructor work exit]:
  "mt_process_step P J gen junk p p'"

section \<open>The pool\<close>

text \<open>While the server runs its pool is whole, and stopping it stops every context and joins every thread.\<close>

definition pool_whole :: "nat \<Rightarrow> io_pool \<Rightarrow> bool" where
  "pool_whole n pool \<longleftrightarrow> io_stopped pool = replicate n False \<and> works pool = replicate n True \<and>
     pool_threads pool = replicate n True"

definition pool_down :: "nat \<Rightarrow> io_pool \<Rightarrow> bool" where
  "pool_down n pool \<longleftrightarrow> io_stopped pool = replicate n True \<and> works pool = replicate n False \<and>
     pool_threads pool = replicate n False"

lemma mt_Stop_whole:
  assumes "pool_whole n pool"
  shows "\<exists>pool'. mt_Stop busy pool = Some (Inr pool') \<and> pool_down n pool'"
proof -
  let ?p = "pool\<lparr>io_stopped := replicate n True, works := replicate n False\<rparr>"
  have "join_threads (run_returns busy ?p) 0 (replicate n True) = Some (Inr (replicate n False))"
    by (simp add: join_threads_all run_returns_def)
  with assms show ?thesis by (simp add: mt_Stop_def pool_whole_def pool_down_def stop_works_all)
qed

lemma mt_StartAccept_pool:
  "pool_whole n (io_pool_of srv) \<Longrightarrow> pool_whole n (io_pool_of (mt_StartAccept srv))"
  by (auto simp: mt_StartAccept_def pool_whole_def mt_GetIOService_def Let_def split: prod.splits sum.splits if_splits)

lemma mt_server_pool:
  assumes "(mt_server_step gen)\<^sup>*\<^sup>* (mt_CServer n) srv"
  shows "pool_whole n (io_pool_of srv)"
  using assms
proof (induction rule: rtranclp_induct)
  case base
  show ?case unfolding mt_CServer_def by (rule mt_StartAccept_pool) (simp add: pool_whole_def mt_AsioIOServicePool_def)
next
  case (step srv srv')
  from step.hyps(2) step.IH show ?case
    by (cases rule: mt_server_stepE)
      (simp_all add: mt_HandleAccept_def mt_insert_def mt_clear_step_def mt_ClearSession_def mt_StartAccept_pool)
qed

section \<open>The order of the shutdown\<close>

definition mt_live :: "platform \<Rightarrow> 'j json \<Rightarrow> nat \<Rightarrow> (nat \<Rightarrow> string) \<Rightarrow> mt_process \<Rightarrow> bool" where
  "mt_live P J n gen p \<longleftrightarrow>
     down (mt_svc p) = None \<and> request_server.service_ok (mt_answer J) (mt_svc p) \<and>
     dom (conns (mt_svc p)) \<subseteq> range gen \<and>
     (mt_phase p \<in> {Mt_Starting, Mt_Registered} \<longrightarrow> pool_whole n (mt_pool p) \<and> mt_svc p = mt_started n) \<and>
     (mt_phase p \<in> {Mt_Running, Mt_Stopping} \<longrightarrow> mt_reg_ok n gen (mt_svc p)) \<and>
     (mt_phase p \<in> {Mt_Leaving, Mt_Exiting} \<longrightarrow> pool_down n (io_pool_of (reg (mt_svc p))) \<and> all_pushed (mt_svc p)) \<and>
     (mt_pool_gone p \<longrightarrow> mt_phase p = Mt_Exiting)"

text \<open>How the process may end: the ends that are no fault of a handler or of the worker.\<close>

definition mt_end_ok :: "nat \<Rightarrow> mt_process \<Rightarrow> bool" where
  "mt_end_ok n p \<longleftrightarrow>
     (mt_end p = Some Exited \<longrightarrow> mt_phase p = Mt_Exiting \<and> pool_down n (io_pool_of (reg (mt_svc p))) \<and>
        all_pushed (mt_svc p) \<and> logic_que (mt_svc p) = [] \<or> n = 0) \<and>
     (mt_end p = Some Joinable_Destroyed \<longrightarrow> mt_phase p = Mt_Registered) \<and>
     (mt_end p = Some Killed \<longrightarrow> mt_phase p = Mt_Starting)"

lemma mt_deal_posts: "mt_deal P J nd s = (es, Returned s') \<Longrightarrow> posted es = []"
  using mt_deal_send [of P J nd s es "Returned s'"] v3_Send_only [of P "Send_String _ _" s] by fastforce

lemma mt_deal_next_pushed: "all_pushed st \<Longrightarrow> all_pushed (deal_next (mt_deal P J) st)"
  by (auto simp: all_pushed_def deal_next_def mt_deal_posts split: list.splits option.splits prod.splits outcome.splits)

text \<open>A step of the server inside the process, and one of the worker after it.\<close>

lemma mt_live_serve:
  assumes P: "network_order P" and inj: "inj gen" and ok: "mt_live P J n gen p"
    and ph: "mt_phase p \<in> {Mt_Running, Mt_Stopping}" and e: "\<And>k ne. e = Mt_Event (On k ne) \<Longrightarrow> sized ne"
    and up: "mt_end (mt_process_serve P J gen junk e p) = None"
  shows "mt_live P J n gen (mt_process_serve P J gen junk e p)"
proof -
  have "down (mt_svc p) = None" "mt_reg_ok n gen (mt_svc p)" "request_server.service_ok (mt_answer J) (mt_svc p)"
    "dom (conns (mt_svc p)) \<subseteq> range gen"
    using ok ph by (auto simp: mt_live_def)
  with ok ph up mt_step_ok [OF P inj this(2,3) e this(1)] mt_serve_dom [of "mt_svc p" gen P J junk e]
  show ?thesis by (auto simp: mt_live_def mt_process_serve_def Let_def)
qed

lemma mt_live_work:
  assumes P: "network_order P" and inj: "inj gen" and ok: "mt_live P J n gen p"
    and up: "mt_end (mt_process_work P J gen junk p) = None"
  shows "mt_live P J n gen (mt_process_work P J gen junk p)"
proof -
  let ?q = "mt_process_serve P J gen junk (Mt_Event Work) p"
  have q: "mt_end ?q = None" "\<exists>x. mt_process_work P J gen junk p = ?q\<lparr>mt_end := x\<rparr>"
    using up by (auto simp: mt_process_work_def mt_process_serve_def Let_def split: if_splits)
  have live: "mt_live P J n gen (p\<lparr>mt_end := x\<rparr>) = mt_live P J n gen p" for x p by (simp add: mt_live_def)
  have down: "down (mt_svc p) = None" "down (mt_svc ?q) = None"
    using ok q(1) by (simp_all add: mt_live_def mt_process_serve_def Let_def)
  have svc: "mt_svc ?q = deal_next (mt_deal P J) (mt_svc p)" "mt_phase ?q = mt_phase p" "mt_pool ?q = mt_pool p"
    "mt_pool_gone ?q = mt_pool_gone p"
    using down(1) by (simp_all add: mt_process_serve_def mt_serve_def Let_def)
  have sound: "request_server.service_ok (mt_answer J) (mt_svc ?q)" "dom (conns (mt_svc ?q)) \<subseteq> range gen"
    using request_server.deal_next_ok [OF mt_request_server [OF P], of J "mt_svc p"] ok down
      mt_serve_dom [of "mt_svc p" gen P J junk "Mt_Event Work"]
    by (auto simp: svc(1) mt_live_def mt_serve_def)
  have "reg (mt_svc ?q) = reg (mt_svc p)"
    unfolding svc(1) by (rule deal_next_frame(3)) (rule mt_deal_clears)
  moreover have "mt_reg_ok n gen (mt_svc ?q)" if "mt_reg_ok n gen (mt_svc p)"
    unfolding svc(1) by (rule mt_reg_ok_frame [OF that]) (rule deal_next_frame, erule mt_deal_clears)+
  moreover have "mt_svc ?q = mt_started n" if "mt_svc p = mt_started n"
    by (simp add: svc(1) that) (simp add: mt_started_def new_service_def deal_next_def)
  ultimately have "mt_live P J n gen ?q"
    using ok sound down(2) mt_deal_next_pushed [of "mt_svc p" P J] by (auto simp: mt_live_def svc)
  with q(2) live show ?thesis by metis
qed

lemma all_pushed_reg [simp]: "all_pushed (st\<lparr>reg := r\<rparr>) = all_pushed st"
  by (simp add: all_pushed_def cong: option.case_cong)

definition mt_inv :: "platform \<Rightarrow> 'j json \<Rightarrow> nat \<Rightarrow> (nat \<Rightarrow> string) \<Rightarrow> mt_process \<Rightarrow> bool" where
  "mt_inv P J n gen p \<longleftrightarrow> (mt_end p = None \<longrightarrow> mt_live P J n gen p) \<and> mt_end_ok n p"

lemma mt_inv_start:
  assumes P: "network_order P" and inj: "inj gen"
  shows "mt_inv P J n gen (mt_process_start n)"
proof -
  have down: "down (mt_started n) = None" by (simp add: mt_started_def new_service_def)
  then have "request_server.service_ok (mt_answer J) (mt_started n)"
    using mt_run_ok(2) [OF P inj, of "[]" J _ n] by (simp add: mt_events_sized_def)
  with down show ?thesis
    by (simp add: mt_inv_def mt_live_def mt_end_ok_def mt_process_start_def pool_whole_def mt_AsioIOServicePool_def)
      (simp add: mt_started_def new_service_def)
qed

lemma mt_inv_serve:
  assumes P: "network_order P" and inj: "inj gen" and ok: "mt_inv P J n gen p" "mt_end p = None"
    and ph: "mt_phase p \<in> {Mt_Running, Mt_Stopping}" and e: "\<And>k ne. e = Mt_Event (On k ne) \<Longrightarrow> sized ne"
  shows "mt_inv P J n gen (mt_process_serve P J gen junk e p)"
proof -
  have "mt_live P J n gen p" using ok by (simp add: mt_inv_def)
  note mt_live_serve [OF P inj this ph e]
  then show ?thesis by (auto simp: mt_inv_def mt_end_ok_def mt_process_serve_def Let_def)
qed

lemma mt_inv_construct:
  assumes P: "network_order P" and inj: "inj gen"
    and live: "mt_live P J n gen p" and ph: "mt_phase p = Mt_Registered" "mt_end p = None"
  shows "mt_inv P J n gen (mt_construct bound p)"
proof -
  have p: "mt_svc p = mt_started n" "pool_whole n (mt_pool p)" "down (mt_svc p) = None"
    using live ph(1) unfolding mt_live_def by blast+
  have "mt_reg_ok n gen (mt_started n)"
    using mt_run_ok(1) [OF P inj, of "[]" J _ n] p(1,3) by (simp add: mt_events_sized_def)
  with live ph p show ?thesis
    by (auto simp: mt_inv_def mt_live_def mt_end_ok_def mt_construct_def destroy_pool_def pool_whole_def split: acceptor.split)
qed

lemma mt_inv_stop:
  assumes P: "network_order P" and live: "mt_live P J n gen p" and ph: "mt_phase p = Mt_Stopping" "mt_end p = None"
    and pushed: "all_pushed (mt_svc p)" and stop: "mt_process_stop p = Some p'"
  shows "mt_inv P J n gen p'"
proof -
  have "pool_whole n (io_pool_of (reg (mt_svc p)))"
    using live ph mt_server_pool by (auto simp: mt_live_def mt_reg_ok_def)
  then obtain pool where pool: "mt_Stop (\<lambda>_. True) (io_pool_of (reg (mt_svc p))) = Some (Inr pool)" "pool_down n pool"
    using mt_Stop_whole by blast
  note irrelevant = request_server.reg_irrelevant [OF mt_request_server [OF P]]
  from live ph pushed stop pool show ?thesis
    by (auto simp: mt_inv_def mt_live_def mt_end_ok_def mt_process_stop_def irrelevant)
qed

lemma mt_inv_step:
  assumes P: "network_order P" and inj: "inj gen" and ok: "mt_inv P J n gen p"
    and step: "mt_process_step P J gen junk p p'"
  shows "mt_inv P J n gen p'"
proof -
  have none: "mt_end p = None" using step by (cases rule: mt_process_stepE)
  have live: "mt_live P J n gen p" using ok none by (simp add: mt_inv_def)
  note serve = mt_inv_serve [OF P inj ok none]
  show ?thesis
    using step
  proof (cases rule: mt_process_stepE)
    case (construct bound)
    then show ?thesis using mt_inv_construct [OF P inj live] by simp
  next
    case (accept_thread e error)
    then show ?thesis using serve [of e junk] by auto
  next
    case (handler ne k)
    then show ?thesis using serve [of "Mt_Event (On k ne)" junk] by simp
  next
    case (push k)
    then show ?thesis using serve [of "Mt_Event (Push k)" junk] by simp
  next
    case stop
    then show ?thesis using mt_inv_stop [OF P live] by simp
  next
    case pool_destructor
    then show ?thesis using live by (auto simp: mt_inv_def mt_live_def mt_end_ok_def destroy_pool_def pool_down_def)
  next
    case work
    have "mt_end_ok n (mt_process_work P J gen junk p)"
      by (auto simp: mt_end_ok_def mt_process_work_def mt_process_serve_def Let_def)
    with mt_live_work [OF P inj live] work show ?thesis by (simp add: mt_inv_def)
  qed (use live none in \<open>auto simp: mt_inv_def mt_live_def mt_end_ok_def\<close>)
qed

lemma mt_inv_reachable:
  assumes P: "network_order P" and inj: "inj gen"
    and "(mt_process_step P J gen junk)\<^sup>*\<^sup>* (mt_process_start n) p"
  shows "mt_inv P J n gen p"
  using assms(3)
proof (induction rule: rtranclp_induct)
  case base
  show ?case by (rule mt_inv_start [OF P inj])
next
  case (step p p')
  then show ?case using mt_inv_step [OF P inj] by blast
qed

section \<open>The shutdown comes to an end\<close>

text \<open>After \<open>main\<close>: the worker empties its queue, then the pool is destroyed.\<close>

lemma mt_exit_steps:
  assumes live: "mt_live P J n gen p" and ph: "mt_phase p = Mt_Exiting" "mt_end p = None" "logic_que (mt_svc p) = []"
  shows "\<exists>p'. (mt_process_step P J gen junk)\<^sup>*\<^sup>* p p' \<and> mt_end p' = Some Exited"
proof -
  have last: "\<exists>p'. (mt_process_step P J gen junk)\<^sup>*\<^sup>* q p' \<and> mt_end p' = Some Exited"
    if "mt_end q = None" "mt_phase q = Mt_Exiting" "mt_pool_gone q" "logic_que (mt_svc q) = []" for q
    using mt_process_step.exit [OF that, of P J gen junk] by (intro exI [of _ "q\<lparr>mt_end := Some Exited\<rparr>"]) auto
  show ?thesis
  proof (cases "mt_pool_gone p")
    case True
    with last ph show ?thesis by blast
  next
    case False
    let ?q = "p\<lparr>mt_pool_gone := True, mt_end := destroy_pool (io_pool_of (reg (mt_svc p)))\<rparr>"
    have step: "mt_process_step P J gen junk p ?q"
      using False ph by (intro mt_process_step.pool_destructor)
    have "destroy_pool (io_pool_of (reg (mt_svc p))) = None"
      using live ph by (simp add: mt_live_def destroy_pool_def pool_down_def)
    then show ?thesis using last [of ?q] ph step by (auto intro: converse_rtranclp_into_rtranclp)
  qed
qed

lemma mt_worker_drains:
  assumes P: "network_order P" and inj: "inj gen"
  shows "mt_phase p = Mt_Exiting \<Longrightarrow> mt_end p = None \<Longrightarrow> mt_live P J n gen p \<Longrightarrow>
    \<exists>p'. (mt_process_step P J gen junk)\<^sup>*\<^sup>* p p' \<and> mt_end p' \<noteq> None \<and>
      (logic_que (mt_svc p) = [] \<longrightarrow> mt_end p' = Some Exited)"
proof (induction "logic_que (mt_svc p)" arbitrary: p)
  case Nil
  then show ?case using mt_exit_steps [OF Nil.prems(3,1,2)] by (metis option.distinct(1))
next
  case (Cons nd rest)
  let ?p = "mt_process_work P J gen junk p"
  have step: "mt_process_step P J gen junk p ?p" using Cons.prems(2) by (rule mt_process_step.work)
  show ?case
  proof (cases "mt_end ?p = None")
    case False
    with step Cons.hyps(2) show ?thesis by (metis list.distinct(1) r_into_rtranclp)
  next
    case True
    have live: "mt_live P J n gen ?p" using mt_live_work [OF P inj Cons.prems(3) True] .
    obtain c where "conns (mt_svc p) (ln_session nd) = Some c"
      using request_server.next_message [OF mt_request_server [OF P] _ Cons.hyps(2) [symmetric]] Cons.prems(3) unfolding mt_live_def by blast
    then have "rest = logic_que (mt_svc ?p)"
      using True Cons.prems(2,3) Cons.hyps(2) [symmetric]
      by (auto simp: mt_process_work_def mt_process_serve_def mt_serve_def deal_next_def mt_live_def Let_def
          split: if_splits prod.splits outcome.splits)
    moreover have "mt_phase ?p = Mt_Exiting"
      using Cons.prems(1) by (simp add: mt_process_work_def mt_process_serve_def Let_def)
    ultimately obtain p' where "(mt_process_step P J gen junk)\<^sup>*\<^sup>* ?p p'" "mt_end p' \<noteq> None"
      using Cons.hyps(1) [of ?p] True live by blast
    with step Cons.hyps(2) show ?thesis by (metis converse_rtranclp_into_rtranclp list.distinct(1))
  qed
qed

lemma mt_push_steps:
  assumes "mt_phase p = Mt_Stopping" "mt_end p = None" "down (mt_svc p) = None"
  shows "(mt_process_step P J gen junk)\<^sup>*\<^sup>* p (p\<lparr>mt_svc := push_all gen ks (mt_svc p)\<rparr>)"
  using assms
proof (induction ks arbitrary: p)
  case (Cons k ks)
  let ?p = "p\<lparr>mt_svc := push_next (gen k) (mt_svc p)\<rparr>"
  have "mt_process_step P J gen junk p (p\<lparr>mt_svc := push_next (gen k) (mt_svc p), mt_end := None\<rparr>)"
    using mt_process_step.push [of p P J gen junk k] Cons.prems
    by (simp add: mt_process_serve_def mt_serve_def Let_def)
  moreover have "p\<lparr>mt_svc := push_next (gen k) (mt_svc p), mt_end := None\<rparr> = ?p"
    using Cons.prems(2) by (cases p) simp
  ultimately have "mt_process_step P J gen junk p ?p" by simp
  with Cons.IH [of ?p] Cons.prems show ?case by (auto simp: push_all_def intro: converse_rtranclp_into_rtranclp)
qed (simp add: push_all_def)

lemma mt_handlers_finish:
  assumes P: "network_order P" and live: "mt_live P J n gen p" and ph: "mt_phase p = Mt_Stopping" "mt_end p = None"
  shows "\<exists>st. (mt_process_step P J gen junk)\<^sup>*\<^sup>* p (p\<lparr>mt_svc := st\<rparr>) \<and> all_pushed st \<and> (all_pushed (mt_svc p) \<longrightarrow> st = mt_svc p)"
proof -
  let ?st = "mt_svc p"
  have sound: "down ?st = None" "mt_reg_ok n gen ?st" "request_server.service_ok (mt_answer J) ?st"
    "dom (conns ?st) \<subseteq> range gen"
    using live ph(1) unfolding mt_live_def by blast+
  have "u \<in> gen ` {..<next_object (reg ?st)} \<and> handed ?st u \<le> length (inbox c)" if c: "conns ?st u = Some c" for u c
  proof -
    obtain k where "u = gen k" using sound(4) c by blast
    moreover have "k < next_object (reg ?st)" using sound(2) c calculation by (simp add: mt_reg_ok_def)
    moreover have "handed ?st u \<le> length (inbox c)"
      using request_server.service_okD [OF mt_request_server [OF P] sound(3) c]
      unfolding request_server.conn_ok_def [OF mt_request_server [OF P]] by simp
    ultimately show ?thesis by auto
  qed
  from pushes_finish [of ?st gen "next_object (reg ?st)", OF this]
  obtain ks where ks: "all_pushed (push_all gen ks ?st)" "all_pushed ?st \<longrightarrow> ks = []" by blast
  with mt_push_steps [OF ph sound(1), of P J gen junk ks] show ?thesis by (auto simp: push_all_def)
qed

lemma mt_shutdown_ends:
  assumes P: "network_order P" and inj: "inj gen" and inv: "mt_inv P J n gen p" "mt_end p = None"
    and after: "mt_phase p \<in> {Mt_Stopping, Mt_Leaving, Mt_Exiting}"
  shows "\<exists>p'. (mt_process_step P J gen junk)\<^sup>*\<^sup>* p p' \<and> mt_end p' \<noteq> None \<and>
    (all_pushed (mt_svc p) \<and> logic_que (mt_svc p) = [] \<longrightarrow> mt_end p' = Some Exited)"
proof -
  let ?R = "(mt_process_step P J gen junk)\<^sup>*\<^sup>*"
  have reach: "mt_inv P J n gen q" if "?R p q" for q
    using that by (induction rule: rtranclp_induct) (auto intro: inv(1) mt_inv_step [OF P inj])
  have exiting: ?thesis if "?R p q" "mt_phase q = Mt_Exiting" "mt_end q = None"
    "all_pushed (mt_svc p) \<longrightarrow> logic_que (mt_svc q) = logic_que (mt_svc p)" for q
  proof -
    have "mt_live P J n gen q" using reach [OF that(1)] that(3) by (simp add: mt_inv_def)
    with that mt_worker_drains [OF P inj that(2,3)] show ?thesis by (metis rtranclp_trans)
  qed
  have leaving: ?thesis if "?R p q" "mt_phase q = Mt_Leaving" "mt_end q = None"
    "all_pushed (mt_svc p) \<longrightarrow> logic_que (mt_svc q) = logic_que (mt_svc p)" for q
    by (rule exiting [of "q\<lparr>mt_phase := Mt_Exiting\<rparr>"])
      (use that rtranclp.rtrancl_into_rtrancl [OF that(1) mt_process_step.leave [OF that(3,2)]] in auto)
  have stopping: ?thesis if ph: "mt_phase p = Mt_Stopping"
  proof -
    have "mt_live P J n gen p" using inv by (simp add: mt_inv_def)
    from mt_handlers_finish [OF P this ph inv(2)]
    obtain st where st: "?R p (p\<lparr>mt_svc := st\<rparr>)" "all_pushed st" "all_pushed (mt_svc p) \<longrightarrow> st = mt_svc p" by blast
    have "mt_live P J n gen (p\<lparr>mt_svc := st\<rparr>)" using reach [OF st(1)] inv(2) by (simp add: mt_inv_def)
    then have "pool_whole n (io_pool_of (reg st))" using ph mt_server_pool by (auto simp: mt_live_def mt_reg_ok_def)
    then obtain pool where "mt_Stop (\<lambda>_. True) (io_pool_of (reg st)) = Some (Inr pool)"
      using mt_Stop_whole by blast
    then have "mt_process_step P J gen junk (p\<lparr>mt_svc := st\<rparr>)
        (p\<lparr>mt_phase := Mt_Leaving, mt_svc := st\<lparr>reg := (reg st)\<lparr>io_pool_of := pool\<rparr>\<rparr>\<rparr>)"
      using st(2) ph inv(2) by (intro mt_process_step.stop) (simp_all add: mt_process_stop_def)
    with st(1) have "?R p (p\<lparr>mt_phase := Mt_Leaving, mt_svc := st\<lparr>reg := (reg st)\<lparr>io_pool_of := pool\<rparr>\<rparr>\<rparr>)" by simp
    then show ?thesis by (rule leaving) (use st(3) inv(2) in auto)
  qed
  from after consider "mt_phase p = Mt_Stopping" | "mt_phase p = Mt_Leaving" | "mt_phase p = Mt_Exiting" by blast
  then show ?thesis
    using stopping leaving [of p] exiting [of p] inv(2) by cases simp_all
qed

end
