(* ===== verification/V2_Service.thy ===== *)
theory V2_Service
  imports Service Lifecycle
begin

text \<open>
  The echo server of \<open>Server/\<close> as a whole: its accept loop and the handlers of all connections, which run
  in the one thread that calls \<open>ioc.run()\<close>. An exception of a handler leaves \<open>run\<close> and ends \<open>main\<close>.
\<close>

section \<open>The server's steps\<close>

type_synonym echo_server = "(server, v2_session, unit) netstate"

datatype echo_event = Echo_Accept bool | Echo_On nat net_event

fun v2_service_step ::
  "platform \<Rightarrow> (nat \<Rightarrow> string) \<Rightarrow> (nat \<Rightarrow> byte list) \<Rightarrow> echo_server \<Rightarrow> echo_event \<Rightarrow> echo_server" where
  "v2_service_step P gen junk st (Echo_Accept error) =
     (case accepting (reg st) of
        None \<Rightarrow> st
      | Some k \<Rightarrow>
          (let st1 = (if error then st else connect (gen k) (v2_accepted (gen k) (junk k)) st)
           in st1\<lparr>reg := v2_HandleAccept gen k error (reg st1)\<rparr>))"
| "v2_service_step P gen junk st (Echo_On k e) =
     (let st1 = on_completion (v2_event P) (gen k) e st
      in if asks_clear (gen k) st st1 then st1\<lparr>reg := v2_clear_session (gen k) (reg st1)\<rparr> else st1)"

definition v2_serve ::
  "platform \<Rightarrow> (nat \<Rightarrow> string) \<Rightarrow> (nat \<Rightarrow> byte list) \<Rightarrow> echo_server \<Rightarrow> echo_event \<Rightarrow> echo_server" where
  "v2_serve P gen junk st e = (if down st = None then v2_service_step P gen junk st e else st)"

definition v2_started :: echo_server where
  "v2_started = \<lparr>reg = v2_CServer, conns = Map.empty, down = None\<rparr>"

section \<open>What a client gets back\<close>

definition v2_messages :: "v2_endpoint \<Rightarrow> byte list list" where
  "v2_messages ep = map snd (snd (v2_spec (Head []) (received ep)))"

definition v2_backlog :: "v2_endpoint \<Rightarrow> byte list list" where
  "v2_backlog ep = on_tcp ep @ v2_queue (ep_sess ep)"

lemma v2_ep_views: "map snd (v2_ep.messages_of ep) = v2_messages ep" "v2_ep.backlog ep = v2_backlog ep"
  by (simp_all add: v2_ep.messages_of_def v2_messages_def v2_ep.backlog_def v2_backlog_def)

lemma map_echo: "concat (map (\<lambda>m. [v2_frame (snd m)]) ms) = map v2_frame (map snd ms)"
  by (induction ms) simp_all

text \<open>One connection: the frames accepted for the client echo its messages, all of them while at most 1001.\<close>

definition echo_ok :: "v2_endpoint \<Rightarrow> bool" where
  "echo_ok c \<longleftrightarrow> v2_ep.ep_ok c \<and> subseq (v2_backlog c) (map v2_frame (v2_messages c)) \<and>
     (length (v2_messages c) \<le> Suc MAX_SENDQUEUE \<longrightarrow> v2_backlog c = map v2_frame (v2_messages c))"

lemma echo_ok_event:
  assumes P: "network_order P" and ok: "echo_ok c" and e: "sized e" and up: "ended (v2_event P c e) = None"
  shows "echo_ok (v2_event P c e)"
proof -
  let ?c = "v2_event P c e"
  have ep: "v2_ep.ep_ok c" using ok by (simp add: echo_ok_def)
  have "\<And>chunk. e = Got chunk \<Longrightarrow> chunk_ok chunk" using e by (simp add: sized_def)
  note step = session_contract.event_step [OF v2_session_contract [OF P] ep this, folded v2_event_def, OF _ up]
  from step(2) obtain ms gs where ms: "v2_ep.messages_of ?c = v2_ep.messages_of c @ ms"
    and gs: "v2_ep.backlog ?c = v2_ep.backlog c @ gs" "subseq gs (map v2_frame (map snd ms))"
      "length (v2_queue (ep_sess c)) + length ms \<le> Suc MAX_SENDQUEUE \<longrightarrow> gs = map v2_frame (map snd ms)"
    unfolding map_echo by auto
  have m: "v2_messages ?c = v2_messages c @ map snd ms" by (simp add: ms flip: v2_ep_views)
  have b: "v2_backlog ?c = v2_backlog c @ gs" using gs(1) by (simp add: v2_ep_views)
  have "v2_backlog ?c = map v2_frame (v2_messages ?c)" if l: "length (v2_messages ?c) \<le> Suc MAX_SENDQUEUE"
  proof -
    have eq: "v2_backlog c = map v2_frame (v2_messages c)" using ok l m by (simp add: echo_ok_def)
    have "length (v2_queue (ep_sess c)) \<le> length (v2_backlog c)" by (simp add: v2_backlog_def)
    then have "length (v2_queue (ep_sess c)) + length ms \<le> Suc MAX_SENDQUEUE" using l m eq by simp
    with gs(3) eq b m show ?thesis by simp
  qed
  moreover have "subseq (v2_backlog ?c) (map v2_frame (v2_messages ?c))"
    using ok gs(2) by (simp add: echo_ok_def b m list_emb_append_mono)
  ultimately show ?thesis using step(1) by (simp add: echo_ok_def)
qed

lemma echo_ok_accepted:
  "\<exists>c. v2_accepted u junk = Inr c \<and> echo_ok c \<and> \<not> cleared c"
  using v2_accepted_ok [of u junk] by (auto simp: echo_ok_def v2_backlog_def v2_messages_def)

section \<open>Runs of the server\<close>

definition v2_service_ok :: "(nat \<Rightarrow> string) \<Rightarrow> echo_server \<Rightarrow> bool" where
  "v2_service_ok gen st \<longleftrightarrow> reg_ok gen st \<and> (\<forall>u c. conns st u = Some c \<longrightarrow> echo_ok c)"

lemma v2_HandleAccept_eq: "v2_HandleAccept = v3_HandleAccept"
  by (simp add: fun_eq_iff v2_HandleAccept_def v3_HandleAccept_def v2_StartAccept_def v3_StartAccept_def)

lemma v2_clear_session_eq: "v2_clear_session = v3_clear_session"
  by (simp add: fun_eq_iff v2_clear_session_def v3_clear_session_def)

lemma v2_step_ok:
  assumes P: "network_order P" and inj: "inj gen" and ok: "v2_service_ok gen st"
    and e: "\<And>k ne. e = Echo_On k ne \<Longrightarrow> sized ne" and up: "down st = None" "down (v2_serve P gen junk st e) = None"
  shows "v2_service_ok gen (v2_serve P gen junk st e)"
proof -
  have reg: "reg_ok gen st" and conn: "\<And>u c. conns st u = Some c \<Longrightarrow> echo_ok c" using ok by (auto simp: v2_service_ok_def)
  have step: "v2_serve P gen junk st e = v2_service_step P gen junk st e" using up by (simp add: v2_serve_def)
  show ?thesis
  proof (cases e)
    case (Echo_Accept error)
    obtain k where acc: "accepting (reg st) = Some k" using reg by (auto simp: reg_ok_def server_inv_def)
    obtain c where c: "v2_accepted (gen k) (junk k) = Inr c" "echo_ok c" "\<not> cleared c" using echo_ok_accepted by blast
    have st': "v2_serve P gen junk st e =
        (if error then st else connect (gen k) (Inr c) st)\<lparr>reg := v3_HandleAccept gen k error (reg st)\<rparr>"
      using acc c(1) unfolding step unfolding Echo_Accept by (simp add: connect_def v2_HandleAccept_eq)
    have "echo_ok d" if "conns (v2_serve P gen junk st e) u = Some d" for u d
      using that conn c(2) by (auto simp: st' connect_def split: if_splits)
    with reg_ok_accept(1) [OF inj reg acc c(3), of error] show ?thesis by (simp add: v2_service_ok_def st')
  next
    case (Echo_On k ne)
    let ?st1 = "on_completion (v2_event P) (gen k) ne st"
    have st': "v2_serve P gen junk st e =
        (if asks_clear (gen k) st ?st1 then ?st1\<lparr>reg := v3_clear_session (gen k) (reg ?st1)\<rparr> else ?st1)"
      unfolding step unfolding Echo_On by (simp add: Let_def v2_clear_session_eq)
    then have "down ?st1 = None" using up(2) by (simp split: if_splits)
    then have "echo_ok d" if "conns ?st1 u = Some d" for u d
      using that conn e [OF Echo_On] echo_ok_event [OF P]
      by (auto simp: on_completion_def Let_def split: option.splits if_splits)
    then have "echo_ok d" if "conns (v2_serve P gen junk st e) u = Some d" for u d
      using that by (auto simp: st' split: if_splits)
    moreover have "reg_ok gen (v2_serve P gen junk st e)"
      unfolding st' by (rule reg_ok_completion [OF inj reg]) (simp only: v2_event_def ep_event_clears)
    ultimately show ?thesis by (simp add: v2_service_ok_def)
  qed
qed

definition echo_events_sized :: "echo_event list \<Rightarrow> bool" where
  "echo_events_sized es \<longleftrightarrow> (\<forall>e\<in>set es. case e of Echo_On k ne \<Rightarrow> sized ne | _ \<Rightarrow> True)"

lemma v2_run_ok:
  assumes P: "network_order P" and inj: "inj gen" and sized: "echo_events_sized es"
    and up: "down (foldl (v2_serve P gen junk) v2_started es) = None"
  shows "v2_service_ok gen (foldl (v2_serve P gen junk) v2_started es)"
  using sized up
proof (induction es rule: rev_induct)
  case Nil
  show ?case
    using reg_ok_new [of v2_started gen] server_inv_new(4) by (simp add: v2_service_ok_def) (simp add: v2_started_def)
next
  case (snoc e es)
  let ?st = "foldl (v2_serve P gen junk) v2_started es"
  have "down ?st = None" using snoc.prems(2) by (auto simp: v2_serve_def [of _ _ _ ?st] split: if_splits)
  moreover have "sized ne" if "e = Echo_On k ne" for k ne
    using snoc.prems(1) that by (simp add: echo_events_sized_def)
  ultimately show ?case using snoc v2_step_ok [OF P inj, of ?st e junk] by (simp add: echo_events_sized_def)
qed

section \<open>The process\<close>

text \<open>
  \<open>main\<close>: a port that cannot be bound, and an exception that leaves \<open>run\<close>, are caught, and the process ends
  in order; \<open>run\<close> does not return otherwise, since an accept is always outstanding.
\<close>

definition v2_main ::
  "platform \<Rightarrow> (nat \<Rightarrow> string) \<Rightarrow> (nat \<Rightarrow> byte list) \<Rightarrow> bool \<Rightarrow> echo_event list \<Rightarrow> process_end option" where
  "v2_main P gen junk bound es =
     (if \<not> bound then Some Exited
      else case down (foldl (v2_serve P gen junk) v2_started es) of
             None \<Rightarrow> None
           | Some f \<Rightarrow> Some (if is_exception f then Exited else Terminated_By f))"

lemma v2_goes_down:
  assumes P: "network_order P" and ok: "v2_service_ok gen st"
    and e: "\<And>k ne. e = Echo_On k ne \<Longrightarrow> sized ne" and up: "down st = None"
    and dn: "down (v2_serve P gen junk st e) = Some f"
  shows "\<exists>k chunk c. e = Echo_On k (Got chunk) \<and> conns st (gen k) = Some c \<and>
    fst (v2_spec (Head []) (received c @ chunk)) = Crashed f"
proof -
  have step: "down (v2_service_step P gen junk st e) = Some f" using dn up by (simp add: v2_serve_def)
  show ?thesis
  proof (cases e)
    case (Echo_Accept error)
    have "\<exists>c. v2_accepted u j = Inr c" for u j using v2_accepted_ok by blast
    then have "down (connect u (v2_accepted u j) st) = None" for u j
      using up by (auto simp: connect_def split: sum.split) (metis Inl_Inr_False)
    with step up Echo_Accept show ?thesis by (auto simp: Let_def split: option.splits if_splits)
  next
    case (Echo_On k ne)
    let ?st1 = "on_completion (v2_event P) (gen k) ne st"
    have "down ?st1 = Some f" using step Echo_On by (simp add: Let_def split: if_splits)
    then obtain c where c: "conns st (gen k) = Some c" "ended (v2_event P c ne) = Some f"
      using up by (auto simp: on_completion_def Let_def split: option.splits)
    have conn: "v2_ep.ep_ok c" using ok c(1) by (auto simp: v2_service_ok_def echo_ok_def)
    have "\<And>chunk. ne = Got chunk \<Longrightarrow> chunk_ok chunk" using e [OF Echo_On] by (simp add: sized_def)
    with session_contract.event_ends [OF v2_session_contract [OF P] conn, of ne f] c(2)
    obtain chunk where "ne = Got chunk" "fst (v2_spec (Head []) (received c @ chunk)) = Crashed f"
      by (auto simp: v2_event_def)
    with Echo_On c(1) show ?thesis by blast
  qed
qed

text \<open>The event that ended it.\<close>

lemma v2_last_event:
  assumes P: "network_order P" and inj: "inj gen" and sized: "echo_events_sized es"
    and dn: "down (foldl (v2_serve P gen junk) v2_started es) = Some f"
  shows "\<exists>es1 k chunk es2 c. es = es1 @ Echo_On k (Got chunk) # es2 \<and>
    down (foldl (v2_serve P gen junk) v2_started es1) = None \<and>
    conns (foldl (v2_serve P gen junk) v2_started es1) (gen k) = Some c \<and>
    fst (v2_spec (Head []) (received c @ chunk)) = Crashed f"
  using sized dn
proof (induction es rule: rev_induct)
  case Nil
  then show ?case by (simp add: v2_started_def)
next
  case (snoc e es)
  let ?st = "foldl (v2_serve P gen junk) v2_started es"
  have sized: "echo_events_sized es" "\<And>k ne. e = Echo_On k ne \<Longrightarrow> sized ne"
    using snoc.prems(1) by (simp_all add: echo_events_sized_def)
  show ?case
  proof (cases "down ?st")
    case None
    have dn: "down (v2_serve P gen junk ?st e) = Some f" using snoc.prems(2) by simp
    have "\<exists>k chunk c. e = Echo_On k (Got chunk) \<and> conns ?st (gen k) = Some c \<and>
        fst (v2_spec (Head []) (received c @ chunk)) = Crashed f"
      by (rule v2_goes_down [OF P v2_run_ok [OF P inj sized(1) None] sized(2) None dn])
    with None show ?thesis by (metis append_Nil2)
  next
    case (Some g)
    then have "down ?st = Some f" using snoc.prems(2) by (simp add: v2_serve_def [of _ _ _ ?st])
    from snoc.IH [OF sized(1) this]
    obtain es1 k chunk es2 c where ih: "es = es1 @ Echo_On k (Got chunk) # es2"
      "down (foldl (v2_serve P gen junk) v2_started es1) = None"
      "conns (foldl (v2_serve P gen junk) v2_started es1) (gen k) = Some c"
      "fst (v2_spec (Head []) (received c @ chunk)) = Crashed f"
      by blast
    then have "es @ [e] = es1 @ Echo_On k (Got chunk) # (es2 @ [e])" by simp
    with ih(2-4) show ?thesis by blast
  qed
qed

end
