(* ===== verification/Catch_Up.thy ===== *)
theory Catch_Up
  imports V3_Service
begin

text \<open>
  Progress of a server that answers. The steps that are due in a state are those the server and the
  network owe: a message to be pushed, a turn of the worker, a write to be completed. Each lowers a measure
  of the work left, so only so many of them can follow each other; where none is due, every client has all
  its answers. The locale \<open>draining_server\<close> extends \<open>request_server\<close> by what a completed write promises.
\<close>

section \<open>Runs of due steps\<close>

fun due_run :: "('s \<Rightarrow> 'e \<Rightarrow> 's) \<Rightarrow> ('s \<Rightarrow> 'e \<Rightarrow> bool) \<Rightarrow> 's \<Rightarrow> 'e list \<Rightarrow> bool" where
  "due_run step due st [] \<longleftrightarrow> True"
| "due_run step due st (e # es) \<longleftrightarrow> due st e \<and> due_run step due (step st e) es"

text \<open>Steps that keep an invariant and lower a measure come to an end, wherever they are taken from.\<close>

lemma due_run_bound:
  assumes step: "\<And>st e. good st \<Longrightarrow> due st e \<Longrightarrow> good (step st e) \<and> left (step st e) < (left st :: nat)"
  shows "good st \<Longrightarrow> due_run step due st es \<Longrightarrow> good (foldl step st es) \<and> length es + left (foldl step st es) \<le> left st"
proof (induction es arbitrary: st)
  case (Cons e es)
  then have e: "good (step st e)" "left (step st e) < left st" and es: "due_run step due (step st e) es"
    using step [of st e] by simp_all
  from Cons.IH [OF e(1) es] e(2) show ?case by simp
qed simp

lemma due_run_settles:
  assumes step: "\<And>st e. good st \<Longrightarrow> due st e \<Longrightarrow> good (step st e) \<and> left (step st e) < (left st :: nat)"
  shows "good st \<Longrightarrow> \<exists>es. due_run step due st es \<and> (\<forall>e. \<not> due (foldl step st es) e)"
proof (induction "left st" arbitrary: st rule: less_induct)
  case less
  show ?case
  proof (cases "\<exists>e. due st e")
    case False
    then show ?thesis by (intro exI [of _ "[]"]) simp
  next
    case True
    then obtain e where e: "due st e" by blast
    from less.hyps [of "step st e"] step [OF less.prems e]
    obtain es where "due_run step due (step st e) es" "\<forall>e'. \<not> due (foldl step (step st e) es) e'" by blast
    with e show ?thesis by (intro exI [of _ "e # es"]) simp
  qed
qed

section \<open>What a server owes\<close>

fun due :: "(nat \<Rightarrow> string) \<Rightarrow> 'r service \<Rightarrow> service_event \<Rightarrow> bool" where
  "due gen st (Push k) \<longleftrightarrow> (case conns st (gen k) of None \<Rightarrow> False | Some c \<Rightarrow> handed st (gen k) < length (inbox c))"
| "due gen st Work \<longleftrightarrow> logic_que st \<noteq> []"
| "due gen st (On k Wrote) \<longleftrightarrow> (case conns st (gen k) of None \<Rightarrow> False | Some c \<Rightarrow> write_pending c \<noteq> None)"
| "due gen st _ \<longleftrightarrow> False"

text \<open>The steps themselves, common to both servers.\<close>

fun owed_step ::
  "(v3_endpoint \<Rightarrow> net_event \<Rightarrow> v3_endpoint) \<Rightarrow> (logic_node \<Rightarrow> v3_session \<Rightarrow> v3_effect list \<times> v3_session outcome) \<Rightarrow>
   (nat \<Rightarrow> string) \<Rightarrow> 'r service \<Rightarrow> service_event \<Rightarrow> 'r service" where
  "owed_step ev deal gen st (Push k) = push_next (gen k) st"
| "owed_step ev deal gen st Work = deal_next deal st"
| "owed_step ev deal gen st (On k ne) = on_completion ev (gen k) ne st"
| "owed_step ev deal gen st (Accept error) = st"

text \<open>A message costs three steps at most: its push, its turn of the worker, and the write of its answer.\<close>

definition queued_frames :: "(nat \<Rightarrow> string) \<Rightarrow> nat \<Rightarrow> 'r service \<Rightarrow> nat" where
  "queued_frames gen n st =
     (\<Sum>u\<in>gen ` {..<n}. case conns st u of None \<Rightarrow> 0 | Some c \<Rightarrow> length (v3_queue (ep_sess c)))"

definition work_left :: "(nat \<Rightarrow> string) \<Rightarrow> nat \<Rightarrow> 'r service \<Rightarrow> nat" where
  "work_left gen n st = 3 * unpushed gen n st + 2 * length (logic_que st) + queued_frames gen n st"

lemma sum_changed_at:
  fixes f g :: "'a \<Rightarrow> nat"
  assumes "finite A" "u \<in> A" "\<And>v. v \<in> A \<Longrightarrow> v \<noteq> u \<Longrightarrow> f v = g v"
  shows "sum f A + g u = sum g A + f u"
proof -
  have "sum f (A - {u}) = sum g (A - {u})" by (rule sum.cong) (use assms(3) in auto)
  then show ?thesis using assms(1,2) by (simp add: sum.remove [of A u f] sum.remove [of A u g])
qed

text \<open>How the two sums change when one connection does.\<close>

lemma sums_changed_at:
  assumes u: "u \<in> gen ` {..<n}" and c: "conns st u = Some c" "conns st' u = Some c'"
    and same: "\<And>v. v \<noteq> u \<Longrightarrow> conns st' v = conns st v \<and> handed st' v = handed st v"
  shows "unpushed gen n st' + (length (inbox c) - handed st u) = unpushed gen n st + (length (inbox c') - handed st' u)"
    and "queued_frames gen n st' + length (v3_queue (ep_sess c)) = queued_frames gen n st + length (v3_queue (ep_sess c'))"
proof -
  have fin: "finite (gen ` {..<n})" by simp
  let ?p = "\<lambda>st v. case conns st v of None \<Rightarrow> 0 | Some c \<Rightarrow> length (inbox c) - handed st v"
  have "sum (?p st') (gen ` {..<n}) + ?p st u = sum (?p st) (gen ` {..<n}) + ?p st' u"
    by (rule sum_changed_at [OF fin u]) (simp add: same split: option.split)
  with c show "unpushed gen n st' + (length (inbox c) - handed st u) = unpushed gen n st + (length (inbox c') - handed st' u)"
    by (simp add: unpushed_def)
  let ?q = "\<lambda>st v. case conns st v of None \<Rightarrow> 0 | Some c \<Rightarrow> length (v3_queue (ep_sess c))"
  have "sum (?q st') (gen ` {..<n}) + ?q st u = sum (?q st) (gen ` {..<n}) + ?q st' u"
    by (rule sum_changed_at [OF fin u]) (simp add: same split: option.split)
  with c show "queued_frames gen n st' + length (v3_queue (ep_sess c)) = queued_frames gen n st + length (v3_queue (ep_sess c'))"
    by (simp add: queued_frames_def)
qed

text \<open>A client that has everything it is due: the answers to all its messages, while they are at most 1001.\<close>

definition all_answered :: "(short \<times> byte list \<Rightarrow> byte list list) \<Rightarrow> v3_endpoint \<Rightarrow> bool" where
  "all_answered answer c \<longleftrightarrow> subseq (on_tcp c) (concat (map answer (v3_messages c))) \<and>
     (length (v3_messages c) \<le> Suc MAX_SENDQUEUE \<longrightarrow> on_tcp c = concat (map answer (v3_messages c)))"

text \<open>Due steps neither add nor clear a client, and nothing more arrives from it.\<close>

definition same_clients :: "'r service \<Rightarrow> 'r service \<Rightarrow> bool" where
  "same_clients st st' \<longleftrightarrow>
     (\<forall>u. rel_option (\<lambda>c c'. received c' = received c \<and> cleared c' = cleared c) (conns st u) (conns st' u))"

lemma same_clients_refl [simp]: "same_clients st st"
  by (simp add: same_clients_def option.rel_refl)

lemma same_clients_trans: "same_clients st st1 \<Longrightarrow> same_clients st1 st2 \<Longrightarrow> same_clients st st2"
  unfolding same_clients_def
proof
  fix u
  let ?R = "\<lambda>c c'. received c' = received c \<and> cleared c' = cleared c"
  assume "\<forall>u. rel_option ?R (conns st u) (conns st1 u)" "\<forall>u. rel_option ?R (conns st1 u) (conns st2 u)"
  then have "rel_option ?R (conns st u) (conns st1 u)" "rel_option ?R (conns st1 u) (conns st2 u)" by blast+
  then show "rel_option ?R (conns st u) (conns st2 u)"
    by (cases "conns st u"; cases "conns st1 u"; cases "conns st2 u") simp_all
qed

lemma same_clientsD:
  "same_clients st st' \<Longrightarrow> conns st u = Some c \<Longrightarrow>
     \<exists>c'. conns st' u = Some c' \<and> received c' = received c \<and> cleared c' = cleared c"
  by (auto simp: same_clients_def option_rel_Some1 dest: spec [of _ u])

section \<open>The contract of a server that catches up\<close>

locale draining_server = request_server ev deal answer
  for ev :: "v3_endpoint \<Rightarrow> net_event \<Rightarrow> v3_endpoint"
    and deal :: "logic_node \<Rightarrow> v3_session \<Rightarrow> v3_effect list \<times> v3_session outcome"
    and answer :: "short \<times> byte list \<Rightarrow> byte list list" +
  assumes wrote: "v3_ep_ok u c \<Longrightarrow> write_pending c = Some bs \<Longrightarrow>
      ended (ev c Wrote) = None \<and> inbox (ev c Wrote) = inbox c \<and> cleared (ev c Wrote) = cleared c \<and>
      \<not> clear_calls c < clear_calls (ev c Wrote) \<and>
      received (ev c Wrote) = received c \<and> v3_queue (ep_sess c) = bs # v3_queue (ep_sess (ev c Wrote))"
    and deal_clears: "deal nd s = (es, Returned s') \<Longrightarrow> \<not> clears es"
begin

lemma push_lowers:
  assumes dom: "dom (conns st) \<subseteq> gen ` {..<n}" and due: "due gen st (Push k)"
  shows "work_left gen n (push_next (gen k) st) < work_left gen n st"
proof -
  obtain c where c: "conns st (gen k) = Some c" "handed st (gen k) < length (inbox c)"
    using due by (auto split: option.splits)
  let ?st = "push_next (gen k) st"
  have u: "gen k \<in> gen ` {..<n}" using dom c(1) by blast
  have st': "conns ?st = conns st" "handed ?st = (handed st)(gen k := Suc (handed st (gen k)))"
    "length (logic_que ?st) = Suc (length (logic_que st))"
    using c by (simp_all add: push_next_def)
  have "unpushed gen n ?st + (length (inbox c) - handed st (gen k)) = unpushed gen n st + (length (inbox c) - handed ?st (gen k))"
    by (rule sums_changed_at(1) [OF u c(1)]) (simp_all add: st' c)
  then have "Suc (unpushed gen n ?st) = unpushed gen n st" using c(2) by (simp add: st'(2))
  moreover have "queued_frames gen n ?st = queued_frames gen n st" by (simp add: queued_frames_def st'(1))
  ultimately show ?thesis by (simp add: work_left_def st'(3))
qed

lemma work_lowers:
  assumes ok: "service_ok st" and dom: "dom (conns st) \<subseteq> gen ` {..<n}" and due: "logic_que st \<noteq> []"
    and up: "down (deal_next deal st) = None"
  shows "work_left gen n (deal_next deal st) < work_left gen n st"
proof -
  obtain nd rest where q: "logic_que st = nd # rest" using due by (cases "logic_que st") auto
  let ?u = "ln_session nd" and ?st = "deal_next deal st"
  obtain c where c: "conns st ?u = Some c" using next_message [OF ok q] by blast
  obtain es s where run: "deal nd (ep_sess c) = (es, Returned s)"
    using up q c by (cases "deal nd (ep_sess c)" rule: prod.exhaust) (auto simp: deal_next_def split: outcome.splits)
  let ?c = "finish_call c (es, Returned s)"
  have st': "?st = st\<lparr>logic_que := rest, dealt := dealt st @ [nd], conns := (conns st)(?u \<mapsto> ?c)\<rparr>"
    using q c run by (simp add: deal_next_def)
  have u: "?u \<in> gen ` {..<n}" using dom c by blast
  have d: "inbox ?c = inbox c" "v3_backlog ?c =
      v3_backlog c @ (if length (v3_queue (ep_sess c)) \<le> MAX_SENDQUEUE then answer (msg_of nd) else [])"
    using deal_ok [OF conn_endpoint_ok [OF ok c] run] by simp_all
  have "on_tcp ?c = on_tcp c" by (rule finish_call_frame)
  then have grow: "length (v3_queue (ep_sess ?c)) \<le> Suc (length (v3_queue (ep_sess c)))"
    using d(2) one_answer [of "msg_of nd"] by (auto simp: v3_backlog_def simp del: finish_call.simps split: if_splits)
  have "unpushed gen n ?st + (length (inbox c) - handed st ?u) = unpushed gen n st + (length (inbox ?c) - handed ?st ?u)"
    "queued_frames gen n ?st + length (v3_queue (ep_sess c)) = queued_frames gen n st + length (v3_queue (ep_sess ?c))"
    by (rule sums_changed_at [OF u c]; simp add: st' del: finish_call.simps)+
  then have "unpushed gen n ?st = unpushed gen n st" "queued_frames gen n ?st \<le> Suc (queued_frames gen n st)"
    using grow d(1) by (simp_all add: st' del: finish_call.simps)
  then show ?thesis by (simp add: work_left_def st' q del: finish_call.simps)
qed

lemma write_lowers:
  assumes ok: "service_ok st" and dom: "dom (conns st) \<subseteq> gen ` {..<n}" and due: "due gen st (On k Wrote)"
  shows "work_left gen n (on_completion ev (gen k) Wrote st) < work_left gen n st"
    and "down (on_completion ev (gen k) Wrote st) = None"
    and "\<not> asks_clear (gen k) st (on_completion ev (gen k) Wrote st)"
proof -
  obtain c bs where c: "conns st (gen k) = Some c" "write_pending c = Some bs"
    using due by (auto split: option.splits)
  let ?st = "on_completion ev (gen k) Wrote st"
  have st': "?st = st\<lparr>conns := (conns st)(gen k \<mapsto> ev c Wrote), down := ended (ev c Wrote)\<rparr>"
    using c(1) by (simp add: on_completion_def Let_def)
  note w = wrote [OF conn_endpoint_ok [OF ok c(1)] c(2)]
  show "down ?st = None" "\<not> asks_clear (gen k) st ?st" using w c(1) by (simp_all add: st' asks_clear_def)
  have u: "gen k \<in> gen ` {..<n}" using dom c(1) by blast
  have "unpushed gen n ?st + (length (inbox c) - handed st (gen k)) = unpushed gen n st + (length (inbox (ev c Wrote)) - handed ?st (gen k))"
    "queued_frames gen n ?st + length (v3_queue (ep_sess c)) = queued_frames gen n st + length (v3_queue (ep_sess (ev c Wrote)))"
    by (rule sums_changed_at [OF u c(1)]; simp add: st')+
  then show "work_left gen n ?st < work_left gen n st" using w by (simp add: work_left_def st')
qed

lemma owed_step_lowers:
  assumes "service_ok st" "dom (conns st) \<subseteq> gen ` {..<n}" "due gen st e" "down (owed_step ev deal gen st e) = None"
  shows "work_left gen n (owed_step ev deal gen st e) < work_left gen n st"
  using assms push_lowers [of st gen n] work_lowers [of st gen n] write_lowers(1) [of st gen n]
  by (cases "(gen, st, e)" rule: due.cases) auto

lemma owed_step_clients:
  assumes ok: "service_ok st" and due: "due gen st e"
  shows "same_clients st (owed_step ev deal gen st e)"
proof (cases "(gen, st, e)" rule: due.cases)
  case (1 gen' st' k)
  then show ?thesis by (simp add: same_clients_def option.rel_refl)
next
  case (2 gen' st')
  then show ?thesis
    by (auto simp: same_clients_def deal_next_def option.rel_refl dest: deal_clears simp del: finish_call.simps
        split: list.split option.split prod.split outcome.split)
next
  case (3 gen' st' k)
  then obtain c bs where c: "conns st (gen k) = Some c" "write_pending c = Some bs"
    using due by (auto split: option.splits)
  with 3 wrote [OF conn_endpoint_ok [OF ok c(1)] c(2)] show ?thesis
    by (simp add: same_clients_def on_completion_def Let_def option.rel_refl)
qed (use due in auto)

text \<open>Where nothing is due, a client that is still served has the answers to all its messages.\<close>

lemma settled_caught_up:
  assumes ok: "service_ok st" and settled: "\<forall>e. \<not> due gen st e"
    and c: "conns st (gen k) = Some c" "\<not> cleared c"
  shows "all_answered answer c"
proof -
  have "handed st (gen k) \<le> length (inbox c)" using service_okD [OF ok c(1)] by (simp add: conn_ok_def)
  moreover have "\<not> due gen st (Push k)" "\<not> due gen st Work" "\<not> due gen st (On k Wrote)" using settled by blast+
  ultimately have none: "handed st (gen k) = length (inbox c)" "logic_que st = []" "write_pending c = None"
    using c(1) by simp_all
  have "v3_queue (ep_sess c) = []"
    using conn_endpoint_ok [OF ok c(1)] none(3) c(2) by (simp add: v3_ep.ep_ok_def)
  then have b: "v3_backlog c = on_tcp c" by (simp add: v3_backlog_def)
  let ?n = "length (for_session (gen k) (dealt st))"
  note view = client_view [OF ok c(1)]
  have "?n = length (v3_messages c)" using view(4) none by simp
  with view(2,3) b show ?thesis by (simp add: all_answered_def)
qed

end

end
