(* ===== verification/Attendance.thy ===== *)
theory Attendance
  imports Mt_Service V2_Service Catch_Up
begin

text \<open>
  What a server still owes its sessions. A session that has not been cleared is attended: a read is
  outstanding for it, so its client's next bytes or its leaving will be noticed (unless, in the multi-threaded
  server, a caught exception has stopped its reads), and the write of its first frame if it has one. A session
  with no operation outstanding and no message under way, on the other hand, is never heard of again; if it
  is in the map of the multi-threaded server then, it stays there.
\<close>

section \<open>No session is left behind\<close>

text \<open>What holds of every connection, and how the steps shared by the servers keep it.\<close>

definition conns_all :: "(('s, 'm) endpoint \<Rightarrow> bool) \<Rightarrow> ('r, 's, 'm, 'z) netstate_scheme \<Rightarrow> bool" where
  "conns_all Q st \<longleftrightarrow> (\<forall>u c. conns st u = Some c \<longrightarrow> Q c)"

lemma conns_all_reg [simp]: "conns_all Q (st\<lparr>reg := r\<rparr>) = conns_all Q st"
  by (simp add: conns_all_def)

lemma conns_all_push [simp]: "conns_all Q (push_next u st) = conns_all Q st"
  by (simp add: conns_all_def)

lemma conns_all_connect: "conns_all Q st \<Longrightarrow> Q c \<Longrightarrow> conns_all Q (connect u (Inr c) st)"
  by (simp add: conns_all_def connect_def)

lemma conns_all_completion:
  "conns_all Q st \<Longrightarrow> (\<And>c. conns st u = Some c \<Longrightarrow> Q c \<Longrightarrow> Q (ev c e)) \<Longrightarrow> conns_all Q (on_completion ev u e st)"
  by (auto simp: conns_all_def on_completion_def Let_def split: option.split)

lemma conns_all_deal:
  "conns_all Q st \<Longrightarrow> (\<And>c es r. Q c \<Longrightarrow> Q (finish_call c (es, r))) \<Longrightarrow> conns_all Q (deal_next deal st)"
  by (auto simp: conns_all_def deal_next_def simp del: finish_call.simps
      split: list.split option.split prod.split outcome.split)

text \<open>A completion that does not end the process keeps the sessions attended.\<close>

lemma completion_up: "conns st u = Some c \<Longrightarrow> down (on_completion ev u e st) = None \<Longrightarrow> ended (ev c e) = None"
  by (simp add: on_completion_def Let_def)

lemma sized_chunk: "sized e \<Longrightarrow> e = Got chunk \<Longrightarrow> chunk_ok chunk"
  by (simp add: sized_def)

lemma v3_attended_step:
  assumes P: "network_order P" and ok: "request_server.service_ok (v3_answer J) st" and att: "conns_all v3_ep.attended st"
    and e: "\<And>k ne. e = On k ne \<Longrightarrow> sized ne" and up: "down st = None" "down (v3_serve P J gen junk st e) = None"
  shows "conns_all v3_ep.attended (v3_serve P J gen junk st e)"
proof -
  note server = v3_request_server [OF P, of J]
  have step: "v3_serve P J gen junk st e = v3_service_step P J gen junk st e" using up by (simp add: v3_serve_def)
  show ?thesis
  proof (cases e)
    case (Accept error)
    have fresh: "\<exists>c. v3_accepted (gen k) (junk k) = Inr c \<and> v3_ep.attended c" for k
      using v3_accepted_ok [of "gen k" "junk k"]
      by (auto simp: v3_ep.ep_ok_def v3_ep.attended_def v3_ep.stream_of_def)
    show ?thesis
    proof (cases "accepting (reg st)")
      case (Some k)
      obtain c where c: "v3_accepted (gen k) (junk k) = Inr c" "v3_ep.attended c" using fresh by blast
      note conns_all_connect [OF att c(2)]
      with Some c(1) att show ?thesis unfolding step unfolding Accept by (simp add: Let_def)
    qed (use att in \<open>unfold step, unfold Accept, simp\<close>)
  next
    case (On k ne)
    let ?st1 = "on_completion (v3_event P) (gen k) ne st"
    have up1: "down ?st1 = None" using up(2) unfolding step unfolding On by (simp add: Let_def split: if_splits)
    have "conns_all v3_ep.attended ?st1"
    proof (rule conns_all_completion [OF att])
      fix c
      assume c: "conns st (gen k) = Some c" and a: "v3_ep.attended c"
      from session_contract.attended_event [OF v3_session_contract [OF P]
          request_server.conn_endpoint_ok [OF server ok c] a sized_chunk [OF e [OF On]]] completion_up [OF c up1]
      show "v3_ep.attended (v3_event P c ne)" by (simp add: v3_event_def)
    qed
    then show ?thesis unfolding step unfolding On by (simp add: Let_def)
  next
    case Work
    have "conns_all v3_ep.attended (deal_next (v3_deal P J) st)"
      by (rule conns_all_deal [OF att]) (rule v3_ep.attended_finish)
    then show ?thesis unfolding step unfolding Work by simp
  next
    case (Push k)
    with att show ?thesis unfolding step by simp
  qed
qed

lemma v3_attended_run:
  assumes P: "network_order P" and inj: "inj gen" and sized: "events_sized es"
    and up: "down (foldl (v3_serve P J gen junk) v3_started es) = None"
  shows "conns_all v3_ep.attended (foldl (v3_serve P J gen junk) v3_started es)"
  using sized up
proof (induction es rule: rev_induct)
  case Nil
  show ?case by (simp add: conns_all_def v3_started_def new_service_def)
next
  case (snoc e es)
  let ?st = "foldl (v3_serve P J gen junk) v3_started es"
  have sized: "events_sized es" "\<And>k ne. e = On k ne \<Longrightarrow> sized ne" using snoc.prems(1) by (simp_all add: events_sized_def)
  have up: "down ?st = None" using snoc.prems(2) by (auto simp: v3_serve_def [of _ _ _ _ ?st] split: if_splits)
  from v3_attended_step [OF P v3_run_ok(2) [OF P inj sized(1) up] snoc.IH [OF sized(1) up] sized(2) up]
    snoc.prems(2) show ?case by simp
qed

lemma mt_attended_step:
  assumes P: "network_order P" and ok: "request_server.service_ok (mt_answer J) st" and att: "conns_all mt_ep.attended st"
    and e: "\<And>k ne. e = Mt_Event (On k ne) \<Longrightarrow> sized ne"
    and up: "down st = None" "down (mt_serve P J gen junk st e) = None"
  shows "conns_all mt_ep.attended (mt_serve P J gen junk st e)"
proof -
  note server = mt_request_server [OF P, of J]
  have step: "mt_serve P J gen junk st e = mt_service_step P J gen junk st e" using up by (simp add: mt_serve_def)
  show ?thesis
  proof (cases "(P, J, gen, junk, st, e)" rule: mt_service_step.cases)
    case (1 P' J' gen' junk' st' error)
    then have e: "e = Mt_Event (Accept error)" by simp
    have fresh: "\<exists>c. mt_accepted (gen k) (junk k) = Inr c \<and> mt_ep.attended c" for k
      using v3_accepted_ok [of "gen k" "junk k"] unfolding mt_accepted_eq
      by (auto simp: v3_ep.ep_ok_def mt_ep.attended_def v3_ep.stream_of_def)
    show ?thesis
    proof (cases "accepting (reg st)")
      case (Some k)
      obtain c where c: "mt_accepted (gen k) (junk k) = Inr c" "mt_ep.attended c" using fresh by blast
      note conns_all_connect [OF att c(2)]
      with Some c(1) att show ?thesis unfolding step unfolding e by (simp add: Let_def)
    qed (use att in \<open>unfold step, unfold e, simp\<close>)
  next
    case (2 P' J' gen' junk' st' k ne)
    then have On: "e = Mt_Event (On k ne)" by simp
    let ?st1 = "on_completion (mt_event P) (gen k) ne st"
    have up1: "down ?st1 = None" using up(2) unfolding step unfolding On by (simp add: Let_def split: if_splits)
    have "conns_all mt_ep.attended ?st1"
    proof (rule conns_all_completion [OF att])
      fix c
      assume c: "conns st (gen k) = Some c" and a: "mt_ep.attended c"
      from session_contract.attended_event [OF mt_session_contract [OF P]
          request_server.conn_endpoint_ok [OF server ok c] a sized_chunk [OF e [OF On]]] completion_up [OF c up1]
      show "mt_ep.attended (mt_event P c ne)" by (simp add: mt_event_def)
    qed
    then show ?thesis unfolding step unfolding On by (simp add: Let_def)
  next
    case (4 P' J' gen' junk' st')
    have "conns_all mt_ep.attended (deal_next (mt_deal P J) st)"
      by (rule conns_all_deal [OF att]) (rule mt_ep.attended_finish)
    with 4 show ?thesis unfolding step by simp
  next
    case (6 P' J' gen' junk' st')
    with att show ?thesis unfolding step by (simp add: Let_def conns_all_def)
  next
    case (3 P' J' gen' junk' st' k)
    with att show ?thesis unfolding step by simp
  next
    case (5 P' J' gen' junk' st')
    with att show ?thesis unfolding step by (auto split: acceptor.split)
  qed
qed

lemma mt_attended_run:
  assumes P: "network_order P" and inj: "inj gen" and sized: "mt_events_sized es"
    and up: "down (foldl (mt_serve P J gen junk) (mt_started n) es) = None"
  shows "conns_all mt_ep.attended (foldl (mt_serve P J gen junk) (mt_started n) es)"
  using sized up
proof (induction es rule: rev_induct)
  case Nil
  show ?case by (simp add: conns_all_def mt_started_def new_service_def)
next
  case (snoc e es)
  let ?st = "foldl (mt_serve P J gen junk) (mt_started n) es"
  have sized: "mt_events_sized es" "\<And>k ne. e = Mt_Event (On k ne) \<Longrightarrow> sized ne"
    using snoc.prems(1) by (simp_all add: mt_events_sized_def)
  have up: "down ?st = None" using snoc.prems(2) by (auto simp: mt_serve_def [of _ _ _ _ ?st] split: if_splits)
  from mt_attended_step [OF P mt_run_ok(2) [OF P inj sized(1) up] snoc.IH [OF sized(1) up] sized(2) up]
    snoc.prems(2) show ?case by simp
qed

lemma v2_attended_step:
  assumes P: "network_order P" and ok: "v2_service_ok gen st" and att: "conns_all v2_ep.attended st"
    and e: "\<And>k ne. e = Echo_On k ne \<Longrightarrow> sized ne" and up: "down st = None" "down (v2_serve P gen junk st e) = None"
  shows "conns_all v2_ep.attended (v2_serve P gen junk st e)"
proof -
  have step: "v2_serve P gen junk st e = v2_service_step P gen junk st e" using up by (simp add: v2_serve_def)
  show ?thesis
  proof (cases e)
    case (Echo_Accept error)
    have fresh: "\<exists>c. v2_accepted (gen k) (junk k) = Inr c \<and> v2_ep.attended c" for k
      using v2_accepted_ok [of "gen k" "junk k"]
      by (auto simp: v2_ep.ep_ok_def v2_ep.attended_def v2_ep.stream_of_def)
    show ?thesis
    proof (cases "accepting (reg st)")
      case (Some k)
      obtain c where c: "v2_accepted (gen k) (junk k) = Inr c" "v2_ep.attended c" using fresh by blast
      note conns_all_connect [OF att c(2)]
      with Some c(1) att show ?thesis unfolding step unfolding Echo_Accept by (simp add: Let_def)
    qed (use att in \<open>unfold step, unfold Echo_Accept, simp\<close>)
  next
    case (Echo_On k ne)
    let ?st1 = "on_completion (v2_event P) (gen k) ne st"
    have up1: "down ?st1 = None" using up(2) unfolding step unfolding Echo_On by (simp add: Let_def split: if_splits)
    have "conns_all v2_ep.attended ?st1"
    proof (rule conns_all_completion [OF att])
      fix c
      assume c: "conns st (gen k) = Some c" and a: "v2_ep.attended c"
      have "v2_ep.ep_ok c" using ok c by (auto simp: v2_service_ok_def echo_ok_def)
      from session_contract.attended_event [OF v2_session_contract [OF P] this a sized_chunk [OF e [OF Echo_On]]]
        completion_up [OF c up1]
      show "v2_ep.attended (v2_event P c ne)" by (simp add: v2_event_def)
    qed
    then show ?thesis unfolding step unfolding Echo_On by (simp add: Let_def)
  qed
qed

lemma v2_attended_run:
  assumes P: "network_order P" and inj: "inj gen" and sized: "echo_events_sized es"
    and up: "down (foldl (v2_serve P gen junk) v2_started es) = None"
  shows "conns_all v2_ep.attended (foldl (v2_serve P gen junk) v2_started es)"
  using sized up
proof (induction es rule: rev_induct)
  case Nil
  show ?case by (simp add: conns_all_def v2_started_def)
next
  case (snoc e es)
  let ?st = "foldl (v2_serve P gen junk) v2_started es"
  have sized: "echo_events_sized es" "\<And>k ne. e = Echo_On k ne \<Longrightarrow> sized ne"
    using snoc.prems(1) by (simp_all add: echo_events_sized_def)
  have up: "down ?st = None" using snoc.prems(2) by (auto simp: v2_serve_def [of _ _ _ ?st] split: if_splits)
  from v2_attended_step [OF P v2_run_ok [OF P inj sized(1) up] snoc.IH [OF sized(1) up] sized(2) up]
    snoc.prems(2) show ?case by simp
qed

text \<open>
  A session that is served hears from its client again, and its frames go out: a read is outstanding, and
  with frames queued the write of the first. In the multi-threaded server a caught exception breaks this.
\<close>

definition in_order :: "('s, 'm) endpoint \<Rightarrow> byte list list \<Rightarrow> bool" where
  "in_order c q \<longleftrightarrow> (case q of [] \<Rightarrow> write_pending c = None | f # fs \<Rightarrow> write_pending c = Some f)"

lemma v3_sessions_attended:
  assumes P: "network_order P" and inj: "inj gen" and sized: "events_sized es"
    and up: "down (foldl (v3_serve P J gen junk) v3_started es) = None"
  defines "st \<equiv> foldl (v3_serve P J gen junk) v3_started es"
  assumes k: "sessions (reg st) (gen k) = Some k"
  shows "\<exists>c. conns st (gen k) = Some c \<and> read_pending c \<and> in_order c (v3_queue (ep_sess c))"
proof -
  note run = v3_run_ok [OF P inj sized up, folded st_def]
  obtain c where c: "conns st (gen k) = Some c" "\<not> cleared c" using run(1) k by (auto simp: reg_ok_def serving_def)
  have "v3_ep.attended c" using v3_attended_run [OF P inj sized up] c(1) by (auto simp: conns_all_def st_def)
  from v3_ep.attended_reads [OF request_server.conn_endpoint_ok [OF v3_request_server [OF P] run(2) c(1)] this c(2)]
  have "read_pending c" "in_order c (v3_queue (ep_sess c))" by (auto simp: in_order_def)
  with c(1) show ?thesis by blast
qed

lemma v2_sessions_attended:
  assumes P: "network_order P" and inj: "inj gen" and sized: "echo_events_sized es"
    and up: "down (foldl (v2_serve P gen junk) v2_started es) = None"
  defines "st \<equiv> foldl (v2_serve P gen junk) v2_started es"
  assumes k: "sessions (reg st) (gen k) = Some k"
  shows "\<exists>c. conns st (gen k) = Some c \<and> read_pending c \<and> in_order c (v2_queue (ep_sess c))"
proof -
  note run = v2_run_ok [OF P inj sized up, folded st_def]
  obtain c where c: "conns st (gen k) = Some c" "\<not> cleared c"
    using run k by (auto simp: v2_service_ok_def reg_ok_def serving_def)
  have "v2_ep.attended c" using v2_attended_run [OF P inj sized up] c(1) by (auto simp: conns_all_def st_def)
  moreover have "v2_ep.ep_ok c" using run c(1) by (auto simp: v2_service_ok_def echo_ok_def)
  ultimately have "read_pending c" "in_order c (v2_queue (ep_sess c))"
    using v2_ep.attended_reads [of c] c(2) by (auto simp: in_order_def)
  with c(1) show ?thesis by blast
qed

lemma mt_sessions_attended:
  assumes P: "network_order P" and inj: "inj gen" and sized: "mt_events_sized es"
    and up: "down (foldl (mt_serve P J gen junk) (mt_started n) es) = None"
  defines "st \<equiv> foldl (mt_serve P J gen junk) (mt_started n) es"
  assumes c: "conns st (gen k) = Some c" "\<not> cleared c"
  shows "(read_pending c \<or> (\<exists>f. fst (v3_spec (Head []) (received c)) = Crashed f \<and> is_exception f)) \<and>
    in_order c (v3_queue (ep_sess c))"
proof -
  note run = mt_run_ok [OF P inj sized up, folded st_def]
  have "mt_ep.attended c" using mt_attended_run [OF P inj sized up] c(1) by (auto simp: conns_all_def st_def)
  from mt_ep.attended_reads [OF request_server.conn_endpoint_ok [OF mt_request_server [OF P] run(2) c(1)] this c(2)]
  show ?thesis by (auto simp: in_order_def mt_ep.stream_of_def mt_fatal_def)
qed

section \<open>Sessions nothing is heard of\<close>

text \<open>Nothing is outstanding for the session; none of its messages is still to be pushed or waits in the queue.\<close>

definition idle :: "('s, 'm) endpoint \<Rightarrow> bool" where
  "idle c \<longleftrightarrow> \<not> read_pending c \<and> write_pending c = None"

definition under_way :: "'r service \<Rightarrow> string \<Rightarrow> nat" where
  "under_way st u =
     (case conns st u of None \<Rightarrow> 0 | Some c \<Rightarrow> length (inbox c) - handed st u) + length (for_session u (logic_que st))"

lemma ep_event_idle: "idle c \<Longrightarrow> ep_event rd rd_err wr c e = c"
  by (cases e) (simp_all add: idle_def)

lemma completion_idle:
  assumes "conns st u = Some c" "\<And>e. ev c e = c"
  shows "conns (on_completion ev v e st) u = Some c"
  using assms by (auto simp: on_completion_def Let_def split: option.split)

context request_server
begin

lemma push_elsewhere:
  assumes ok: "service_ok st" and c: "conns st u = Some c" and none: "under_way st u = 0"
  shows "under_way (push_next v st) u = 0"
proof (cases "\<exists>d. conns st v = Some d \<and> handed st v < length (inbox d)")
  case False
  then have "push_next v st = st" by (auto simp: push_next_def split: option.split)
  with none show ?thesis by simp
next
  case True
  then obtain d where d: "conns st v = Some d" "handed st v < length (inbox d)" by blast
  then have "v \<noteq> u" using none c by (auto simp: under_way_def)
  moreover have "ln_session (inbox d ! handed st v) = v"
    using inbox_sessions [OF conn_endpoint_ok [OF ok d(1)]] d(2) by simp
  moreover have "push_next v st =
      st\<lparr>logic_que := logic_que st @ [inbox d ! handed st v], handed := (handed st)(v := Suc (handed st v))\<rparr>"
    using d by (simp add: push_next_def)
  ultimately show ?thesis using none by (simp add: under_way_def cong: option.case_cong)
qed

lemma deal_elsewhere:
  assumes ok: "service_ok st" and none: "under_way st u = 0"
  shows "under_way (deal_next deal st) u = 0" "conns (deal_next deal st) u = conns st u"
proof -
  have que: "for_session u (logic_que st) = []" using none by (simp add: under_way_def)
  have "under_way (deal_next deal st) u = 0 \<and> conns (deal_next deal st) u = conns st u"
  proof (cases "logic_que st")
    case Nil
    with none show ?thesis by (simp add: deal_next_def)
  next
    case (Cons nd rest)
    with que have "ln_session nd \<noteq> u" "for_session u rest = []" by (auto split: if_splits)
    then show ?thesis using Cons none
      by (auto simp: deal_next_def under_way_def simp del: finish_call.simps
          split: option.split prod.split outcome.split)
  qed
  then show "under_way (deal_next deal st) u = 0" "conns (deal_next deal st) u = conns st u" by simp_all
qed

lemma completion_elsewhere:
  assumes c: "conns st u = Some c" and none: "under_way st u = 0" and idle: "\<And>e. ev c e = c"
  shows "under_way (on_completion ev v e st) u = 0"
proof -
  have "handed (on_completion ev v e st) = handed st" "logic_que (on_completion ev v e st) = logic_que st"
    by (simp_all add: on_completion_def Let_def split: option.split)
  with completion_idle [of st u c ev v e, OF c idle] none c show ?thesis by (simp add: under_way_def cong: option.case_cong)
qed

end

lemma service_reg_under_way [simp]:
  "under_way (st\<lparr>reg := r\<rparr>) u = under_way st u" "under_way (st\<lparr>reg := r, down := d\<rparr>) u = under_way st u"
  by (simp_all add: under_way_def cong: option.case_cong)

text \<open>A cleared session that got into the map of the multi-threaded server, for instance.\<close>

definition forgotten :: "mt_server service \<Rightarrow> string \<Rightarrow> nat \<Rightarrow> bool" where
  "forgotten st u k \<longleftrightarrow> (\<exists>c. conns st u = Some c \<and> idle c) \<and> under_way st u = 0 \<and> sessions (reg st) u = Some k"

lemma forgotten_step:
  fixes junk e
  assumes P: "network_order P" and inj: "inj gen" and reg: "mt_reg_ok n gen st"
    and ok: "request_server.service_ok (mt_answer J) st" and gone: "forgotten st u k"
  defines "st' \<equiv> mt_serve P J gen junk st e"
  shows "forgotten st' u k"
proof (cases "down st = None")
  case False
  then have "st' = st" unfolding st'_def mt_serve_def by (rule if_not_P)
  with gone show ?thesis by simp
next
  case True
  note server = mt_request_server [OF P, of J]
  obtain c where c: "conns st u = Some c" "idle c" "under_way st u = 0" "sessions (reg st) u = Some k"
    using gone by (auto simp: forgotten_def)
  have same: "mt_event P c e = c" for e using ep_event_idle [OF c(2)] by (simp add: mt_event_def)
  have step: "st' = mt_service_step P J gen junk st e" using True by (simp add: st'_def mt_serve_def)
  have "conns st' u = Some c \<and> under_way st' u = 0 \<and> sessions (reg st') u = Some k"
  proof (cases "(P, J, gen, junk, st, e)" rule: mt_service_step.cases)
    case (1 P' J' gen' junk' st1 error)
    then have e: "e = Mt_Event (Accept error)" by simp
    show ?thesis
    proof (cases "acceptor_at (reg st) = Listening \<and> accepting (reg st) \<noteq> None")
      case False
      then have "st' = st" unfolding step unfolding e by auto
      with c show ?thesis by simp
    next
      case True
      then obtain j where acc: "acceptor_at (reg st) = Listening" "accepting (reg st) = Some j" by blast
      obtain c0 where c0: "mt_accepted (gen j) (junk j) = Inr c0" using v3_accepted_ok unfolding mt_accepted_eq by blast
      have "gen j \<noteq> u" using reg acc(2) c(1) by (auto simp: mt_reg_ok_def)
      with acc c0 c show ?thesis
        unfolding step unfolding e by (auto simp: connect_def under_way_def mt_HandleAccept_def)
    qed
  next
    case (2 P' J' gen' junk' st1 j ne)
    then have e: "e = Mt_Event (On j ne)" by simp
    let ?st1 = "on_completion (mt_event P) (gen j) ne st"
    have "conns ?st1 u = Some c" "under_way ?st1 u = 0" "reg ?st1 = reg st"
      using completion_idle [OF c(1), of "mt_event P" "gen j" ne, OF same] request_server.completion_elsewhere [OF server c(1,3), of "gen j" ne, OF same]
      by (simp_all add: completion_dom)
    moreover from this(1) c(1) have "\<not> asks_clear u st ?st1" by (simp add: asks_clear_def)
    ultimately show ?thesis using c(4) unfolding step unfolding e
      by (auto simp: Let_def mt_clear_step_def mt_ClearSession_def)
  next
    case (3 P' J' gen' junk' st1 j)
    with request_server.push_elsewhere [OF server ok c(1,3)] c show ?thesis
      unfolding step by simp
  next
    case (4 P' J' gen' junk' st1)
    have "reg (deal_next (mt_deal P J) st) = reg st" by (rule deal_next_frame(3)) (rule mt_deal_clears)
    with 4 request_server.deal_elsewhere [OF server ok c(3)] c show ?thesis
      unfolding step by simp
  next
    case (5 P' J' gen' junk' st1)
    with c show ?thesis
      unfolding step by (auto simp: mt_insert_def map_insert_def split: acceptor.split option.splits)
  next
    case (6 P' J' gen' junk' st1)
    have "sessions (mt_StartAccept (reg st)) = sessions (reg st)"
      by (auto simp: mt_StartAccept_def split: prod.split sum.split)
    with 6 c show ?thesis unfolding step by (auto simp: Let_def)
  qed
  with c(2) show ?thesis by (auto simp: forgotten_def)
qed

lemma forgotten_run:
  fixes J :: "'j json" and junk n
  assumes P: "network_order P" and inj: "inj gen" and sized: "mt_events_sized (es @ es')"
  defines "st \<equiv> foldl (mt_serve P J gen junk) (mt_started n) es"
  assumes gone: "forgotten st u k"
  shows "forgotten (foldl (mt_serve P J gen junk) st es') u k"
  using sized
proof (induction es' rule: rev_induct)
  case Nil
  with gone show ?case by simp
next
  case (snoc e es')
  let ?st = "foldl (mt_serve P J gen junk) (mt_started n) (es @ es')"
  have sized: "mt_events_sized (es @ es')" using snoc.prems by (simp add: mt_events_sized_def)
  have IH: "forgotten ?st u k" using snoc.IH [OF sized] by (simp add: st_def)
  show ?case
  proof (cases "down ?st")
    case None
    from forgotten_step [OF P inj mt_run_ok [OF P inj sized None] IH, of junk e] show ?thesis by (simp add: st_def)
  next
    case (Some f)
    then have "mt_serve P J gen junk ?st e = ?st" by (simp add: mt_serve_def)
    with IH show ?thesis by (simp add: st_def)
  qed
qed

text \<open>The race: the first session fails before it is inserted.\<close>

lemma mt_leaks:
  fixes P and J :: "'j json" and gen junk
  assumes "0 < n"
  defines "st \<equiv> foldl (mt_serve P J gen junk) (mt_started n)
    [Mt_Event (Accept False), Mt_Event (On 0 Read_Failed), Insert]"
  shows "\<exists>c. conns st (gen 0) = Some c \<and> cleared c" and "forgotten st (gen 0) 0"
proof -
  note new = mt_CServer_starts [OF assms(1)]
  obtain c where c: "mt_accepted (gen 0) (junk 0) = Inr c" "v3_ep_ok (gen 0) c" "received c = []" "inbox c = []"
    "v3_queue (ep_sess c) = []" "\<not> cleared c" "ended c = None"
    using v3_accepted_ok unfolding mt_accepted_eq by blast
  have pend: "read_pending c" "write_pending c = None"
    using c by (auto simp: v3_ep.ep_ok_def v3_ep.stream_of_def split: option.splits)
  let ?c = "mt_event P c Read_Failed"
  have left: "cleared ?c" "idle ?c" "inbox ?c = []" "ended ?c = None" "clear_calls c < clear_calls ?c"
    using pend c(4,7) by (simp_all add: mt_event_def mt_read_error idle_def)
  have "st = \<lparr>reg = mt_insert gen 0 (mt_clear_step gen 0 (mt_HandleAccept 0 False (mt_CServer n))),
      conns = [gen 0 \<mapsto> ?c], down = None, handed = (\<lambda>_. 0), logic_que = [], dealt = []\<rparr>"
    unfolding st_def using new c(1) left
    by (simp add: mt_serve_def mt_started_def new_service_def connect_def on_completion_def asks_clear_def Let_def
        mt_clear_step_def mt_ClearSession_def mt_HandleAccept_def)
  then show "\<exists>c. conns st (gen 0) = Some c \<and> cleared c" "forgotten st (gen 0) 0"
    using left new by (simp_all add: forgotten_def under_way_def mt_insert_def map_insert_def mt_clear_step_def
        mt_ClearSession_def mt_HandleAccept_def)
qed

text \<open>Whereas an operation that fails takes its session out of the map, whenever it fails.\<close>

lemma mt_failure_erases:
  assumes P: "network_order P" and up: "down st = None" and c: "conns st (gen k) = Some c" "v3_ep_ok (gen k) c"
    and fails: "ne = Read_Failed \<and> read_pending c \<or> ne = Write_Failed \<and> write_pending c \<noteq> None"
  shows "sessions (reg (mt_serve P J gen junk st (Mt_Event (On k ne)))) (gen k) = None"
proof -
  have "clear_calls c < clear_calls (mt_event P c ne)"
    using session_contract.failure_clears [OF mt_session_contract [OF P] c(2) fails] by (simp add: mt_event_def)
  then have "asks_clear (gen k) st (on_completion (mt_event P) (gen k) ne st)"
    using c(1) by (simp add: asks_clear_def on_completion_def Let_def)
  then show ?thesis
    using up by (simp add: mt_serve_def Let_def mt_clear_step_def mt_ClearSession_def)
qed

end
