(* ===== verification/Mt_Uptime.thy ===== *)
theory Mt_Uptime
  imports Mt_Service Catch_Up
begin

text \<open>
  What cannot end the multi-threaded server, and how it catches up. Its handlers catch exceptions, so of
  the negative lengths only \<open>-1\<close> is harmful to the others, besides a request whose callback throws.
\<close>

section \<open>What a session has read\<close>

text \<open>The bytes that the completed reads of session \<open>k\<close> deliver in a run.\<close>

fun delivered_now :: "(nat \<Rightarrow> string) \<Rightarrow> nat \<Rightarrow> mt_server service \<Rightarrow> mt_service_event \<Rightarrow> byte list" where
  "delivered_now gen k st (Mt_Event (On j (Got chunk))) =
     (case conns st (gen k) of None \<Rightarrow> [] | Some c \<Rightarrow> if j = k \<and> read_pending c then chunk else [])"
| "delivered_now gen k st _ = []"

fun delivered ::
  "platform \<Rightarrow> 'j json \<Rightarrow> (nat \<Rightarrow> string) \<Rightarrow> (nat \<Rightarrow> byte list) \<Rightarrow> nat \<Rightarrow> mt_server service \<Rightarrow>
   mt_service_event list \<Rightarrow> byte list" where
  "delivered P J gen junk k st [] = []"
| "delivered P J gen junk k st (e # es) =
     delivered_now gen k st e @ delivered P J gen junk k (mt_serve P J gen junk st e) es"

lemma delivered_append [simp]:
  "delivered P J gen junk k st (es @ fs) =
     delivered P J gen junk k st es @ delivered P J gen junk k (foldl (mt_serve P J gen junk) st es) fs"
  by (induction es arbitrary: st) simp_all

text \<open>A session has received exactly these.\<close>

definition received_by :: "(nat \<Rightarrow> string) \<Rightarrow> nat \<Rightarrow> mt_server service \<Rightarrow> byte list" where
  "received_by gen k st = (case conns st (gen k) of None \<Rightarrow> [] | Some c \<Rightarrow> received c)"

lemma mt_event_received:
  "received (mt_event P c ne) = received c @ (case ne of Got chunk \<Rightarrow> if read_pending c then chunk else [] | _ \<Rightarrow> [])"
proof -
  obtain es r where "mt_rd P (case ne of Got chunk \<Rightarrow> chunk | _ \<Rightarrow> []) (ep_sess c) = (es, r)" by fastforce
  moreover obtain es1 r1 where "mt_HandleRead P True 0 (ep_sess c) = (es1, r1)" by fastforce
  moreover obtain es2 r2 where "mt_HandleWrite (ne = Write_Failed) (ep_sess c) = (es2, r2)" by fastforce
  ultimately show ?thesis
    by (cases ne; cases "write_pending c") (simp_all add: mt_event_def del: finish_call.simps)
qed

lemma received_step:
  assumes inj: "inj gen" and reg: "mt_reg_ok n gen st" and up: "down st = None"
  shows "received_by gen k (mt_serve P J gen junk st e) = received_by gen k st @ delivered_now gen k st e"
proof -
  have step: "mt_serve P J gen junk st e = mt_service_step P J gen junk st e" using up by (simp add: mt_serve_def)
  show ?thesis
  proof (cases "(P, J, gen, junk, st, e)" rule: mt_service_step.cases)
    case (1 P' J' gen' junk' st' error)
    show ?thesis
    proof (cases "acceptor_at (reg st) = Listening \<and> accepting (reg st) \<noteq> None")
      case True
      then obtain j where j: "accepting (reg st) = Some j" by blast
      obtain c where c: "mt_accepted (gen j) (junk j) = Inr c" "received c = []"
        using v3_accepted_ok unfolding mt_accepted_eq by blast
      have "conns st (gen j) = None" using reg j by (auto simp: mt_reg_ok_def)
      with True j c 1 show ?thesis
        by (simp add: mt_serve_def up received_by_def connect_def Let_def inj_eq [OF inj])
    qed (use 1 in \<open>auto simp: mt_serve_def\<close>)
  next
    case (2 P' J' gen' junk' st' j ne)
    then have e: "e = Mt_Event (On j ne)" by simp
    let ?st1 = "on_completion (mt_event P) (gen j) ne st"
    have "conns (mt_serve P J gen junk st e) = conns ?st1" by (simp add: e mt_serve_def up Let_def)
    then have "received_by gen k (mt_serve P J gen junk st e) = received_by gen k ?st1" by (simp add: received_by_def)
    also have "\<dots> = received_by gen k st @ delivered_now gen k st e"
    proof (cases "j = k")
      case True
      then show ?thesis
        by (cases "conns st (gen k)"; cases ne)
          (simp_all add: e received_by_def on_completion_def Let_def mt_event_received)
    next
      case False
      then have "delivered_now gen k st e = []" by (cases ne) (simp_all add: e split: option.split)
      with False show ?thesis
        by (simp add: received_by_def on_completion_def Let_def inj_eq [OF inj] split: option.split)
    qed
    finally show ?thesis .
  next
    case (4 P' J' gen' junk' st')
    then show ?thesis
      by (auto simp: mt_serve_def up received_by_def deal_next_def simp del: finish_call.simps
          split: list.split option.split prod.split outcome.split)
  next
    case (5 P' J' gen' junk' st')
    then show ?thesis by (auto simp: mt_serve_def up received_by_def split: acceptor.split)
  next
    case (6 P' J' gen' junk' st')
    then show ?thesis by (auto simp: mt_serve_def up received_by_def Let_def)
  qed (simp_all add: mt_serve_def up received_by_def)
qed

section \<open>The server stays up\<close>

definition mt_harmless :: "'j json \<Rightarrow> byte list \<Rightarrow> bool" where
  "mt_harmless J bytes \<longleftrightarrow> (\<forall>f. fst (v3_spec (Head []) bytes) = Crashed f \<longrightarrow> is_exception f) \<and>
     list_all (\<lambda>m. \<not> mt_fatal_message J m) (snd (v3_spec (Head []) bytes))"

lemma mt_harmless_prefix:
  assumes "mt_harmless J (xs @ ys)"
  shows "mt_harmless J xs"
proof -
  obtain a ms where a: "v3_spec (Head []) xs = (a, ms)" by fastforce
  obtain b ms' where b: "v3_spec a ys = (b, ms')" by fastforce
  have "v3_spec (Head []) (xs @ ys) = (b, ms @ ms')" using prun_appendI [OF a b] .
  moreover have "b = Crashed f" if "a = Crashed f" for f using b that by simp
  ultimately show ?thesis using assms a by (auto simp: mt_harmless_def)
qed

text \<open>What takes the server down, step by step.\<close>

lemma mt_goes_down:
  assumes P: "network_order P" and n: "0 < n" and reg: "mt_reg_ok n gen st"
    and ok: "request_server.service_ok (mt_answer J) st" and e: "\<And>k ne. e = Mt_Event (On k ne) \<Longrightarrow> sized ne"
    and up: "down st = None" and dn: "down (mt_serve P J gen junk st e) = Some f"
  shows "(\<exists>k chunk c. e = Mt_Event (On k (Got chunk)) \<and> conns st (gen k) = Some c \<and> read_pending c \<and>
      fst (v3_spec (Head []) (received c @ chunk)) = Crashed f \<and> \<not> is_exception f) \<or>
    (\<exists>nd rest. e = Mt_Event Work \<and> logic_que st = nd # rest \<and> mt_fatal_message J (msg_of nd))"
proof -
  note server = mt_request_server [OF P, of J]
  have step: "down (mt_service_step P J gen junk st e) = Some f" using dn up by (simp add: mt_serve_def)
  show ?thesis
  proof (cases "(P, J, gen, junk, st, e)" rule: mt_service_step.cases)
    case (1 P' J' gen' junk' st' error)
    have "\<exists>c. mt_accepted u j = Inr c" for u j using v3_accepted_ok unfolding mt_accepted_eq by blast
    then have "down (connect u (mt_accepted u j) st) = None" for u j
      using up by (auto simp: connect_def split: sum.split) (metis Inl_Inr_False)
    with step up 1 show ?thesis by (auto simp: Let_def split: option.splits if_splits)
  next
    case (2 P' J' gen' junk' st' k ne)
    with mt_isolates_exceptions [OF P ok _ up] dn e show ?thesis by blast
  next
    case (4 P' J' gen' junk' st')
    then have "down (deal_next (mt_deal P J) st) = Some f" using step by simp
    then obtain nd rest c es s where nd: "logic_que st = nd # rest" "conns st (ln_session nd) = Some c"
      "mt_deal P J nd (ep_sess c) = (es, Raised f s)"
      using up by (auto simp: deal_next_def split: list.splits option.splits prod.splits outcome.splits)
    with mt_deal_raises [OF P request_server.conn_endpoint_ok [OF server ok nd(2)] nd(3)] 4 show ?thesis by blast
  next
    case (6 P' J' gen' junk' st')
    have "spread n (reg st)" using reg n spread_reachable by (auto simp: mt_reg_ok_def)
    from spread_StartAccept(2) [OF n this] 6 step up show ?thesis by (auto simp: Let_def split: if_splits)
  qed (use step up in \<open>auto split: acceptor.splits\<close>)
qed

lemma mt_message_received:
  assumes P: "network_order P" and ok: "request_server.service_ok (mt_answer J) st" and dom: "dom (conns st) \<subseteq> range gen"
    and q: "logic_que st = nd # rest" and fatal: "mt_fatal_message J (msg_of nd)"
  shows "\<exists>k. \<not> mt_harmless J (received_by gen k st)"
proof -
  obtain c where c: "conns st (ln_session nd) = Some c" "msg_of nd \<in> set (v3_messages c)"
    using request_server.next_message [OF mt_request_server [OF P] ok q] by blast
  obtain k where "ln_session nd = gen k" using dom c(1) by blast
  with c fatal have "\<not> mt_harmless J (received_by gen k st)"
    by (auto simp: received_by_def mt_harmless_def v3_messages_def list_all_iff)
  then show ?thesis by blast
qed

lemma mt_stays_up:
  assumes P: "network_order P" and inj: "inj gen" and n: "0 < n" and sized: "mt_events_sized es"
    and good: "\<And>k. mt_harmless J (delivered P J gen junk k (mt_started n) es)"
  defines "st \<equiv> foldl (mt_serve P J gen junk) (mt_started n) es"
  shows "down st = None \<and> dom (conns st) \<subseteq> range gen \<and>
    (\<forall>k. received_by gen k st = delivered P J gen junk k (mt_started n) es)"
  using sized good unfolding st_def
proof (induction es rule: rev_induct)
  case Nil
  show ?case by (simp add: mt_started_def new_service_def received_by_def)
next
  case (snoc e es)
  let ?st = "foldl (mt_serve P J gen junk) (mt_started n) es" and ?del = "\<lambda>k. delivered P J gen junk k (mt_started n) es"
  have sized: "mt_events_sized es" "\<And>k ne. e = Mt_Event (On k ne) \<Longrightarrow> sized ne"
    using snoc.prems(1) by (simp_all add: mt_events_sized_def)
  have all: "mt_harmless J (?del k @ delivered_now gen k ?st e)" for k
    using snoc.prems(2) [of k] by simp
  then have good: "mt_harmless J (?del k)" for k by (rule mt_harmless_prefix)
  have IH: "down ?st = None" "dom (conns ?st) \<subseteq> range gen" "\<And>k. received_by gen k ?st = ?del k"
    using snoc.IH [OF sized(1) good] by blast+
  note run = mt_run_ok [OF P inj sized(1) IH(1)]
  have "down (mt_serve P J gen junk ?st e) = None"
  proof (rule ccontr)
    assume "down (mt_serve P J gen junk ?st e) \<noteq> None"
    then obtain f where f: "down (mt_serve P J gen junk ?st e) = Some f" by blast
    have "(\<exists>k chunk c. e = Mt_Event (On k (Got chunk)) \<and> conns ?st (gen k) = Some c \<and> read_pending c \<and>
        fst (v3_spec (Head []) (received c @ chunk)) = Crashed f \<and> \<not> is_exception f) \<or>
      (\<exists>nd rest. e = Mt_Event Work \<and> logic_que ?st = nd # rest \<and> mt_fatal_message J (msg_of nd))"
      by (rule mt_goes_down [OF P n run sized(2) IH(1) f])
    then show False
    proof (elim disjE exE conjE)
      fix k chunk c
      assume "e = Mt_Event (On k (Got chunk))" "conns ?st (gen k) = Some c" "read_pending c"
        "fst (v3_spec (Head []) (received c @ chunk)) = Crashed f" "\<not> is_exception f"
      with all [of k] IH(3) [of k] show False by (auto simp: mt_harmless_def received_by_def)
    next
      fix nd rest
      assume "logic_que ?st = nd # rest" "mt_fatal_message J (msg_of nd)"
      from mt_message_received [OF P run(2) IH(2) this] good IH(3) show False by simp
    qed
  qed
  then show ?case
    using mt_serve_dom [OF IH(2), of P J junk e] received_step [OF inj run(1) IH(1), of _ P J junk e] IH(3) by simp
qed

section \<open>The server catches up\<close>

lemma mt_draining_server:
  assumes P: "network_order P"
  shows "draining_server (mt_event P) (mt_deal P J) (mt_answer J)"
proof (intro draining_server.intro mt_request_server [OF P] draining_server_axioms.intro)
  fix u c bs
  assume "v3_ep_ok u c" "write_pending c = Some bs"
  from session_contract.wrote_step [OF mt_session_contract [OF P] this]
  show "ended (mt_event P c Wrote) = None \<and> inbox (mt_event P c Wrote) = inbox c \<and>
      cleared (mt_event P c Wrote) = cleared c \<and> \<not> clear_calls c < clear_calls (mt_event P c Wrote) \<and>
      received (mt_event P c Wrote) = received c \<and>
      v3_queue (ep_sess c) = bs # v3_queue (ep_sess (mt_event P c Wrote))"
    by (simp add: mt_event_def)
qed (rule mt_deal_clears)

interpretation mt_drain: draining_server "mt_event x86_host" "mt_deal x86_host J" "mt_answer J" for J
  by (rule mt_draining_server) (rule x86.network_order_axioms)

definition mt_harmless_state ::
  "platform \<Rightarrow> 'j json \<Rightarrow> nat \<Rightarrow> (nat \<Rightarrow> string) \<Rightarrow> (nat \<Rightarrow> byte list) \<Rightarrow> mt_server service \<Rightarrow> bool" where
  "mt_harmless_state P J n gen junk st \<longleftrightarrow> (\<exists>es. mt_events_sized es \<and>
     (\<forall>k. mt_harmless J (delivered P J gen junk k (mt_started n) es)) \<and>
     st = foldl (mt_serve P J gen junk) (mt_started n) es)"

lemma mt_harmless_sound:
  assumes P: "network_order P" and inj: "inj gen" and n: "0 < n" and st: "mt_harmless_state P J n gen junk st"
  shows "down st = None" "request_server.service_ok (mt_answer J) st" "mt_reg_ok n gen st"
    "dom (conns st) \<subseteq> gen ` {..<next_object (reg st)}"
proof -
  obtain es where es: "mt_events_sized es" "\<And>k. mt_harmless J (delivered P J gen junk k (mt_started n) es)"
    "st = foldl (mt_serve P J gen junk) (mt_started n) es"
    using st by (auto simp: mt_harmless_state_def)
  have up: "down st = None" "dom (conns st) \<subseteq> range gen"
    unfolding es(3) using mt_stays_up [OF P inj n es(1,2)] by blast+
  note run = mt_run_ok [OF P inj es(1) up(1) [unfolded es(3)], folded es(3)]
  show "down st = None" "request_server.service_ok (mt_answer J) st" "mt_reg_ok n gen st" by (rule up run)+
  show "dom (conns st) \<subseteq> gen ` {..<next_object (reg st)}"
    using run(1) up(2) by (fastforce simp: mt_reg_ok_def)
qed

lemma mt_due_step:
  assumes P: "network_order P" and inj: "inj gen" and n: "0 < n" and st: "mt_harmless_state P J n gen junk st"
    and e: "due gen st e"
  defines "st' \<equiv> mt_serve P J gen junk st (Mt_Event e)"
  shows "same_clients st st' \<and> mt_harmless_state P J n gen junk st' \<and>
    work_left gen (next_object (reg st')) st' < work_left gen (next_object (reg st)) st"
proof -
  note sound = mt_harmless_sound [OF P inj n st] and server = mt_draining_server [OF P, of J]
  obtain es where es: "mt_events_sized es" "\<And>k. mt_harmless J (delivered P J gen junk k (mt_started n) es)"
    "st = foldl (mt_serve P J gen junk) (mt_started n) es"
    using st by (auto simp: mt_harmless_state_def)
  have "delivered_now gen k st (Mt_Event e) = []" for k
    using e by (cases "(gen, st, e)" rule: due.cases) auto
  moreover have "mt_events_sized (es @ [Mt_Event e])"
    using es(1) e by (cases "(gen, st, e)" rule: due.cases) (auto simp: mt_events_sized_def sized_def)
  ultimately have harmless: "mt_harmless_state P J n gen junk st'"
    using es(2,3) unfolding mt_harmless_state_def st'_def by (intro exI [of _ "es @ [Mt_Event e]"]) simp
  have owed: "st' = owed_step (mt_event P) (mt_deal P J) gen st e"
    using e sound(1) draining_server.write_lowers(3) [OF server sound(2,4)]
    by (cases "(gen, st, e)" rule: due.cases) (auto simp: st'_def mt_serve_def Let_def)
  have "reg (deal_next (mt_deal P J) st) = reg st" by (rule deal_next_frame(3)) (rule mt_deal_clears)
  then have "reg st' = reg st"
    unfolding owed using e by (cases "(gen, st, e)" rule: due.cases) (auto simp: completion_dom)
  moreover have "down st' = None" by (rule mt_harmless_sound [OF P inj n harmless])
  ultimately show ?thesis
    using harmless draining_server.owed_step_lowers [OF server sound(2,4) e]
      draining_server.owed_step_clients [OF server sound(2) e]
    by (simp add: owed)
qed

text \<open>Runs of due steps are bounded, they lead to a state where nothing is due, and there all is answered.\<close>

lemma mt_catches_up:
  assumes P: "network_order P" and inj: "inj gen" and n: "0 < n" and st: "mt_harmless_state P J n gen junk st"
  defines "step \<equiv> \<lambda>st e. mt_serve P J gen junk st (Mt_Event e)" and "left \<equiv> \<lambda>st. work_left gen (next_object (reg st)) st"
  shows "due_run step (due gen) st owed \<Longrightarrow> length owed \<le> left st"
    and "\<exists>owed. due_run step (due gen) st owed \<and> (\<forall>e. \<not> due gen (foldl step st owed) e)"
    and "due_run step (due gen) st owed \<Longrightarrow> \<forall>e. \<not> due gen (foldl step st owed) e \<Longrightarrow>
      conns st (gen k) = Some c \<Longrightarrow> \<not> cleared c \<Longrightarrow>
      \<exists>c'. conns (foldl step st owed) (gen k) = Some c' \<and> received c' = received c \<and> all_answered (mt_answer J) c'"
proof -
  let ?good = "\<lambda>st'. same_clients st st' \<and> mt_harmless_state P J n gen junk st'"
  have start: "?good st" using st by simp
  have next_step: "?good (step st1 e) \<and> left (step st1 e) < left st1" if "?good st1" "due gen st1 e" for st1 e
    using that mt_due_step [OF P inj n, of J junk st1 e] same_clients_trans unfolding step_def left_def by blast
  have bound: "?good (foldl step st owed) \<and> length owed + left (foldl step st owed) \<le> left st"
    if "due_run step (due gen) st owed" for owed
    by (rule due_run_bound [of ?good "due gen" step left]) (use next_step start that in blast)+
  show "length owed \<le> left st" if "due_run step (due gen) st owed" using bound [OF that] by simp
  show "\<exists>owed. due_run step (due gen) st owed \<and> (\<forall>e. \<not> due gen (foldl step st owed) e)"
    by (rule due_run_settles [of ?good "due gen" step left]) (use next_step start in blast)+
  show "\<exists>c'. conns (foldl step st owed) (gen k) = Some c' \<and> received c' = received c \<and> all_answered (mt_answer J) c'"
    if run: "due_run step (due gen) st owed" and settled: "\<forall>e. \<not> due gen (foldl step st owed) e"
      and c: "conns st (gen k) = Some c" "\<not> cleared c"
  proof -
    from bound [OF run] have good: "same_clients st (foldl step st owed)"
      "mt_harmless_state P J n gen junk (foldl step st owed)" by simp_all
    obtain c' where c': "conns (foldl step st owed) (gen k) = Some c'" "received c' = received c" "\<not> cleared c'"
      using same_clientsD [OF good(1) c(1)] c(2) by auto
    with draining_server.settled_caught_up [OF mt_draining_server [OF P]
        mt_harmless_sound(2) [OF P inj n good(2)] settled c'(1)]
    show ?thesis by blast
  qed
qed

end
