(* ===== verification/V3_Uptime.thy ===== *)
theory V3_Uptime
  imports Catch_Up
begin

text \<open>
  Clients that never send a header with a negative length, nor a request whose callback throws, cannot
  end \<open>Server-version-3\<close>, however their bytes and the steps of the threads interleave; and from wherever
  such a run stops, the steps that are due lead in bounded number to a state where all is answered.
\<close>

section \<open>What a session has received\<close>

fun accepts :: "service_event list \<Rightarrow> nat" where
  "accepts [] = 0"
| "accepts (Accept error # es) = Suc (accepts es)"
| "accepts (_ # es) = accepts es"

text \<open>The bytes that arrive for session \<open>k\<close>, once it has been accepted; \<open>n\<close> accepts have gone before.\<close>

fun client_bytes :: "nat \<Rightarrow> nat \<Rightarrow> service_event list \<Rightarrow> byte list" where
  "client_bytes n k [] = []"
| "client_bytes n k (Accept error # es) = client_bytes (Suc n) k es"
| "client_bytes n k (On j (Got chunk) # es) = (if j = k \<and> k < n then chunk else []) @ client_bytes n k es"
| "client_bytes n k (_ # es) = client_bytes n k es"

lemma accepts_append [simp]: "accepts (es @ fs) = accepts es + accepts fs"
  by (induction es rule: accepts.induct) simp_all

lemma client_bytes_append [simp]:
  "client_bytes n k (es @ fs) = client_bytes n k es @ client_bytes (n + accepts es) k fs"
  by (induction n k es rule: client_bytes.induct) simp_all

lemma client_bytes_early: "n + accepts es \<le> k \<Longrightarrow> client_bytes n k es = []"
  by (induction n k es rule: client_bytes.induct) simp_all

text \<open>
  A session has received the first of these bytes; it has missed some only if it has stopped reading, and
  then it does not begin again.
\<close>

definition hears :: "byte list \<Rightarrow> v3_endpoint \<Rightarrow> bool" where
  "hears bytes c \<longleftrightarrow> (\<exists>rest. bytes = received c @ rest \<and> (rest \<noteq> [] \<longrightarrow> \<not> read_pending c))"

definition heard :: "(nat \<Rightarrow> string) \<Rightarrow> service_event list \<Rightarrow> server service \<Rightarrow> bool" where
  "heard gen es st \<longleftrightarrow> next_object (reg st) = Suc (accepts es) \<and>
     (\<forall>k c. conns st (gen k) = Some c \<longrightarrow> hears (client_bytes 0 k es) c)"

lemma hears_write:
  assumes wr: "v3_HandleWrite error s = (es, Returned s')" and "hears bytes c"
    and c': "received c' = received c" "read_pending c' = read_pending c"
  shows "hears bytes (finish_call c' (es, Returned s'))"
  using assms v3_HandleWrite_only [OF wr] by (simp add: hears_def del: finish_call.simps)

lemma hears_event:
  assumes h: "hears bytes c" and up: "ended (v3_event P c ne) = None" and was: "ended c = None"
  shows "hears (bytes @ (case ne of Got chunk \<Rightarrow> chunk | _ \<Rightarrow> [])) (v3_event P c ne)"
proof (cases ne)
  case (Got chunk)
  show ?thesis
  proof (cases "read_pending c")
    case True
    obtain es r where run: "v3_rd P chunk (ep_sess c) = (es, r)" by fastforce
    from h True have "bytes = received c" by (auto simp: hears_def)
    with Got True run show ?thesis by (simp add: v3_event_def hears_def del: finish_call.simps)
  next
    case False
    with Got h show ?thesis by (auto simp: v3_event_def hears_def)
  qed
next
  case Read_Failed
  obtain es r where run: "v3_HandleRead P True 0 (ep_sess c) = (es, r)" by fastforce
  then have "reads es = 0" by (auto simp: v3_read_error)
  with Read_Failed h run show ?thesis by (auto simp: v3_event_def hears_def simp del: finish_call.simps)
next
  case Wrote
  show ?thesis
  proof (cases "write_pending c")
    case (Some bs)
    obtain es r where run: "v3_HandleWrite False (ep_sess c) = (es, r)" by fastforce
    moreover obtain s' where "r = Returned s'" using up Wrote Some run by (cases r) (simp_all add: v3_event_def)
    ultimately show ?thesis using hears_write [OF _ h] Wrote Some by (simp add: v3_event_def del: finish_call.simps)
  qed (use Wrote h in \<open>simp add: v3_event_def\<close>)
next
  case Write_Failed
  show ?thesis
  proof (cases "write_pending c")
    case (Some bs)
    obtain es r where run: "v3_HandleWrite True (ep_sess c) = (es, r)" by fastforce
    moreover obtain s' where "r = Returned s'" using up Write_Failed Some run by (cases r) (simp_all add: v3_event_def)
    ultimately show ?thesis using hears_write [OF _ h] Write_Failed Some by (simp add: v3_event_def del: finish_call.simps)
  qed (use Write_Failed h in \<open>simp add: v3_event_def\<close>)
qed

lemma hears_deal:
  assumes "hears bytes c" "v3_deal P J nd (ep_sess c) = (es, Returned s)"
  shows "hears bytes (finish_call c (es, Returned s))"
proof -
  have "reads es = 0"
    using assms(2) v3_Send_only [of P "Send_String _ _"]
    by (fastforce simp: v3_deal_def v3_deal_front_def v3_HelloWorldCallBack_def Let_def
        split: option.splits callback.splits sum.splits prod.splits outcome.splits)
  with assms(1) show ?thesis by (simp add: hears_def del: finish_call.simps)
qed

text \<open>Facts about a connection of a running server.\<close>

lemma connected_before:
  assumes inj: "inj gen" and reg: "reg_ok gen st" and h: "heard gen es st" and c: "conns st (gen k) = Some c"
  shows "k < accepts es"
proof -
  obtain k' where "gen k = gen k'" "Suc k' < next_object (reg st)" using reg c unfolding reg_ok_def by blast
  with h show ?thesis by (simp add: heard_def inj_eq [OF inj])
qed

lemma connected_not_ended:
  assumes P: "network_order P" and ok: "request_server.service_ok (v3_answer J) st" and c: "conns st u = Some c"
  shows "ended c = None"
  using request_server.service_okD [OF v3_request_server [OF P] ok c]
  by (simp add: request_server.conn_ok_def [OF v3_request_server [OF P]] v3_ep.ep_ok_def)

lemma heard_accept:
  assumes inj: "inj gen" and reg: "reg_ok gen st" and h: "heard gen es st"
  shows "heard gen (es @ [Accept error]) (v3_service_step P J gen junk st (Accept error))"
proof -
  let ?st' = "v3_service_step P J gen junk st (Accept error)"
  have n: "next_object (reg st) = Suc (accepts es)"
    and hs: "\<And>k c. conns st (gen k) = Some c \<Longrightarrow> hears (client_bytes 0 k es) c"
    using h by (auto simp: heard_def)
  have acc: "accepting (reg st) = Some (accepts es)" using reg n by (simp add: reg_ok_def server_inv_def)
  obtain c where c: "v3_accepted (gen (accepts es)) (junk (accepts es)) = Inr c" "received c = []"
    using v3_accepted_ok by blast
  have st': "?st' = (if error then st else connect (gen (accepts es)) (Inr c) st)
      \<lparr>reg := v3_HandleAccept gen (accepts es) error (reg st)\<rparr>"
    using acc c(1) by (simp add: connect_def)
  have "hears (client_bytes 0 k es) d" if "conns ?st' (gen k) = Some d" for k d
    using that hs c(2) client_bytes_early [of 0 es "accepts es"] unfolding st'
    by (auto simp: connect_def hears_def inj_eq [OF inj] split: if_splits)
  moreover have "next_object (reg ?st') = Suc (Suc (accepts es))"
    unfolding st' by (simp add: v3_HandleAccept_def v3_StartAccept_def n)
  ultimately show ?thesis by (simp add: heard_def)
qed

lemma heard_completion:
  assumes P: "network_order P" and inj: "inj gen" and reg: "reg_ok gen st"
    and ok: "request_server.service_ok (v3_answer J) st" and h: "heard gen es st"
    and up: "down (on_completion (v3_event P) (gen j) ne st) = None"
    and d: "conns (on_completion (v3_event P) (gen j) ne st) (gen k) = Some d"
  shows "hears (client_bytes 0 k (es @ [On j ne])) d"
proof -
  have hs: "\<And>k c. conns st (gen k) = Some c \<Longrightarrow> hears (client_bytes 0 k es) c" using h by (auto simp: heard_def)
  have new: "client_bytes 0 k (es @ [On j ne]) =
      client_bytes 0 k es @ (if j = k \<and> k < accepts es then case ne of Got chunk \<Rightarrow> chunk | _ \<Rightarrow> [] else [])"
    by (simp split: net_event.split)
  show ?thesis
  proof (cases "k = j")
    case True
    then obtain c where c: "conns st (gen k) = Some c" "d = v3_event P c ne"
      using d by (auto simp: on_completion_def Let_def split: option.splits)
    have "k < accepts es" "ended c = None"
      using connected_before [OF inj reg h c(1)] connected_not_ended [OF P ok c(1)] .
    moreover have "ended d = None" using up c True by (simp add: on_completion_def Let_def)
    ultimately show ?thesis unfolding new using hears_event [OF hs [OF c(1)], of P ne] c(2) True by simp
  next
    case False
    then have "conns st (gen k) = Some d"
      using d by (auto simp: on_completion_def Let_def inj_eq [OF inj] split: option.splits)
    with hs False show ?thesis by (simp add: new del: client_bytes_append)
  qed
qed

lemma heard_step:
  assumes inj: "inj gen" and reg: "reg_ok gen st" and ok: "request_server.service_ok (v3_answer J) st"
    and P: "network_order P" and h: "heard gen es st"
    and up: "down st = None" "down (v3_serve P J gen junk st e) = None"
  shows "heard gen (es @ [e]) (v3_serve P J gen junk st e)"
proof -
  have step: "v3_serve P J gen junk st e = v3_service_step P J gen junk st e" using up by (simp add: v3_serve_def)
  have n: "next_object (reg st) = Suc (accepts es)"
    and hs: "\<And>k c. conns st (gen k) = Some c \<Longrightarrow> hears (client_bytes 0 k es) c"
    using h by (auto simp: heard_def)
  show ?thesis
  proof (cases e)
    case (Accept error)
    with heard_accept [OF inj reg h] show ?thesis unfolding step by blast
  next
    case (On j ne)
    let ?st1 = "on_completion (v3_event P) (gen j) ne st"
    have st': "v3_serve P J gen junk st e =
        (if asks_clear (gen j) st ?st1 then ?st1\<lparr>reg := v3_clear_session (gen j) (reg ?st1)\<rparr> else ?st1)"
      unfolding step unfolding On by (simp add: Let_def)
    then have "down ?st1 = None" using up(2) by (simp split: if_splits)
    note heard_completion [OF P inj reg ok h this]
    moreover have "conns (v3_serve P J gen junk st e) = conns ?st1"
      "next_object (reg (v3_serve P J gen junk st e)) = next_object (reg st)"
      by (simp_all add: st' v3_clear_session_def completion_dom)
    ultimately show ?thesis using n by (simp add: heard_def On del: client_bytes_append)
  next
    case (Push k)
    with h show ?thesis unfolding step heard_def by simp
  next
    case Work
    have "hears (client_bytes 0 k es) d" if "conns (deal_next (v3_deal P J) st) (gen k) = Some d" for k d
      using that hs by (auto simp: deal_next_def hears_deal simp del: finish_call.simps
          split: list.splits option.splits prod.splits outcome.splits if_splits)
    moreover have "reg (deal_next (v3_deal P J) st) = reg st"
      by (rule deal_next_frame(3)) (rule v3_deal_clears)
    ultimately show ?thesis unfolding step unfolding Work using n by (simp add: heard_def)
  qed
qed

section \<open>The server stays up\<close>

text \<open>Bytes after which the specification has not crashed, and in which no message is fatal.\<close>

definition harmless :: "'j json \<Rightarrow> byte list \<Rightarrow> bool" where
  "harmless J bytes \<longleftrightarrow> (\<forall>f. fst (v3_spec (Head []) bytes) \<noteq> Crashed f) \<and>
     list_all (\<lambda>m. \<not> v3_fatal_message J m) (snd (v3_spec (Head []) bytes))"

lemma harmless_prefix:
  assumes "harmless J (xs @ ys)"
  shows "harmless J xs"
proof -
  obtain a ms where a: "v3_spec (Head []) xs = (a, ms)" by fastforce
  obtain b ms' where b: "v3_spec a ys = (b, ms')" by fastforce
  have "v3_spec (Head []) (xs @ ys) = (b, ms @ ms')" using prun_appendI [OF a b] .
  moreover have "b = Crashed f" if "a = Crashed f" for f using b that by simp
  ultimately show ?thesis using assms a by (auto simp: harmless_def)
qed

text \<open>A read that announces a negative length, and a fatal message, are in the bytes of some client.\<close>

lemma crashing_read_harmful:
  assumes P: "network_order P" and inj: "inj gen" and reg: "reg_ok gen st"
    and ok: "request_server.service_ok (v3_answer J) st" and h: "heard gen es st" and c: "conns st (gen k) = Some c"
    and crash: "fst (v3_spec (Head []) (received c @ chunk)) = Crashed f"
    and dn: "down (v3_serve P J gen junk st (On k (Got chunk))) \<noteq> None" and up: "down st = None"
  shows "\<not> harmless J (client_bytes 0 k (es @ [On k (Got chunk)]))"
proof -
  have k: "k < accepts es" by (rule connected_before [OF inj reg h c])
  obtain rest where rest: "client_bytes 0 k es = received c @ rest" "rest \<noteq> [] \<longrightarrow> \<not> read_pending c"
    using h c by (auto simp: heard_def hears_def)
  show ?thesis
  proof (cases "rest = []")
    case True
    with k rest(1) crash show ?thesis by (simp add: harmless_def)
  next
    case False
    with rest(2) have "v3_event P c (Got chunk) = c" by (simp add: v3_event_def)
    then have "down (v3_serve P J gen junk st (On k (Got chunk))) = ended c"
      using up c by (simp add: v3_serve_def on_completion_def Let_def)
    with connected_not_ended [OF P ok c] dn show ?thesis by simp
  qed
qed

lemma fatal_message_harmful:
  assumes P: "network_order P" and reg: "reg_ok gen st" and ok: "request_server.service_ok (v3_answer J) st"
    and h: "heard gen es st" and q: "logic_que st = nd # rest" and fatal: "v3_fatal_message J (msg_of nd)"
  shows "\<exists>k. \<not> harmless J (client_bytes 0 k es)"
proof -
  obtain c where c: "conns st (ln_session nd) = Some c" "msg_of nd \<in> set (v3_messages c)"
    using request_server.next_message [OF v3_request_server [OF P] ok q] by blast
  obtain k where "ln_session nd = gen k" using reg c(1) unfolding reg_ok_def by blast
  then obtain more where "client_bytes 0 k es = received c @ more"
    using h c(1) by (auto simp: heard_def hears_def)
  then have "harmless J (client_bytes 0 k es) \<Longrightarrow> harmless J (received c)"
    using harmless_prefix by (simp only:)
  then show ?thesis
    using c(2) fatal by (fastforce simp: harmless_def v3_messages_def list_all_iff)
qed

lemma v3_stays_up:
  assumes P: "network_order P" and inj: "inj gen" and sized: "events_sized es"
    and good: "\<And>k. harmless J (client_bytes 0 k es)"
  shows "down (foldl (v3_serve P J gen junk) v3_started es) = None \<and>
    heard gen es (foldl (v3_serve P J gen junk) v3_started es)"
  using sized good
proof (induction es rule: rev_induct)
  case Nil
  show ?case
    by (simp add: heard_def v3_started_def new_service_def v3_CServer_def v3_StartAccept_def new_server_def)
next
  case (snoc e es)
  let ?st = "foldl (v3_serve P J gen junk) v3_started es"
  have sized: "events_sized es" "\<And>k ne. e = On k ne \<Longrightarrow> sized ne" using snoc.prems(1) by (simp_all add: events_sized_def)
  have good: "harmless J (client_bytes 0 k es)" for k
    using harmless_prefix [OF snoc.prems(2) [unfolded client_bytes_append]] by blast
  have IH: "down ?st = None" "heard gen es ?st" using snoc.IH [OF sized(1) good] by blast+
  note run = v3_run_ok [OF P inj sized(1) IH(1)]
  have "down (v3_serve P J gen junk ?st e) = None"
  proof (rule ccontr)
    assume dn: "down (v3_serve P J gen junk ?st e) \<noteq> None"
    then obtain f where f: "down (v3_serve P J gen junk ?st e) = Some f" by blast
    have "(\<exists>k chunk c. e = On k (Got chunk) \<and> conns ?st (gen k) = Some c \<and>
          fst (v3_spec (Head []) (received c @ chunk)) = Crashed f) \<or>
        (\<exists>nd rest. e = Work \<and> logic_que ?st = nd # rest \<and> v3_fatal_message J (msg_of nd))"
      by (rule v3_goes_down [OF P run(2) sized(2) IH(1) f])
    then show False
    proof (elim disjE exE conjE)
      fix k chunk c
      assume e: "e = On k (Got chunk)" and c: "conns ?st (gen k) = Some c"
        "fst (v3_spec (Head []) (received c @ chunk)) = Crashed f"
      from crashing_read_harmful [OF P inj run IH(2) c dn [unfolded e] IH(1)] snoc.prems(2) [of k] show False
        by (simp add: e)
    next
      fix nd rest
      assume "logic_que ?st = nd # rest" "v3_fatal_message J (msg_of nd)"
      from fatal_message_harmful [OF P run IH(2) this] good show False by blast
    qed
  qed
  then show ?case using heard_step [OF inj run P IH(2,1)] by simp
qed

section \<open>The server catches up\<close>

lemma v3_draining_server:
  assumes P: "network_order P"
  shows "draining_server (v3_event P) (v3_deal P J) (v3_answer J)"
proof (intro draining_server.intro v3_request_server [OF P] draining_server_axioms.intro)
  fix u c bs
  assume "v3_ep_ok u c" "write_pending c = Some bs"
  from session_contract.wrote_step [OF v3_session_contract [OF P] this]
  show "ended (v3_event P c Wrote) = None \<and> inbox (v3_event P c Wrote) = inbox c \<and>
      cleared (v3_event P c Wrote) = cleared c \<and> \<not> clear_calls c < clear_calls (v3_event P c Wrote) \<and>
      received (v3_event P c Wrote) = received c \<and>
      v3_queue (ep_sess c) = bs # v3_queue (ep_sess (v3_event P c Wrote))"
    by (simp add: v3_event_def)
qed (rule v3_deal_clears)

interpretation v3_drain: draining_server "v3_event x86_host" "v3_deal x86_host J" "v3_answer J" for J
  by (rule v3_draining_server) (rule x86.network_order_axioms)

definition v3_harmless_state ::
  "platform \<Rightarrow> 'j json \<Rightarrow> (nat \<Rightarrow> string) \<Rightarrow> (nat \<Rightarrow> byte list) \<Rightarrow> server service \<Rightarrow> bool" where
  "v3_harmless_state P J gen junk st \<longleftrightarrow> (\<exists>es. events_sized es \<and> (\<forall>k. harmless J (client_bytes 0 k es)) \<and>
     st = foldl (v3_serve P J gen junk) v3_started es)"

lemma v3_harmless_sound:
  assumes P: "network_order P" and inj: "inj gen" and st: "v3_harmless_state P J gen junk st"
  shows "down st = None" "request_server.service_ok (v3_answer J) st"
    "dom (conns st) \<subseteq> gen ` {..<next_object (reg st)}"
proof -
  obtain es where es: "events_sized es" "\<And>k. harmless J (client_bytes 0 k es)"
    "st = foldl (v3_serve P J gen junk) v3_started es"
    using st by (auto simp: v3_harmless_state_def)
  show up: "down st = None" unfolding es(3) using v3_stays_up [OF P inj es(1,2)] by blast
  note run = v3_run_ok [OF P inj es(1) up [unfolded es(3)], folded es(3)]
  show "request_server.service_ok (v3_answer J) st" by (rule run)
  show "dom (conns st) \<subseteq> gen ` {..<next_object (reg st)}" using run(1) by (fastforce simp: reg_ok_def)
qed

lemma v3_due_step:
  assumes P: "network_order P" and inj: "inj gen" and st: "v3_harmless_state P J gen junk st" and e: "due gen st e"
  defines "st' \<equiv> v3_serve P J gen junk st e"
  shows "same_clients st st' \<and> v3_harmless_state P J gen junk st' \<and>
    work_left gen (next_object (reg st')) st' < work_left gen (next_object (reg st)) st"
proof -
  note sound = v3_harmless_sound [OF P inj st] and server = v3_draining_server [OF P, of J]
  obtain es where es: "events_sized es" "\<And>k. harmless J (client_bytes 0 k es)"
    "st = foldl (v3_serve P J gen junk) v3_started es"
    using st by (auto simp: v3_harmless_state_def)
  have "client_bytes 0 k (es @ [e]) = client_bytes 0 k es" for k
    using e by (cases "(gen, st, e)" rule: due.cases) auto
  moreover have "events_sized (es @ [e])"
    using es(1) e by (cases "(gen, st, e)" rule: due.cases) (auto simp: events_sized_def sized_def)
  ultimately have harmless: "v3_harmless_state P J gen junk st'"
    using es(2,3) unfolding v3_harmless_state_def st'_def by (intro exI [of _ "es @ [e]"]) simp
  have owed: "st' = owed_step (v3_event P) (v3_deal P J) gen st e"
    using e sound(1) draining_server.write_lowers(3) [OF server sound(2,3)]
    by (cases "(gen, st, e)" rule: due.cases) (auto simp: st'_def v3_serve_def Let_def)
  have "reg (deal_next (v3_deal P J) st) = reg st" by (rule deal_next_frame(3)) (rule v3_deal_clears)
  then have "reg st' = reg st"
    unfolding owed using e by (cases "(gen, st, e)" rule: due.cases) (auto simp: completion_dom)
  moreover have "down st' = None" by (rule v3_harmless_sound [OF P inj harmless])
  ultimately show ?thesis
    using harmless draining_server.owed_step_lowers [OF server sound(2,3) e]
      draining_server.owed_step_clients [OF server sound(2) e]
    by (simp add: owed)
qed

text \<open>Runs of due steps are bounded, they lead to a state where nothing is due, and there all is answered.\<close>

lemma v3_catches_up:
  assumes P: "network_order P" and inj: "inj gen" and st: "v3_harmless_state P J gen junk st"
  defines "step \<equiv> v3_serve P J gen junk" and "left \<equiv> \<lambda>st. work_left gen (next_object (reg st)) st"
  shows "due_run step (due gen) st owed \<Longrightarrow> length owed \<le> left st"
    and "\<exists>owed. due_run step (due gen) st owed \<and> (\<forall>e. \<not> due gen (foldl step st owed) e)"
    and "due_run step (due gen) st owed \<Longrightarrow> \<forall>e. \<not> due gen (foldl step st owed) e \<Longrightarrow>
      conns st (gen k) = Some c \<Longrightarrow> \<not> cleared c \<Longrightarrow>
      \<exists>c'. conns (foldl step st owed) (gen k) = Some c' \<and> received c' = received c \<and> all_answered (v3_answer J) c'"
proof -
  let ?good = "\<lambda>st'. same_clients st st' \<and> v3_harmless_state P J gen junk st'"
  have start: "?good st" using st by simp
  have next_step: "?good (step st1 e) \<and> left (step st1 e) < left st1" if "?good st1" "due gen st1 e" for st1 e
    using that v3_due_step [OF P inj, of J junk st1 e] same_clients_trans unfolding step_def left_def by blast
  have bound: "?good (foldl step st owed) \<and> length owed + left (foldl step st owed) \<le> left st"
    if "due_run step (due gen) st owed" for owed
    by (rule due_run_bound [of ?good "due gen" step left]) (use next_step start that in blast)+
  show "length owed \<le> left st" if "due_run step (due gen) st owed" using bound [OF that] by simp
  show "\<exists>owed. due_run step (due gen) st owed \<and> (\<forall>e. \<not> due gen (foldl step st owed) e)"
    by (rule due_run_settles [of ?good "due gen" step left]) (use next_step start in blast)+
  show "\<exists>c'. conns (foldl step st owed) (gen k) = Some c' \<and> received c' = received c \<and> all_answered (v3_answer J) c'"
    if run: "due_run step (due gen) st owed" and settled: "\<forall>e. \<not> due gen (foldl step st owed) e"
      and c: "conns st (gen k) = Some c" "\<not> cleared c"
  proof -
    from bound [OF run] have good: "same_clients st (foldl step st owed)"
      "v3_harmless_state P J gen junk (foldl step st owed)" by simp_all
    obtain c' where c': "conns (foldl step st owed) (gen k) = Some c'" "received c' = received c" "\<not> cleared c'"
      using same_clientsD [OF good(1) c(1)] c(2) by auto
    with draining_server.settled_caught_up [OF v3_draining_server [OF P]
        v3_harmless_sound(2) [OF P inj good(2)] settled c'(1)]
    show ?thesis by blast
  qed
qed

end
