(* ===== verification/Clients.thy ===== *)
theory Clients
  imports Msg_Node
begin

text \<open>
  The clients: \<open>Client/SyncClient.cpp\<close> for the echo server, \<open>json-Client/main.cpp\<close> and
  \<open>json-Client-multi-thread/main.cpp\<close> for the other two. Each builds a request in a local array and
  reads a reply into another; the text of a JSON request is a parameter (the JSON library produces it).
  A read from the socket takes bytes off the incoming stream: \<open>None\<close> while too few have arrived.
\<close>

definition CLIENT_MAX_LENGTH :: nat where
  "CLIENT_MAX_LENGTH = 2048"

text \<open>
  \<open>boost::asio::buffer(a, n)\<close> on an array is at most the whole array, so that \<open>boost::asio::read\<close> and
  \<open>boost::asio::write\<close> never leave it, whatever \<open>n\<close> is.
\<close>

definition socket_read :: "nat \<Rightarrow> size_t \<Rightarrow> byte list \<Rightarrow> (byte list \<times> byte list) option" where
  "socket_read cap n stream =
     (let k = min cap (unat n) in
      if length stream < k then None else Some (take k stream, drop k stream))"

definition array_write :: "byte list \<Rightarrow> size_t \<Rightarrow> byte list" where
  "array_write a n = take (unat n) a"

section \<open>The echo client\<close>

text \<open>A \<open>size_t\<close> in memory.\<close>

definition store_size :: "platform \<Rightarrow> size_t \<Rightarrow> byte list" where
  "store_size P w =
     (let bs = map (\<lambda>k. ucast (drop_bit (8 * k) w)) [0, 1, 2, 3, 4, 5, 6, 7] in
      case endianness P of Little_Endian \<Rightarrow> bs | Big_Endian \<Rightarrow> rev bs)"

definition sync_send_data :: "platform \<Rightarrow> byte list \<Rightarrow> fault + byte list" where
  "sync_send_data P request_message =
     (let request_length = word_of_nat (length request_message) :: size_t;
          send_data = replicate CLIENT_MAX_LENGTH 0
      in case memcpy send_data 0 (store_size P request_length) 0 2 of
        Inl f \<Rightarrow> Inl f
      | Inr d1 \<Rightarrow>
     (case memcpy d1 HEAD_LENGTH request_message 0 request_length of
        Inl f \<Rightarrow> Inl f
      | Inr d2 \<Rightarrow> Inr (array_write d2 (2 + request_length))))"

text \<open>
  \<open>std::cout.write(msg, msg_length)\<close> takes its bytes from the array without a bound; a negative count writes
  nothing.
\<close>

definition cout_write :: "byte list \<Rightarrow> short \<Rightarrow> fault + byte list" where
  "cout_write a msg_length =
     (if sint msg_length \<le> 0 then Inr [] else mem_read a 0 (size_of_int (sint msg_length)))"

text \<open>One turn of the receiving thread: what it prints, and the rest of the stream.\<close>

definition sync_receive :: "platform \<Rightarrow> byte list \<Rightarrow> (fault + byte list \<times> byte list) option" where
  "sync_receive P stream =
     (case socket_read 2 2 stream of
        None \<Rightarrow> None
      | Some (reply_head, stream1) \<Rightarrow>
          (let msg_length = load_short P (reply_head ! 0) (reply_head ! 1) in
           case socket_read CLIENT_MAX_LENGTH (size_of_int (sint msg_length)) stream1 of
             None \<Rightarrow> None
           | Some (bytes, stream2) \<Rightarrow>
               (case cout_write (bytes @ replicate (CLIENT_MAX_LENGTH - length bytes) 0) msg_length of
                  Inl f \<Rightarrow> Some (Inl f)
                | Inr out \<Rightarrow> Some (Inr (out, stream2)))))"

section \<open>The JSON clients\<close>

text \<open>
  The converted header fields are held in variables of type \<open>int\<close>, of which \<open>memcpy\<close> takes the first
  two bytes in memory.
\<close>

definition json_request :: "platform \<Rightarrow> byte list \<Rightarrow> fault + byte list" where
  "json_request P request =
     (let request_length = word_of_nat (length request) :: size_t;
          send_data = replicate CLIENT_MAX_LENGTH 0;
          msgid_host = ucast (host_to_network_short P (short_of_int MSG_HELLO_WORD)) :: 32 word;
          request_host_length = ucast (host_to_network_short P (ucast request_length)) :: 32 word
      in case memcpy send_data 0 (store_long P msgid_host) 0 2 of
        Inl f \<Rightarrow> Inl f
      | Inr d1 \<Rightarrow>
     (case memcpy d1 2 (store_long P request_host_length) 0 2 of
        Inl f \<Rightarrow> Inl f
      | Inr d2 \<Rightarrow>
     (case memcpy d2 4 request 0 request_length of
        Inl f \<Rightarrow> Inl f
      | Inr d3 \<Rightarrow> Inr (array_write d3 (request_length + 4)))))"

text \<open>\<open>memcpy(&msgid, reply_head, 2)\<close> into an \<open>int\<close> that is zero, read back as its low 16 bits.\<close>

definition load_int_low :: "platform \<Rightarrow> byte \<Rightarrow> byte \<Rightarrow> short" where
  "load_int_low P a b =
     (case endianness P of Little_Endian \<Rightarrow> short_of_bytes b a | Big_Endian \<Rightarrow> 0)"

text \<open>A reply: the id as the client sees it, the text, and the rest of the stream.\<close>

definition json_reply :: "platform \<Rightarrow> byte list \<Rightarrow> ((short \<times> byte list) \<times> byte list) option" where
  "json_reply P stream =
     (case socket_read 4 4 stream of
        None \<Rightarrow> None
      | Some (reply_head, stream1) \<Rightarrow>
          (let msgid = network_to_host_short P (load_int_low P (reply_head ! 0) (reply_head ! 1));
               msglen = network_to_host_short P (load_short P (reply_head ! 2) (reply_head ! 3))
           in case socket_read CLIENT_MAX_LENGTH (size_of_int (sint msglen)) stream1 of
                None \<Rightarrow> None
              | Some (msg, stream2) \<Rightarrow> Some ((msgid, msg), stream2)))"

text \<open>The replies that reading \<open>n\<close> times takes off a stream.\<close>

fun json_conversation :: "platform \<Rightarrow> nat \<Rightarrow> byte list \<Rightarrow> ((short \<times> byte list) list \<times> byte list) option" where
  "json_conversation P 0 stream = Some ([], stream)"
| "json_conversation P (Suc n) stream =
     (case json_reply P stream of
        None \<Rightarrow> None
      | Some (m, stream1) \<Rightarrow>
          (case json_conversation P n stream1 of
             None \<Rightarrow> None
           | Some (ms, stream2) \<Rightarrow> Some (m # ms, stream2)))"

section \<open>What they send and understand\<close>

lemma socket_read_exact:
  "unat n = length bs \<Longrightarrow> length bs \<le> cap \<Longrightarrow> socket_read cap n (bs @ rest) = Some (bs, rest)"
  by (simp add: socket_read_def)

lemma store_int_low:
  "endianness P = Little_Endian \<Longrightarrow> take 2 (store_long P (ucast (w :: short))) = store_short P w"
proof -
  have "byte_of_long 0 (ucast w) = low_byte w" "byte_of_long (Suc 0) (ucast w) = high_byte w"
    by (rule bit_word_eqI; auto simp: byte_of_long_def low_byte_def high_byte_def bit_simps)+
  then show "endianness P = Little_Endian \<Longrightarrow> take 2 (store_long P (ucast w)) = store_short P w"
    by (simp add: store_long_def store_short_def)
qed

lemma store_int_low_big:
  "endianness P = Big_Endian \<Longrightarrow> take 2 (store_long P (ucast (w :: short))) = [0, 0]"
proof -
  have "byte_of_long 3 (ucast w) = 0" "byte_of_long 2 (ucast w) = 0"
    by (rule bit_word_eqI; auto simp: byte_of_long_def bit_simps dest: bit_imp_le_length)+
  then show "endianness P = Big_Endian \<Longrightarrow> take 2 (store_long P (ucast w)) = [0, 0]"
    by (simp add: store_long_def)
qed

lemma store_size_low:
  "endianness P = Little_Endian \<Longrightarrow> take 2 (store_size P w) = [low_byte (ucast w), high_byte (ucast w)]"
proof -
  have "ucast w = low_byte (ucast w)" "ucast (drop_bit 8 w) = high_byte (ucast w)"
    by (rule bit_word_eqI; auto simp: low_byte_def high_byte_def bit_simps)+
  then show "endianness P = Little_Endian \<Longrightarrow> take 2 (store_size P w) = [low_byte (ucast w), high_byte (ucast w)]"
    by (simp add: store_size_def)
qed

lemma length_store_size [simp]: "length (store_size P w) = 8"
  by (simp add: store_size_def Let_def split: endian.split)

text \<open>Two bytes, or the text, into the array of zeros.\<close>

lemma memcpy_two:
  "length xs = k \<Longrightarrow> 2 \<le> length bs \<Longrightarrow> 2 \<le> n \<Longrightarrow>
     memcpy (xs @ replicate n 0) (int k) bs 0 2 = Inr (xs @ take 2 bs @ replicate (n - 2) 0)"
  by (simp add: memcpy_ok)

lemma memcpy_text:
  assumes "length xs = k" "length msg \<le> n" "length msg < 2 ^ 63"
  shows "memcpy (xs @ replicate n 0) (int k) msg 0 (word_of_nat (length msg)) =
    Inr (xs @ msg @ replicate (n - length msg) 0)"
proof -
  have "unat (word_of_nat (length msg) :: size_t) = length msg" using assms(3) by (simp add: unat_of_nat)
  with assms show ?thesis by (simp add: memcpy_ok)
qed

lemma array_write_prefix: "unat n = length xs \<Longrightarrow> array_write (xs @ ys) n = xs"
  by (simp add: array_write_def)

text \<open>The echo client's header is the length in host order.\<close>

lemma sync_send_data_ok:
  assumes le: "endianness P = Little_Endian" and len: "length msg \<le> 2046"
  shows "sync_send_data P msg =
    Inr ([low_byte (word_of_nat (length msg)), high_byte (word_of_nat (length msg))] @ msg)"
proof -
  let ?n = "word_of_nat (length msg) :: size_t" and ?w = "word_of_nat (length msg) :: short"
  have cap: "CLIENT_MAX_LENGTH = 2048" by (simp add: CLIENT_MAX_LENGTH_def)
  have w: "(ucast ?n :: short) = ?w"
    by (rule bit_word_eqI) (simp add: bit_simps)
  have u: "unat (2 + ?n) = length ([low_byte ?w, high_byte ?w] @ msg)"
    using len by (simp add: unat_word_ariths unat_of_nat)
  have 1: "memcpy (replicate CLIENT_MAX_LENGTH 0) 0 (store_size P ?n) 0 2 =
      Inr ([low_byte ?w, high_byte ?w] @ replicate (CLIENT_MAX_LENGTH - 2) 0)"
    using memcpy_two [of "[]" 0 "store_size P ?n" CLIENT_MAX_LENGTH] store_size_low [OF le, of ?n]
    by (simp add: cap w)
  have 2: "memcpy ([low_byte ?w, high_byte ?w] @ replicate (CLIENT_MAX_LENGTH - 2) 0) HEAD_LENGTH msg 0 ?n =
      Inr ([low_byte ?w, high_byte ?w] @ msg @ replicate (CLIENT_MAX_LENGTH - 2 - length msg) 0)"
    using memcpy_text [of "[low_byte ?w, high_byte ?w]" 2 msg "CLIENT_MAX_LENGTH - 2"] len by (simp add: cap)
  have "array_write (([low_byte ?w, high_byte ?w] @ msg) @ replicate (CLIENT_MAX_LENGTH - 2 - length msg) 0) (2 + ?n) =
      [low_byte ?w, high_byte ?w] @ msg"
    using u by (rule array_write_prefix)
  then show ?thesis unfolding sync_send_data_def Let_def 1 sum.case 2 by simp
qed

text \<open>The JSON clients send the servers' frame, on a little-endian host; elsewhere the header is zero.\<close>

lemma json_request_head:
  assumes len: "length text_bytes \<le> 2044"
    and id: "take 2 (store_long P (ucast (host_to_network_short P (short_of_int MSG_HELLO_WORD)))) = [a, b]"
    and ln: "take 2 (store_long P (ucast (host_to_network_short P (word_of_nat (length text_bytes))))) = [c, d]"
  shows "json_request P text_bytes = Inr ([a, b, c, d] @ text_bytes)"
proof -
  let ?n = "word_of_nat (length text_bytes) :: size_t"
  have cap: "CLIENT_MAX_LENGTH = 2048" by (simp add: CLIENT_MAX_LENGTH_def)
  have w: "(ucast ?n :: short) = word_of_nat (length text_bytes)"
    by (rule bit_word_eqI) (simp add: bit_simps)
  have u: "unat (?n + 4) = length ([a, b, c, d] @ text_bytes)"
    using len by (simp add: unat_word_ariths unat_of_nat)
  have 1: "memcpy (replicate CLIENT_MAX_LENGTH 0) 0
      (store_long P (ucast (host_to_network_short P (short_of_int MSG_HELLO_WORD)))) 0 2 =
      Inr ([a, b] @ replicate (CLIENT_MAX_LENGTH - 2) 0)"
    using memcpy_two [of "[]" 0 _ CLIENT_MAX_LENGTH] id by (simp add: cap)
  have 2: "memcpy ([a, b] @ replicate (CLIENT_MAX_LENGTH - 2) 0) 2
      (store_long P (ucast (host_to_network_short P (word_of_nat (length text_bytes))))) 0 2 =
      Inr ([a, b, c, d] @ replicate (CLIENT_MAX_LENGTH - 4) 0)"
    using memcpy_two [of "[a, b]" 2 _ "CLIENT_MAX_LENGTH - 2"] ln by (simp add: cap)
  have 3: "memcpy ([a, b, c, d] @ replicate (CLIENT_MAX_LENGTH - 4) 0) 4 text_bytes 0 ?n =
      Inr ([a, b, c, d] @ text_bytes @ replicate (CLIENT_MAX_LENGTH - 4 - length text_bytes) 0)"
    using memcpy_text [of "[a, b, c, d]" 4 text_bytes "CLIENT_MAX_LENGTH - 4"] len by (simp add: cap)
  have "array_write (([a, b, c, d] @ text_bytes) @ replicate (CLIENT_MAX_LENGTH - 4 - length text_bytes) 0) (?n + 4) =
      [a, b, c, d] @ text_bytes"
    using u by (rule array_write_prefix)
  then show ?thesis unfolding json_request_def Let_def w 1 sum.case 2 3 by simp
qed

lemma json_request_frame:
  assumes P: "network_order P" "endianness P = Little_Endian" and len: "length request \<le> 2044"
  shows "json_request P request = Inr (frame (short_of_int MSG_HELLO_WORD) request)"
  using json_request_head [OF len, of P] network_order.to_network [OF P(1)]
  by (simp add: store_int_low [OF P(2)] frame_def short_of_int_def)

text \<open>A reply in the servers' frame is understood.\<close>

lemma json_reply_frame:
  assumes P: "network_order P" "endianness P = Little_Endian" and len: "length body \<le> 2048"
  shows "json_reply P (frame msg_id body @ rest) = Some ((msg_id, body), rest)"
proof -
  let ?w = "short_of_int (int (length body))"
  have sw: "sint ?w = int (length body)" using len by (intro sint_short_of_int) auto
  have h: "socket_read 4 4 ([high_byte msg_id, low_byte msg_id, high_byte ?w, low_byte ?w] @ body @ rest) =
      Some ([high_byte msg_id, low_byte msg_id, high_byte ?w, low_byte ?w], body @ rest)"
    by (rule socket_read_exact) auto
  have id: "network_to_host_short P (load_int_low P (high_byte msg_id) (low_byte msg_id)) = msg_id"
    using network_order.to_host [OF P(1), of "high_byte msg_id" "low_byte msg_id"] P(2)
    by (simp add: load_int_low_def load_short_def)
  have ln: "network_to_host_short P (load_short P (high_byte ?w) (low_byte ?w)) = ?w"
    using network_order.to_host [OF P(1)] by simp
  have b: "socket_read CLIENT_MAX_LENGTH (size_of_int (sint ?w)) (body @ rest) = Some (body, rest)"
    using len by (intro socket_read_exact) (simp_all add: sw unat_size_of_int CLIENT_MAX_LENGTH_def)
  show ?thesis unfolding frame_def append_assoc json_reply_def h
    by (simp add: Let_def id ln b)
qed

lemma json_conversation_frames:
  assumes P: "network_order P" "endianness P = Little_Endian" and len: "\<forall>m\<in>set ms. length (snd m) \<le> 2048"
  shows "json_conversation P (length ms) (concat (map (\<lambda>m. frame (fst m) (snd m)) ms) @ rest) = Some (ms, rest)"
  using len
proof (induction ms)
  case (Cons m ms)
  then show ?case by (cases m) (simp add: json_reply_frame [OF P])
qed simp

end
