(* ===== verification/Client_Threads.thy ===== *)
theory Client_Threads
  imports Clients V3_Logic Lifecycle
begin

text \<open>
  The clients as processes. \<open>json_client\<close> is the \<open>try\<close> block that a thread of \<open>json-Client\<close> and the
  \<open>main\<close> of \<open>json-Client-multi-thread\<close> share, with the number of its turns (100 and 1) as the argument
  \<open>turns\<close> and the value it builds (\<open>root\<close>) as a parameter of the JSON library's type; \<open>sync_client\<close> is
  \<open>SyncClient.cpp\<close> with its sending and its receiving thread. The network is a list of events: whether
  the connection is made, bytes that arrive, calls that complete or fail.
\<close>

section \<open>The JSON clients\<close>

text \<open>How the block is left: by \<open>return 0\<close> after a failed \<open>connect\<close>, after the last turn, or by an exception.\<close>

datatype client_exit = Not_Connected | Turns_Done | Caught fault

datatype client_at = Connecting | Requesting | Awaiting | Gone client_exit | Undefined fault

record 'j json_client =
  jc_at :: client_at
  jc_turn :: nat                       \<comment> \<open>\<open>i\<close>\<close>
  jc_sent :: "byte list"               \<comment> \<open>every byte written to the socket\<close>
  jc_unread :: "byte list"             \<comment> \<open>bytes that have arrived and were not read\<close>
  jc_shown :: "('j \<times> 'j) list"         \<comment> \<open>the members printed, per turn\<close>

definition json_client_start :: "'j json_client" where
  "json_client_start = \<lparr>jc_at = Connecting, jc_turn = 0, jc_sent = [], jc_unread = [], jc_shown = []\<rparr>"

datatype client_event =
    Connect_Done bool         \<comment> \<open>\<open>connect\<close>, and whether it set an error\<close>
  | Write_Done                \<comment> \<open>a turn up to the return of \<open>boost::asio::write\<close>\<close>
  | Write_Broken nat          \<comment> \<open>the write throws after some bytes\<close>
  | Arrived "byte list"
  | Read_Done                 \<comment> \<open>the rest of a turn, once the reply has arrived\<close>
  | Read_Broken               \<comment> \<open>a read throws\<close>

text \<open>An exception is caught at the end of the block; a fault of another kind is not.\<close>

definition client_throw :: "fault \<Rightarrow> client_at" where
  "client_throw f = (if is_exception f then Gone (Caught f) else Undefined f)"

text \<open>\<open>reader.parse(\<dots>, root)\<close> and the two members that are printed.\<close>

definition json_show :: "'j json \<Rightarrow> 'j \<Rightarrow> byte list \<Rightarrow> fault + 'j \<times> 'j" where
  "json_show J root msg =
     (case json_parse J msg root of
        Inl f \<Rightarrow> Inl f
      | Inr root1 \<Rightarrow>
          (case json_at J root1 ''id'' of
             Inl f \<Rightarrow> Inl f
           | Inr (root2, i) \<Rightarrow> (case json_at J root2 ''data'' of Inl f \<Rightarrow> Inl f | Inr (_, d) \<Rightarrow> Inr (i, d))))"

text \<open>The test of the loop: the next turn, or the end of the block.\<close>

definition next_turn :: "nat \<Rightarrow> nat \<Rightarrow> client_at" where
  "next_turn turns i = (if i < turns then Requesting else Gone Turns_Done)"

definition json_client_read :: "platform \<Rightarrow> 'j json \<Rightarrow> 'j \<Rightarrow> nat \<Rightarrow> 'j json_client \<Rightarrow> 'j json_client" where
  "json_client_read P J root turns c =
     (case json_reply P (jc_unread c) of
        None \<Rightarrow> c
      | Some ((_, msg), rest) \<Rightarrow>
          (case json_show J root msg of
             Inl f \<Rightarrow> c\<lparr>jc_unread := rest, jc_at := client_throw f\<rparr>
           | Inr shown \<Rightarrow> c\<lparr>jc_unread := rest, jc_shown := jc_shown c @ [shown], jc_turn := jc_turn c + 1,
               jc_at := next_turn turns (jc_turn c + 1)\<rparr>))"

definition json_client_event ::
  "platform \<Rightarrow> 'j json \<Rightarrow> 'j \<Rightarrow> nat \<Rightarrow> 'j json_client \<Rightarrow> client_event \<Rightarrow> 'j json_client" where
  "json_client_event P J root turns c e =
     (case e of
        Connect_Done error \<Rightarrow>
          if jc_at c = Connecting
          then c\<lparr>jc_at := (if error then Gone Not_Connected else next_turn turns 0)\<rparr> else c
      | Write_Done \<Rightarrow>
          if jc_at c = Requesting
          then (case json_request P (json_styled J root) of
                  Inl f \<Rightarrow> c\<lparr>jc_at := client_throw f\<rparr>
                | Inr bytes \<Rightarrow> c\<lparr>jc_sent := jc_sent c @ bytes, jc_at := Awaiting\<rparr>)
          else c
      | Write_Broken k \<Rightarrow>
          if jc_at c = Requesting
          then (case json_request P (json_styled J root) of
                  Inl f \<Rightarrow> c\<lparr>jc_at := client_throw f\<rparr>
                | Inr bytes \<Rightarrow> c\<lparr>jc_sent := jc_sent c @ take k bytes, jc_at := client_throw System_Exception\<rparr>)
          else c
      | Arrived bytes \<Rightarrow> if jc_at c = Connecting then c else c\<lparr>jc_unread := jc_unread c @ bytes\<rparr>
      | Read_Done \<Rightarrow> if jc_at c = Awaiting then json_client_read P J root turns c else c
      | Read_Broken \<Rightarrow> if jc_at c = Awaiting then c\<lparr>jc_at := client_throw System_Exception\<rparr> else c)"

definition json_client_run ::
  "platform \<Rightarrow> 'j json \<Rightarrow> 'j \<Rightarrow> nat \<Rightarrow> client_event list \<Rightarrow> 'j json_client" where
  "json_client_run P J root turns es = foldl (json_client_event P J root turns) json_client_start es"

text \<open>
  What leaving the block means. The lambda of \<open>json-Client\<close> returns \<open>int\<close> by its \<open>return 0\<close>, but after the
  block it reaches its end without a value; \<open>main\<close> of the other client goes on to \<open>return 0\<close>.
\<close>

fun json_thread_value :: "client_exit \<Rightarrow> fault + int" where
  "json_thread_value Not_Connected = Inr 0"
| "json_thread_value Turns_Done = Inl Missing_Return"
| "json_thread_value (Caught f) = Inl Missing_Return"

definition json_main_value :: "client_exit \<Rightarrow> fault + int" where
  "json_main_value x = Inr 0"

definition client_fault :: "'j json_client \<Rightarrow> fault option" where
  "client_fault c =
     (case jc_at c of
        Undefined f \<Rightarrow> Some f
      | Gone x \<Rightarrow> (case json_thread_value x of Inl f \<Rightarrow> Some f | Inr _ \<Rightarrow> None)
      | _ \<Rightarrow> None)"

fun is_gone :: "client_at \<Rightarrow> bool" where
  "is_gone (Gone x) = True"
| "is_gone _ = False"

text \<open>
  \<open>main\<close> of \<open>json-Client\<close> joins the threads and returns 0; undefined behaviour in one of them is its own.
  \<open>None\<close> while a thread it joins runs.
\<close>

definition join_all :: "'j json_client list \<Rightarrow> (fault + int) option" where
  "join_all cs =
     (case find (\<lambda>c. client_fault c \<noteq> None) cs of
        Some c \<Rightarrow> map_option Inl (client_fault c)
      | None \<Rightarrow> if list_all (\<lambda>c. is_gone (jc_at c)) cs then Some (Inr 0) else None)"

definition JSON_CLIENT_THREADS :: nat where
  "JSON_CLIENT_THREADS = 10"

definition JSON_CLIENT_TURNS :: nat where
  "JSON_CLIENT_TURNS = 100"

text \<open>
  A client is in lockstep: it has written one frame per turn finished, and one more exactly while it
  awaits a reply; it has printed one reply per turn.
\<close>

definition lockstep :: "platform \<Rightarrow> byte list \<Rightarrow> nat \<Rightarrow> 'j json_client \<Rightarrow> bool" where
  "lockstep P request turns c \<longleftrightarrow>
     length (jc_shown c) = jc_turn c \<and> jc_turn c \<le> turns \<and>
     (case jc_at c of
        Connecting \<Rightarrow> jc_sent c = [] \<and> jc_turn c = 0
      | Requesting \<Rightarrow> jc_sent c = concat (replicate (jc_turn c) request) \<and> jc_turn c < turns
      | Awaiting \<Rightarrow> jc_sent c = concat (replicate (jc_turn c + 1) request) \<and> jc_turn c < turns
      | Gone Not_Connected \<Rightarrow> jc_sent c = [] \<and> jc_turn c = 0
      | Gone Turns_Done \<Rightarrow> jc_turn c = turns \<and> jc_sent c = concat (replicate turns request)
      | Gone (Caught f) \<Rightarrow> is_exception f \<and>
          (\<exists>k\<le>length request. jc_sent c = concat (replicate (jc_turn c) request) @ take k request)
      | Undefined f \<Rightarrow> \<not> is_exception f)"

lemma lockstep_start: "lockstep P request turns json_client_start"
  by (simp add: lockstep_def json_client_start_def)

lemma concat_replicate_Suc: "concat (replicate (Suc n) xs) = concat (replicate n xs) @ xs"
  by (induction n) simp_all

lemma concat_last_turn:
  "\<not> Suc n < turns \<Longrightarrow> n < turns \<Longrightarrow> concat (replicate turns xs) = concat (replicate n xs) @ xs"
proof -
  assume "\<not> Suc n < turns" "n < turns"
  then have "turns = Suc n" by simp
  then show ?thesis by (simp only: concat_replicate_Suc)
qed

lemma lockstep_read:
  assumes "lockstep P request turns c" "jc_at c = Awaiting"
  shows "lockstep P request turns (json_client_read P J root turns c)"
  using assms
  by (auto simp: lockstep_def json_client_read_def client_throw_def next_turn_def concat_replicate_Suc concat_last_turn
      simp del: replicate_Suc split: option.split sum.split intro!: exI [of _ "length request"])

lemma lockstep_event:
  assumes ok: "lockstep P bytes turns c" and request: "json_request P (json_styled J root) = Inr bytes"
  shows "lockstep P bytes turns (json_client_event P J root turns c e)"
proof (cases e)
  case Read_Done
  with ok lockstep_read [OF ok] show ?thesis by (simp add: json_client_event_def)
next
  case (Write_Broken k)
  with ok request show ?thesis
    by (auto simp: json_client_event_def lockstep_def client_throw_def
        intro!: exI [of _ "min k (length bytes)"] simp: min_def)
next
  case Read_Broken
  with ok show ?thesis
    by (auto simp: json_client_event_def lockstep_def client_throw_def concat_replicate_Suc
        simp del: replicate_Suc intro!: exI [of _ "length bytes"])
qed (use ok request in \<open>auto simp: json_client_event_def lockstep_def next_turn_def concat_replicate_Suc
    simp del: replicate_Suc split: client_at.splits client_exit.splits\<close>)

lemma lockstep_run:
  assumes "json_request P (json_styled J root) = Inr bytes"
  shows "lockstep P bytes turns (json_client_run P J root turns es)"
  unfolding json_client_run_def
proof (induction es rule: rev_induct)
  case (snoc e es)
  then show ?case by (simp add: lockstep_event assms)
qed (simp add: lockstep_start)

text \<open>Joining gives a value only if none of the threads was connected.\<close>

lemma no_client_fault: "client_fault c = None \<and> is_gone (jc_at c) \<longleftrightarrow> jc_at c = Gone Not_Connected"
proof (cases "jc_at c")
  case (Gone x)
  then show ?thesis by (cases x) (simp_all add: client_fault_def)
qed (simp_all add: client_fault_def)

lemma join_all_value:
  "join_all cs = Some (Inr v) \<longleftrightarrow> v = 0 \<and> (\<forall>c\<in>set cs. jc_at c = Gone Not_Connected)"
proof (cases "find (\<lambda>c. client_fault c \<noteq> None) cs")
  case None
  then have "\<forall>c\<in>set cs. client_fault c = None" by (simp add: find_None_iff)
  with None no_client_fault show ?thesis by (auto simp: join_all_def list_all_iff)
next
  case (Some c)
  then have "c \<in> set cs" "client_fault c \<noteq> None" by (auto simp: find_Some_iff)
  with Some no_client_fault [of c] show ?thesis by (auto simp: join_all_def)
qed

text \<open>Whether a thread was connected is decided by the first \<open>connect\<close> among its events.\<close>

fun connect_error :: "client_event list \<Rightarrow> bool option" where
  "connect_error [] = None"
| "connect_error (Connect_Done error # es) = Some error"
| "connect_error (_ # es) = connect_error es"

lemma connect_error_append:
  "connect_error (es @ fs) = (case connect_error es of None \<Rightarrow> connect_error fs | Some b \<Rightarrow> Some b)"
  by (induction es rule: connect_error.induct) simp_all

lemma json_client_connected:
  "case connect_error es of
     None \<Rightarrow> jc_at (json_client_run P J root turns es) = Connecting
   | Some error \<Rightarrow> jc_at (json_client_run P J root turns es) \<noteq> Connecting \<and>
       (error \<longleftrightarrow> jc_at (json_client_run P J root turns es) = Gone Not_Connected)"
proof (induction es rule: rev_induct)
  case Nil
  show ?case by (simp add: json_client_run_def json_client_start_def)
next
  case (snoc e es)
  then show ?case
    by (cases e) (auto simp: connect_error_append json_client_run_def json_client_event_def json_client_read_def
        next_turn_def client_throw_def split: option.splits sum.splits prod.splits if_splits)
qed

lemma json_not_connected:
  "jc_at (json_client_run P J root turns es) = Gone Not_Connected \<longleftrightarrow> connect_error es = Some True"
  using json_client_connected [where es = es and P = P and J = J and root = root and turns = turns] by (auto split: option.splits)

section \<open>The echo client\<close>

text \<open>
  The two threads loop for ever. Neither catches, so that a read or write that throws ends the process by
  \<open>std::terminate\<close>; the \<open>try\<close> of \<open>main\<close> does not see it.
\<close>

record sync_client =
  sc_connected :: bool
  sc_sent :: "byte list"
  sc_unread :: "byte list"
  sc_printed :: "byte list list"
  sc_ended :: "process_end option"

definition sync_client_start :: sync_client where
  "sync_client_start = \<lparr>sc_connected = False, sc_sent = [], sc_unread = [], sc_printed = [], sc_ended = None\<rparr>"

definition sync_greeting :: "byte list" where
  "sync_greeting = bytes_of ''Hellow world !''"

definition sync_client_event :: "platform \<Rightarrow> sync_client \<Rightarrow> client_event \<Rightarrow> sync_client" where
  "sync_client_event P c e =
     (if sc_ended c \<noteq> None then c
      else case e of
        Connect_Done error \<Rightarrow>
          if sc_connected c then c
          else if error then c\<lparr>sc_ended := Some Exited\<rparr> else c\<lparr>sc_connected := True\<rparr>
      | Write_Done \<Rightarrow>
          if sc_connected c
          then (case sync_send_data P sync_greeting of
                  Inl f \<Rightarrow> c\<lparr>sc_ended := Some (Terminated_By f)\<rparr>
                | Inr bytes \<Rightarrow> c\<lparr>sc_sent := sc_sent c @ bytes\<rparr>)
          else c
      | Write_Broken k \<Rightarrow>
          if sc_connected c
          then (case sync_send_data P sync_greeting of
                  Inl f \<Rightarrow> c\<lparr>sc_ended := Some (Terminated_By f)\<rparr>
                | Inr bytes \<Rightarrow> c\<lparr>sc_sent := sc_sent c @ take k bytes, sc_ended := Some (Terminated_By System_Exception)\<rparr>)
          else c
      | Arrived bytes \<Rightarrow> if sc_connected c then c\<lparr>sc_unread := sc_unread c @ bytes\<rparr> else c
      | Read_Done \<Rightarrow>
          if sc_connected c
          then (case sync_receive P (sc_unread c) of
                  None \<Rightarrow> c
                | Some (Inl f) \<Rightarrow> c\<lparr>sc_ended := Some (Terminated_By f)\<rparr>
                | Some (Inr (out, rest)) \<Rightarrow> c\<lparr>sc_unread := rest, sc_printed := sc_printed c @ [out]\<rparr>)
          else c
      | Read_Broken \<Rightarrow> if sc_connected c then c\<lparr>sc_ended := Some (Terminated_By System_Exception)\<rparr> else c)"

definition sync_client_run :: "platform \<Rightarrow> client_event list \<Rightarrow> sync_client" where
  "sync_client_run P es = foldl (sync_client_event P) sync_client_start es"

text \<open>It has sent copies of one request, the last perhaps cut; once connected it never ends in order.\<close>

definition sync_client_ok :: "byte list \<Rightarrow> sync_client \<Rightarrow> bool" where
  "sync_client_ok request c \<longleftrightarrow>
     (\<exists>n k. sc_sent c = concat (replicate n request) @ take k request \<and> (sc_ended c = None \<longrightarrow> k = 0)) \<and>
     (sc_connected c \<longrightarrow> sc_ended c \<noteq> Some Exited) \<and> (\<not> sc_connected c \<longrightarrow> sc_sent c = []) \<and>
     sc_ended c \<noteq> Some Killed"

lemma sync_client_event_ok:
  assumes ok: "sync_client_ok request c" and request: "sync_send_data P sync_greeting = Inr request"
  shows "sync_client_ok request (sync_client_event P c e)"
proof (cases "sc_ended c = None")
  case True
  with ok obtain n where n: "sc_sent c = concat (replicate n request)" "sc_connected c \<or> sc_sent c = []"
    by (auto simp: sync_client_ok_def)
  have more: "concat (replicate n request) @ request = concat (replicate (Suc n) request) @ take 0 request"
    unfolding concat_replicate_Suc by simp
  from True n request more show ?thesis
    by (cases e)
      (auto simp: sync_client_event_def sync_client_ok_def simp del: replicate_Suc split: option.split sum.split
        intro: exI [of _ n] exI [of _ 0] exI [of _ "Suc n"])
qed (simp add: ok sync_client_event_def)

lemma sync_client_run_ok:
  assumes "sync_send_data P sync_greeting = Inr request"
  shows "sync_client_ok request (sync_client_run P es)"
  unfolding sync_client_run_def
proof (induction es rule: rev_induct)
  case (snoc e es)
  then show ?case by (simp add: sync_client_event_ok assms)
next
  case Nil
  have "concat (replicate 0 request) @ take 0 request = []" by simp
  then show ?case by (auto simp: sync_client_ok_def sync_client_start_def intro: exI [of _ 0])
qed

end
