(* ===== verification/Round_Trip.thy ===== *)
theory Round_Trip
  imports V3_Uptime Client_Threads
begin

text \<open>
  A JSON client and \<open>Server-version-3\<close> together. One round is a request that arrives, the push of its
  message, a turn of the worker and the completion of the write; it takes an idle connection to an idle
  connection with one reply more. The client needs exactly these rounds to go through its turns.
\<close>

section \<open>One round of the server\<close>

definition idle_conn :: "(nat \<Rightarrow> string) \<Rightarrow> nat \<Rightarrow> server service \<Rightarrow> v3_endpoint \<Rightarrow> bool" where
  "idle_conn gen k st c \<longleftrightarrow> down st = None \<and> conns st (gen k) = Some c \<and> v3_ep_ok (gen k) c \<and>
     read_pending c \<and> \<not> cleared c \<and> v3_queue (ep_sess c) = [] \<and>
     logic_que st = [] \<and> handed st (gen k) = length (inbox c)"

definition v3_round :: "nat \<Rightarrow> byte list \<Rightarrow> service_event list" where
  "v3_round k bytes = [On k (Got bytes), Push k, Work, On k Wrote]"

text \<open>The four steps, on the endpoint.\<close>

lemma receive_one:
  assumes P: "network_order P" and c: "v3_ep_ok u c" "read_pending c" "v3_queue (ep_sess c) = []"
    and at_head: "fst (v3_spec (Head []) (received c)) = Head []"
    and bytes: "chunk_ok bytes" "v3_spec (Head []) bytes = (Head [], [m])"
  shows "\<exists>c1 nd. v3_event P c (Got bytes) = c1 \<and> ended c1 = None \<and> v3_ep_ok u c1 \<and> read_pending c1 \<and>
    (cleared c1 \<longleftrightarrow> cleared c) \<and> v3_queue (ep_sess c1) = [] \<and> on_tcp c1 = on_tcp c \<and>
    received c1 = received c @ bytes \<and> inbox c1 = inbox c @ [nd] \<and> ln_session nd = u \<and> msg_of nd = m"
proof -
  note contract = v3_session_contract [OF P, of u]
  have s: "v3_send_inv (ep_sess c)" "uuid (ep_sess c) = u \<and> v3_inv (ep_sess c)" "v3_abs (ep_sess c) = Head []"
    using c(1,2) at_head by (simp_all add: v3_ep.ep_ok_def v3_ep.stream_of_def)
  from session_contract.read_step [OF contract s(1,2) bytes(1), of "Head []" "[m]"] s(3) bytes(2)
  obtain es s' where es: "v3_rd P bytes (ep_sess c) = (es, Returned s')" "reads es = 1" "\<not> clears es"
    "map ln_view (posted es) = [(u, m)]" "(v3_queue s', written es) = ([], [])"
    using c(3) by auto
  obtain nd where nd: "posted es = [nd]" "ln_view nd = (u, m)" using es(4) by auto
  let ?c1 = "v3_event P c (Got bytes)"
  have c1: "?c1 = finish_call (c\<lparr>read_pending := False, received := received c @ bytes\<rparr>) (es, Returned s')"
    using c(2) es(1) by (simp add: v3_event_def)
  have "ended c = None" using c(1) by (simp add: v3_ep.ep_ok_def)
  then have up: "ended ?c1 = None" unfolding c1 by simp
  then have "v3_ep_ok u ?c1"
    using session_contract.event_step(1) [OF contract c(1), of "Got bytes"] bytes(1) by (simp add: v3_event_def)
  moreover have "ep_sess ?c1 = s'" unfolding c1 by simp
  moreover have "ln_session nd = u" "msg_of nd = m" using nd(2) by (simp_all add: ln_view_msg_of)
  moreover have "read_pending ?c1" "cleared ?c1 \<longleftrightarrow> cleared c" "on_tcp ?c1 = on_tcp c"
    "received ?c1 = received c @ bytes" "inbox ?c1 = inbox c @ [nd]"
    unfolding c1 finish_call_frame using es nd by simp_all
  ultimately show ?thesis using up es(5) by blast
qed

lemma answer_one:
  assumes P: "network_order P" and c: "v3_ep_ok u c" "\<not> cleared c" "v3_queue (ep_sess c) = []"
    and m: "msg_of nd = (short_of_int MSG_HELLO_WORD, body)"
    and reply: "v3_hello_reply J body = Inr (reply, i)" "length reply \<le> 2048"
  shows "\<exists>es s. v3_deal P J nd (ep_sess c) = (es, Returned s) \<and> (\<exists>c2. c2 = finish_call c (es, Returned s) \<and>
    v3_ep_ok u c2 \<and> inbox c2 = inbox c \<and> received c2 = received c \<and> on_tcp c2 = on_tcp c \<and>
    \<not> cleared c2 \<and> (read_pending c \<longrightarrow> read_pending c2) \<and> v3_queue (ep_sess c2) = [frame i reply])"
proof -
  note server = v3_request_server [OF P, of J]
  have que: "send_que (ep_sess c) = []" using c(3) by (simp add: v3_queue_def)
  obtain s where "v3_Send_string P reply i (ep_sess c) = ([Async_Write (frame i reply)], Returned s)"
    using send_string_idle [OF P reply(2) que] by blast
  then have deal: "v3_deal P J nd (ep_sess c) = ([Async_Write (frame i reply)], Returned s)"
    using m reply(1) by (simp add: v3_deal_def v3_deal_front_def v3_RegisterCallBacks_def v3_HelloWorldCallBack_def
        msg_of_def Let_def)
  let ?c2 = "finish_call c ([Async_Write (frame i reply)], Returned s)"
  have ok: "v3_ep_ok u ?c2" "inbox ?c2 = inbox c" "v3_backlog ?c2 = v3_backlog c @ [frame i reply]"
    using request_server.deal_ok [OF server c(1) deal] c(3) m reply by (simp_all add: v3_answer_def)
  have "on_tcp ?c2 = on_tcp c" by (rule finish_call_frame)
  with ok(3) c(3) have "v3_queue (ep_sess ?c2) = [frame i reply]"
    by (simp add: v3_backlog_def del: finish_call.simps)
  with deal ok(1,2) c(2) show ?thesis
    by (intro exI [of _ "[Async_Write (frame i reply)]"] exI [of _ s]) (auto simp del: finish_call.simps)
qed

lemma write_one:
  assumes P: "network_order P" and c: "v3_ep_ok u c" "\<not> cleared c" "v3_queue (ep_sess c) = [bs]"
  shows "\<exists>c3. v3_event P c Wrote = c3 \<and> ended c3 = None \<and> v3_ep_ok u c3 \<and> \<not> cleared c3 \<and>
    (read_pending c \<longrightarrow> read_pending c3) \<and>
    v3_queue (ep_sess c3) = [] \<and> on_tcp c3 = on_tcp c @ [bs] \<and> received c3 = received c \<and> inbox c3 = inbox c"
proof -
  note contract = v3_session_contract [OF P, of u]
  have "write_pending c = Some bs"
    using c by (auto simp: v3_ep.ep_ok_def split: option.splits)
  moreover obtain es s' where es: "v3_HandleWrite False (ep_sess c) = (es, Returned s')"
    using write_queue.write_done [OF v3_write_queue [OF P], of "ep_sess c" bs "[]"] c by (auto simp: v3_ep.ep_ok_def)
  ultimately have c3: "v3_event P c Wrote =
      finish_call (c\<lparr>write_pending := None, on_tcp := on_tcp c @ [bs]\<rparr>) (es, Returned s')"
    by (simp add: v3_event_def del: finish_call.simps)
  have "ended c = None" using c(1) by (simp add: v3_ep.ep_ok_def)
  then have up: "ended (v3_event P c Wrote) = None" unfolding c3 by simp
  have ok: "v3_ep_ok u (v3_event P c Wrote)" "v3_backlog (v3_event P c Wrote) = v3_backlog c"
    "received (v3_event P c Wrote) = received c"
    using session_contract.other_step [OF contract c(1), of Wrote] by (simp_all add: v3_event_def v3_ep_views [symmetric])
  have only: "reads es = 0" "\<not> clears es" "posted es = []" using v3_HandleWrite_only [OF es] by simp_all
  then have frame: "on_tcp (v3_event P c Wrote) = on_tcp c @ [bs]" "inbox (v3_event P c Wrote) = inbox c"
    "cleared (v3_event P c Wrote) = cleared c" "read_pending (v3_event P c Wrote) = read_pending c"
    unfolding c3 finish_call_frame by simp_all
  with ok(2) c(3) have "v3_queue (ep_sess (v3_event P c Wrote)) = []" by (simp add: v3_backlog_def)
  with up ok frame c(2) show ?thesis by blast
qed

text \<open>A completion that leaves the session uncleared only exchanges its endpoint.\<close>

lemma v3_serve_on:
  assumes "down st = None" "conns st (gen k) = Some c" "ended (v3_event P c ne) = None" "\<not> cleared (v3_event P c ne)"
  shows "v3_serve P J gen junk st (On k ne) = st\<lparr>conns := (conns st)(gen k \<mapsto> v3_event P c ne)\<rparr>"
proof -
  have "\<not> clear_calls c < clear_calls (v3_event P c ne)"
    using assms(4) unfolding v3_event_def ep_event_clears by blast
  with assms show ?thesis by (simp add: v3_serve_def on_completion_def asks_clear_def Let_def)
qed

lemma v3_round_ok:
  assumes P: "network_order P" and st: "idle_conn gen k st c"
    and at_head: "fst (v3_spec (Head []) (received c)) = Head []"
    and bytes: "chunk_ok bytes" "v3_spec (Head []) bytes = (Head [], [(short_of_int MSG_HELLO_WORD, body)])"
    and reply: "v3_hello_reply J body = Inr (reply, i)" "length reply \<le> 2048"
  shows "\<exists>c'. idle_conn gen k (foldl (v3_serve P J gen junk) st (v3_round k bytes)) c' \<and>
    received c' = received c @ bytes \<and> on_tcp c' = on_tcp c @ [frame i reply]"
proof -
  let ?u = "gen k"
  have idle: "down st = None" "conns st ?u = Some c" "v3_ep_ok ?u c" "read_pending c" "\<not> cleared c"
    "v3_queue (ep_sess c) = []" "logic_que st = []" "handed st ?u = length (inbox c)"
    using st by (simp_all add: idle_conn_def)
  obtain c1 nd where c1: "v3_event P c (Got bytes) = c1" "ended c1 = None" "v3_ep_ok ?u c1" "read_pending c1"
    "\<not> cleared c1" "v3_queue (ep_sess c1) = []" "on_tcp c1 = on_tcp c" "received c1 = received c @ bytes"
    "inbox c1 = inbox c @ [nd]" "ln_session nd = ?u" "msg_of nd = (short_of_int MSG_HELLO_WORD, body)"
    using receive_one [OF P idle(3,4,6) at_head bytes] idle(5) by auto
  obtain es s c2 where c2: "v3_deal P J nd (ep_sess c1) = (es, Returned s)" "finish_call c1 (es, Returned s) = c2"
    "v3_ep_ok ?u c2" "inbox c2 = inbox c1" "received c2 = received c1" "on_tcp c2 = on_tcp c1" "\<not> cleared c2"
    "read_pending c2" "v3_queue (ep_sess c2) = [frame i reply]"
    using answer_one [OF P c1(3,5,6,11) reply] c1(4) by auto
  obtain c3 where c3: "v3_event P c2 Wrote = c3" "ended c3 = None" "v3_ep_ok ?u c3" "\<not> cleared c3" "read_pending c3"
    "v3_queue (ep_sess c3) = []" "on_tcp c3 = on_tcp c2 @ [frame i reply]" "received c3 = received c2" "inbox c3 = inbox c2"
    using write_one [OF P c2(3,7,9)] c2(8) by auto
  let ?st1 = "st\<lparr>conns := (conns st)(?u \<mapsto> c1)\<rparr>"
  let ?st2 = "?st1\<lparr>logic_que := [nd], handed := (handed st)(?u := Suc (handed st ?u))\<rparr>"
  let ?st3 = "?st2\<lparr>logic_que := [], dealt := dealt st @ [nd], conns := (conns st)(?u \<mapsto> c2)\<rparr>"
  have "v3_serve P J gen junk st (On k (Got bytes)) = ?st1"
    using v3_serve_on [of st gen k c P "Got bytes"] idle(1,2) c1 by simp
  moreover have "v3_serve P J gen junk ?st1 (Push k) = ?st2"
    using idle c1(9) by (simp add: v3_serve_def push_next_def)
  moreover have "v3_serve P J gen junk ?st2 Work = ?st3"
    using idle c1(10) c2(1,2) by (simp add: v3_serve_def deal_next_def del: finish_call.simps)
  moreover have "v3_serve P J gen junk ?st3 (On k Wrote) = ?st3\<lparr>conns := (conns ?st3)(?u \<mapsto> c3)\<rparr>"
    using v3_serve_on [of ?st3 gen k c2 P Wrote] idle(1) c3 by simp
  ultimately have "foldl (v3_serve P J gen junk) st (v3_round k bytes) = ?st3\<lparr>conns := (conns ?st3)(?u \<mapsto> c3)\<rparr>"
    by (simp add: v3_round_def)
  with idle c1 c2 c3 show ?thesis by (intro exI [of _ c3]) (simp add: idle_conn_def)
qed

text \<open>The connection the server has just accepted is idle, and any number of rounds can follow.\<close>

lemma v3_accept_idle:
  "\<exists>c. idle_conn gen 0 (v3_serve P J gen junk v3_started (Accept False)) c \<and> received c = [] \<and> on_tcp c = []"
proof -
  obtain c where c: "v3_accepted (gen 0) (junk 0) = Inr c" "v3_ep_ok (gen 0) c" "received c = []" "on_tcp c = []"
    "inbox c = []" "v3_queue (ep_sess c) = []" "\<not> cleared c"
    using v3_accepted_ok by blast
  then have "read_pending c"
    by (auto simp: v3_ep.ep_ok_def v3_ep.stream_of_def)
  with c show ?thesis
    by (intro exI [of _ c]) (simp add: idle_conn_def v3_serve_def v3_started_def new_service_def v3_CServer_def
        v3_StartAccept_def new_server_def connect_def)
qed

definition v3_rounds :: "nat \<Rightarrow> nat \<Rightarrow> byte list \<Rightarrow> service_event list" where
  "v3_rounds m k bytes = concat (replicate m (v3_round k bytes))"

lemma v3_rounds_ok:
  assumes P: "network_order P"
    and bytes: "chunk_ok bytes" "v3_spec (Head []) bytes = (Head [], [(short_of_int MSG_HELLO_WORD, body)])"
    and reply: "v3_hello_reply J body = Inr (reply, i)" "length reply \<le> 2048"
  shows "\<exists>c. idle_conn gen 0 (foldl (v3_serve P J gen junk) v3_started (Accept False # v3_rounds m 0 bytes)) c \<and>
    received c = concat (replicate m bytes) \<and> on_tcp c = replicate m (frame i reply)"
proof (induction m)
  case 0
  show ?case using v3_accept_idle by (simp add: v3_rounds_def)
next
  case (Suc m)
  let ?st = "foldl (v3_serve P J gen junk) v3_started (Accept False # v3_rounds m 0 bytes)"
  from Suc obtain c where c: "idle_conn gen 0 ?st c" "received c = concat (replicate m bytes)"
    "on_tcp c = replicate m (frame i reply)" by blast
  have "fst (v3_spec (Head []) (concat (replicate m bytes))) = Head []" for m
  proof (induction m)
    case (Suc m)
    obtain ms where "v3_spec (Head []) (concat (replicate m bytes)) = (Head [], ms)"
      using Suc by (metis prod.collapse)
    from prun_appendI [OF bytes(2) this] show ?case by simp
  qed simp
  then have "fst (v3_spec (Head []) (received c)) = Head []" by (simp add: c(2))
  from v3_round_ok [OF P c(1) this bytes reply]
  obtain c' where c': "idle_conn gen 0 (foldl (v3_serve P J gen junk) ?st (v3_round 0 bytes)) c'"
    "received c' = received c @ bytes" "on_tcp c' = on_tcp c @ [frame i reply]" by blast
  have "foldl (v3_serve P J gen junk) ?st (v3_round 0 bytes) =
      foldl (v3_serve P J gen junk) v3_started (Accept False # v3_rounds (Suc m) 0 bytes)"
    unfolding v3_rounds_def concat_replicate_Suc by simp
  with c c' show ?case by (metis concat_replicate_Suc replicate_append_same replicate_Suc)
qed

section \<open>The client's side\<close>

definition client_round :: "byte list \<Rightarrow> client_event list" where
  "client_round reply_bytes = [Write_Done, Arrived reply_bytes, Read_Done]"

lemma client_rounds:
  assumes P: "network_order P" "endianness P = Little_Endian"
    and request: "json_request P (json_styled J root) = Inr bytes"
    and reply: "length reply \<le> 2048" "json_show J root reply = Inr shown"
  shows "m \<le> turns \<Longrightarrow>
    json_client_run P J root turns (Connect_Done False # concat (replicate m (client_round (frame i reply)))) =
      \<lparr>jc_at = next_turn turns m, jc_turn = m, jc_sent = concat (replicate m bytes), jc_unread = [],
        jc_shown = replicate m shown\<rparr>"
proof (induction m)
  case 0
  show ?case by (simp add: json_client_run_def json_client_event_def json_client_start_def)
next
  case (Suc m)
  have r: "json_reply P (frame i reply) = Some ((i, reply), [])"
    using json_reply_frame [OF P reply(1), of i "[]"] by simp
  have "next_turn turns m = Requesting" using Suc.prems by (simp add: next_turn_def)
  with Suc request reply(2) r show ?case
    unfolding concat_replicate_Suc json_client_run_def
    by (simp add: client_round_def json_client_event_def json_client_read_def replicate_append_same)
qed

end
