(* ===== verification/Samples.thy ===== *)
theory Samples
  imports V3_Process Mt_Process Attendance Mt_Uptime Round_Trip Mt_Logic V3_Sending
begin

text \<open>
  The concrete instances at which the witnesses of the root theory apply its properties: a JSON library on
  plain byte strings, sessions, logic systems, and short runs of the servers.
\<close>

section \<open>Sessions and logic systems\<close>

text \<open>
  The values the witnesses evaluate the model at: a JSON library on plain byte strings, in which a text
  that begins with a bracket is no object, a session fresh from its constructor, and a greeting.
\<close>

definition sample_json :: "byte list json" where
  "sample_json = \<lparr>json_value = [], json_parse = (\<lambda>t _. Inr t),
     json_at = (\<lambda>root _. if take 1 root = [91] then Inl Json_Exception else Inr (root, root)),
     json_as_int = (\<lambda>_. Inr 1001), json_as_string = (\<lambda>v. Inr v),
     json_assign = (\<lambda>_ _ t. Inr t), json_styled = (\<lambda>root. root)\<rparr>"

definition sample_session :: v3_session where
  "sample_session = \<lparr>uuid = ''s'', data_buf = [], b_close = False, send_que = [], recv_msg_node = None,
     b_head_parse = False, recv_head_node = \<lparr>cur_len = 0, total_len = 4, node_data = [0, 0, 0, 0, 0]\<rparr>\<rparr>"

definition sample_node :: "byte list \<Rightarrow> logic_node" where
  "sample_node body = \<lparr>ln_session = ''s'',
     ln_recvnode = \<lparr>cur_len = short_of_int (int (length body)), total_len = short_of_int (int (length body)),
       node_data = body @ [0], recv_msg_id = short_of_int MSG_HELLO_WORD\<rparr>\<rparr>"

definition sample_reads :: "byte list list" where
  "sample_reads = [[3, 233, 0], [2, 104, 105]]"

definition sample_events :: "send_call chan_event list" where
  "sample_events = [Submit (Send_String [104, 105] 1001), Submit (Send_Chars [1, 2, 3] 2 7), Completed,
     Submit (Send_String [] 1), Failed, Completed]"

definition mt_events :: "mt_call chan_event list" where
  "mt_events = [Submit (Mt_String [104, 105] 1001), Completed, Submit (Mt_Chars [1, 2, 3] 2 7), Failed]"

definition echo_session :: v2_session where
  "echo_session = \<lparr>uuid = ''s'', data_buf = [], b_close = False, send_que = [], recv_msg_node = None,
     b_head_parse = False, recv_head_node = \<lparr>cur_len = 0, total_len = 2, node_data = [0, 0, 0]\<rparr>\<rparr>"

definition echo_events :: "(byte list \<times> nat) chan_event list" where
  "echo_events = [Submit ([104, 105, 0], 2), Submit ([33, 0], 1), Completed, Completed]"

text \<open>Sessions whose queue has reached the limit.\<close>

definition full_session :: v3_session where
  "full_session = sample_session\<lparr>send_que := replicate 1000
     \<lparr>cur_len = 0, total_len = 4, node_data = [0, 7, 0, 0, 0], send_msg_id = 7\<rparr>\<rparr>"

definition full_echo_session :: v2_session where
  "full_echo_session = echo_session\<lparr>send_que := replicate 1000
     \<lparr>cur_len = 0, total_len = 2, node_data = [0, 0, 0]\<rparr>\<rparr>"

text \<open>A logic system with one message posted, after the worker's turn, and once it is to stop.\<close>

definition sample_logic :: v3_logic where
  "sample_logic = v3_PostMsgtoQueue (sample_node [104, 105]) (new_logic (\<lambda>_. sample_session))"

definition served_logic :: v3_logic where
  "served_logic = v3_worker_run x86_host sample_json 1 sample_logic"

definition stopped_logic :: v3_logic where
  "stopped_logic = sample_logic\<lparr>b_stop := True\<rparr>"

definition mt_served_logic :: v3_logic where
  "mt_served_logic = mt_worker_run x86_host sample_json 1
     (mt_PostMsgToQue (sample_node [104, 105]) (new_logic (\<lambda>_. sample_session)))"

lemma sample_node_text: "node_text (ln_recvnode (sample_node [104, 105])) = [104, 105]"
  by (simp add: sample_node_def node_text_def sint_short_of_int)

lemma sample_send:
  "length msg \<le> 2048 \<Longrightarrow> \<exists>es s. v3_Send_string x86_host msg i sample_session = (es, Returned s)"
  using v3_out.send_queued [of sample_session "Send_String msg i"]
  by (force simp: sample_session_def v3_send_inv_def v3_queue_def)

lemma served_logic_ok:
  "(v3_logic_step x86_host sample_json)\<^sup>*\<^sup>* (new_logic (\<lambda>_. sample_session)) served_logic" "alive served_logic"
proof -
  have "v3_logic_step x86_host sample_json (new_logic (\<lambda>_. sample_session)) sample_logic"
    unfolding sample_logic_def by (rule v3_logic_step.post) (simp_all add: new_logic_def alive_def mutex_free_def)
  then show "(v3_logic_step x86_host sample_json)\<^sup>*\<^sup>* (new_logic (\<lambda>_. sample_session)) served_logic"
    unfolding served_logic_def using v3_worker_run_steps by (rule converse_rtranclp_into_rtranclp)
  have "\<exists>reply. v3_hello_reply sample_json [104, 105] = Inr (reply, short_of_int 1001) \<and> length reply \<le> 2048"
    by (simp add: v3_hello_reply_def sample_json_def member_int_def member_string_def bytes_of_def)
  then obtain reply where reply: "v3_hello_reply sample_json [104, 105] = Inr (reply, short_of_int 1001)" "length reply \<le> 2048"
    by blast
  obtain es s where "v3_Send_string x86_host reply (short_of_int 1001) sample_session = (es, Returned s)"
    using sample_send [OF reply(2)] by blast
  with reply show "alive served_logic"
    by (simp add: served_logic_def sample_logic_def v3_PostMsgtoQueue_def new_logic_def v3_DealMsg_def v3_take_front_def
        v3_deal_front_def v3_RegisterCallBacks_def sample_node_text v3_HelloWorldCallBack_def alive_def
        Let_def)
qed

lemma mt_served_logic_ok:
  "(mt_logic_step x86_host sample_json)\<^sup>*\<^sup>* (new_logic (\<lambda>_. sample_session)) mt_served_logic" "alive mt_served_logic"
proof -
  have "mt_logic_step x86_host sample_json (new_logic (\<lambda>_. sample_session))
      (mt_PostMsgToQue (sample_node [104, 105]) (new_logic (\<lambda>_. sample_session)))"
    by (rule mt_logic_step.post) (simp_all add: new_logic_def alive_def mutex_free_def)
  then show "(mt_logic_step x86_host sample_json)\<^sup>*\<^sup>* (new_logic (\<lambda>_. sample_session)) mt_served_logic"
    unfolding mt_served_logic_def using mt_worker_run_steps by (rule converse_rtranclp_into_rtranclp)
  have "\<exists>reply. mt_hello_reply sample_json [104, 105] = Inr (reply, short_of_int 1001) \<and> length reply \<le> 2048"
    by (simp add: mt_hello_reply_def sample_json_def member_int_def member_string_def bytes_of_def)
  then obtain reply where reply: "mt_hello_reply sample_json [104, 105] = Inr (reply, short_of_int 1001)" "length reply \<le> 2048"
    by blast
  obtain es s where "v3_Send_string x86_host reply (short_of_int 1001) sample_session = (es, Returned s)"
    using sample_send [OF reply(2)] by blast
  with reply show "alive mt_served_logic"
    by (simp add: mt_served_logic_def mt_PostMsgToQue_def new_logic_def mt_DealMsg_def mt_take_front_def
        mt_deal_front_def mt_RegisterCallBacks_def sample_node_text mt_HelloWordCallBack_def alive_def mt_Send_eq
        Let_def)
qed

lemma sample_reads_ok: "\<forall>chunk\<in>set sample_reads. chunk_ok chunk"
  by (simp add: sample_reads_def chunk_ok_def)

lemmas eval_frame = frame_def short_of_int_def high_byte_def low_byte_def

text \<open>Reading off a decoded header.\<close>

lemmas eval_dec = v3_dec_def mt_dec_def v2_dec_def short_of_bytes_def head_done_def

section \<open>Runs of the servers\<close>

text \<open>A greeting as it is sent, and the client that has sent it twice and got both replies.\<close>

definition sample_request :: "byte list" where
  "sample_request = [3, 233, 0, 2, 104, 105]"

definition sample_reply :: "byte list" where
  "sample_reply = bytes_of ''Server has received msg, msg data is '' @ [104, 105]"

definition no_junk :: "nat \<Rightarrow> byte list" where
  "no_junk k = []"

definition sample_run :: "service_event list" where
  "sample_run = Accept False # v3_rounds 2 0 sample_request"

lemma sample_request_spec:
  "chunk_ok sample_request" "v3_spec (Head []) sample_request = (Head [], [(short_of_int MSG_HELLO_WORD, [104, 105])])"
  by (simp_all add: sample_request_def chunk_ok_def eval_dec short_of_int_def)

lemma sample_hello:
  "v3_hello_reply sample_json [104, 105] = Inr (sample_reply, 1001)" "length sample_reply \<le> 2048"
  by (simp_all add: v3_hello_reply_def sample_json_def member_int_def member_string_def sample_reply_def bytes_of_def
      short_of_int_def)

lemma sample_run_idle:
  "\<exists>c. idle_conn numbered 0 (foldl (v3_serve x86_host sample_json numbered no_junk) v3_started sample_run) c"
  unfolding sample_run_def
  using v3_rounds_ok [OF x86.network_order_axioms sample_request_spec sample_hello, of numbered no_junk 2] by blast

lemma sample_run_up: "down (foldl (v3_serve x86_host sample_json numbered no_junk) v3_started sample_run) = None"
  using sample_run_idle by (auto simp: idle_conn_def)

lemma sample_run_sized: "events_sized sample_run"
  using sample_request_spec(1)
  by (simp add: events_sized_def sample_run_def v3_rounds_def v3_round_def sized_def numeral_2_eq_2)

text \<open>A connection of the multi-threaded server on a pool of two contexts: accepted, inserted, one message pushed.\<close>

definition sample_mt_run :: "mt_service_event list" where
  "sample_mt_run = [Mt_Event (Accept False), Insert, Restart, Mt_Event (On 0 (Got sample_request)), Mt_Event (Push 0)]"

lemma mt_accept_first:
  "\<exists>c. foldl (mt_serve P J numbered no_junk) (mt_started 2) [Mt_Event (Accept False)] =
     (connect (numbered 0) (Inr c) (mt_started 2))\<lparr>reg := mt_HandleAccept 0 False (mt_CServer 2)\<rparr> \<and>
   v3_accepted (numbered 0) [] = Inr c \<and> received c = [] \<and> read_pending c"
proof -
  obtain c where c: "v3_accepted (numbered 0) [] = Inr c" "v3_ep_ok (numbered 0) c" "received c = []" "\<not> cleared c"
    using v3_accepted_ok by blast
  then have "read_pending c" by (auto simp: v3_ep.ep_ok_def v3_ep.stream_of_def)
  with c show ?thesis
    by (intro exI [of _ c]) (simp add: mt_serve_def mt_started_def new_service_def connect_def no_junk_def mt_accepted_eq
        mt_CServer_def mt_StartAccept_def mt_GetIOService_def mt_AsioIOServicePool_def)
qed

lemma sample_mt_run_ok:
  "mt_events_sized sample_mt_run"
  "down (foldl (mt_serve x86_host sample_json numbered no_junk) (mt_started 2) sample_mt_run) = None"
proof -
  let ?serve = "mt_serve x86_host sample_json numbered no_junk"
  let ?es = "[Mt_Event (Accept False), Insert, Restart]"
  let ?st = "foldl ?serve (mt_started 2) ?es"
  have sized: "mt_events_sized ?es" by (simp add: mt_events_sized_def)
  show "mt_events_sized sample_mt_run"
    using sample_request_spec(1) by (simp add: mt_events_sized_def sample_mt_run_def sized_def)
  obtain c where c: "foldl ?serve (mt_started 2) [Mt_Event (Accept False)] =
      (connect (numbered 0) (Inr c) (mt_started 2))\<lparr>reg := mt_HandleAccept 0 False (mt_CServer 2)\<rparr>" "received c = []"
    using mt_accept_first by blast
  have st: "down ?st = None" "conns ?st (numbered 0) = Some c"
    using c(1) by (simp_all add: mt_serve_def [of _ _ _ _ _ Insert] mt_serve_def [of _ _ _ _ _ Restart] connect_def
        mt_started_def new_service_def mt_HandleAccept_def mt_insert_def mt_CServer_def mt_StartAccept_def
        mt_GetIOService_def mt_AsioIOServicePool_def)
  have "down (?serve ?st (Mt_Event (On 0 (Got sample_request)))) = None"
  proof (rule ccontr)
    assume "down (?serve ?st (Mt_Event (On 0 (Got sample_request)))) \<noteq> None"
    then obtain f where "down (?serve ?st (Mt_Event (On 0 (Got sample_request)))) = Some f" by blast
    from mt_isolates_exceptions [OF x86.network_order_axioms
        mt_run_ok(2) [OF x86.network_order_axioms inj_numbered sized st(1)] _ st(1) this]
    show False using st(2) c(2) sample_request_spec by (auto simp: sized_def)
  qed
  then show "down (foldl ?serve (mt_started 2) sample_mt_run) = None"
    by (simp add: sample_mt_run_def) (simp add: mt_serve_def [of _ _ _ _ _ "Mt_Event (Push 0)"])
qed

text \<open>A header that announces \<open>-1\<close> bytes.\<close>

lemma sample_mt_crash:
  "down (foldl (mt_serve x86_host sample_json numbered no_junk) (mt_started 2) [Mt_Event (Accept False)]) = None"
  "down (foldl (mt_serve x86_host sample_json numbered no_junk) (mt_started 2)
     ([Mt_Event (Accept False)] @ [Mt_Event (On 0 (Got [3, 233, 255, 255, 0]))])) = Some Out_Of_Bounds"
proof -
  let ?serve = "mt_serve x86_host sample_json numbered no_junk"
  obtain c where c: "foldl ?serve (mt_started 2) [Mt_Event (Accept False)] =
      (connect (numbered 0) (Inr c) (mt_started 2))\<lparr>reg := mt_HandleAccept 0 False (mt_CServer 2)\<rparr>"
    "v3_accepted (numbered 0) [] = Inr c" "received c = []" "read_pending c"
    using mt_accept_first by blast
  show up: "down (foldl ?serve (mt_started 2) [Mt_Event (Accept False)]) = None"
    unfolding c(1) by (simp add: connect_def mt_started_def new_service_def)
  have ok: "v3_ep_ok (numbered 0) c" using v3_accepted_ok [of "numbered 0" "[]"] c(2) by auto
  have "ended (mt_event x86_host c (Got [3, 233, 255, 255, 0])) = Some Out_Of_Bounds"
    using session_contract.event_ends [OF mt_session_contract [OF x86.network_order_axioms] ok,
        of "Got [3, 233, 255, 255, 0]" Out_Of_Bounds] c(3,4)
    by (simp add: mt_event_def chunk_ok_def mt_fatal_def) (simp add: eval_dec)
  then show "down (foldl ?serve (mt_started 2)
      ([Mt_Event (Accept False)] @ [Mt_Event (On 0 (Got [3, 233, 255, 255, 0]))])) = Some Out_Of_Bounds"
    unfolding foldl_append c(1)
    by (simp add: mt_serve_def on_completion_def connect_def mt_started_def new_service_def Let_def)
qed

definition sample_echo_run :: "echo_event list" where
  "sample_echo_run = [Echo_Accept False, Echo_On 0 (Got [0, 2, 104, 105]), Echo_Accept True, Echo_On 0 Wrote]"

lemma v2_accept_first:
  "\<exists>c. v2_serve P numbered no_junk v2_started (Echo_Accept False) =
     (connect (numbered 0) (Inr c) v2_started)\<lparr>reg := v2_HandleAccept numbered 0 False v2_CServer\<rparr> \<and> received c = []"
proof -
  obtain c where c: "v2_accepted (numbered 0) [] = Inr c" "received c = []"
    using v2_accepted_ok by blast
  then show ?thesis
    by (intro exI [of _ c]) (simp add: v2_serve_def v2_started_def connect_def no_junk_def v2_CServer_def
        v2_StartAccept_def new_server_def)
qed

lemma sample_echo_run_ok:
  "echo_events_sized sample_echo_run"
  "down (foldl (v2_serve x86_host numbered no_junk) v2_started sample_echo_run) = None"
proof -
  show sized: "echo_events_sized sample_echo_run"
    by (simp add: echo_events_sized_def sample_echo_run_def sized_def chunk_ok_def)
  show "down (foldl (v2_serve x86_host numbered no_junk) v2_started sample_echo_run) = None"
  proof (rule ccontr)
    assume "down (foldl (v2_serve x86_host numbered no_junk) v2_started sample_echo_run) \<noteq> None"
    then obtain f where "down (foldl (v2_serve x86_host numbered no_junk) v2_started sample_echo_run) = Some f" by blast
    from v2_last_event [OF x86.network_order_axioms inj_numbered sized this]
    obtain es1 k chunk es2 c where run: "sample_echo_run = es1 @ Echo_On k (Got chunk) # es2"
      "conns (foldl (v2_serve x86_host numbered no_junk) v2_started es1) (numbered k) = Some c"
      "fst (v2_spec (Head []) (received c @ chunk)) = Crashed f" by blast
    then have "es1 = [Echo_Accept False]" "k = 0" "chunk = [0, 2, 104, 105]"
      by (auto simp: sample_echo_run_def Cons_eq_append_conv)
    moreover obtain d where "v2_serve x86_host numbered no_junk v2_started (Echo_Accept False) =
        (connect (numbered 0) (Inr d) v2_started)\<lparr>reg := v2_HandleAccept numbered 0 False v2_CServer\<rparr>" "received d = []"
      using v2_accept_first by blast
    ultimately show False using run(2,3) by (simp add: connect_def eval_dec)
  qed
qed

text \<open>A header that announces \<open>-2\<close> bytes makes the constructor of the node throw.\<close>

lemma sample_echo_crash:
  "v2_main x86_host numbered no_junk True [Echo_Accept False, Echo_On 0 (Got [255, 254])] = Some Exited"
proof -
  obtain c where c: "v2_accepted (numbered 0) (no_junk 0) = Inr c" "v2_ep.ep_ok c" "received c = []" "\<not> cleared c"
    using v2_accepted_ok by blast
  then have "read_pending c" by (auto simp: v2_ep.ep_ok_def v2_ep.stream_of_def)
  then have "ended (v2_event x86_host c (Got [255, 254])) = Some Bad_Array_New_Length"
    using session_contract.event_ends [OF v2_session_contract [OF x86.network_order_axioms] c(2),
        of "Got [255, 254]" Bad_Array_New_Length] c(3)
    by (simp add: v2_event_def chunk_ok_def) (simp add: eval_dec)
  then show ?thesis
    by (simp add: v2_main_def v2_serve_def on_completion_def connect_def v2_started_def v2_CServer_def
        v2_StartAccept_def new_server_def c(1) Let_def)
qed

section \<open>Requests that wait, and sessions that end\<close>

text \<open>A greeting has arrived at a server, which has done nothing about it yet.\<close>

definition sample_arrived :: "service_event list" where
  "sample_arrived = [Accept False, On 0 (Got sample_request)]"

definition sample_mt_arrived :: "mt_service_event list" where
  "sample_mt_arrived = map Mt_Event sample_arrived"

definition sample_mt_reply :: "byte list" where
  "sample_mt_reply = bytes_of ''server has received msg, msg data is '' @ [104, 105]"

lemma sample_mt_hello:
  "mt_hello_reply sample_json [104, 105] = Inr (sample_mt_reply, 1001)" "length sample_mt_reply \<le> 2048"
  by (simp_all add: mt_hello_reply_def sample_json_def member_int_def member_string_def sample_mt_reply_def bytes_of_def
      short_of_int_def)

lemma sample_frames:
  "v3_answer sample_json (short_of_int MSG_HELLO_WORD, [104, 105]) = [frame 1001 sample_reply]"
  "mt_answer sample_json (short_of_int MSG_HELLO_WORD, [104, 105]) = [frame 1001 sample_mt_reply]"
  using sample_hello sample_mt_hello by (simp_all add: v3_answer_def mt_answer_def)

lemma sample_messages: "received c = sample_request \<Longrightarrow> v3_messages c = [(short_of_int MSG_HELLO_WORD, [104, 105])]"
  using sample_request_spec(2) by (simp add: v3_messages_def)

lemma sample_harmless: "harmless sample_json []" "harmless sample_json sample_request"
  "mt_harmless sample_json []" "mt_harmless sample_json sample_request"
  using sample_request_spec(2) sample_hello sample_mt_hello
  by (simp_all add: harmless_def mt_harmless_def v3_fatal_message_def mt_fatal_message_def)

lemma sample_arrived_ok:
  "events_sized sample_arrived" "\<And>k. harmless sample_json (client_bytes 0 k sample_arrived)"
  "\<exists>c. conns (foldl (v3_serve x86_host sample_json numbered no_junk) v3_started sample_arrived) (numbered 0) = Some c \<and>
     \<not> cleared c \<and> received c = sample_request"
proof -
  show "events_sized sample_arrived" using sample_request_spec(1) by (simp add: events_sized_def sample_arrived_def sized_def)
  show "harmless sample_json (client_bytes 0 k sample_arrived)" for k
    using sample_harmless(1,2) by (simp add: sample_arrived_def)
  let ?serve = "v3_serve x86_host sample_json numbered no_junk"
  let ?st = "?serve v3_started (Accept False)"
  obtain c where c: "idle_conn numbered 0 ?st c" "received c = []" using v3_accept_idle by blast
  then have idle: "down ?st = None" "conns ?st (numbered 0) = Some c" "v3_ep_ok (numbered 0) c" "read_pending c"
    "\<not> cleared c" "v3_queue (ep_sess c) = []"
    by (simp_all add: idle_conn_def)
  obtain c1 where c1: "v3_event x86_host c (Got sample_request) = c1" "ended c1 = None" "\<not> cleared c1"
    "received c1 = sample_request"
    using receive_one [OF x86.network_order_axioms idle(3,4,6) _ sample_request_spec] c(2) idle(5) by auto
  have "?serve ?st (On 0 (Got sample_request)) = ?st\<lparr>conns := (conns ?st)(numbered 0 \<mapsto> c1)\<rparr>"
    using v3_serve_on [of ?st numbered 0 c x86_host "Got sample_request"] idle(1,2) c1 by simp
  with c1 show "\<exists>c. conns (foldl ?serve v3_started sample_arrived) (numbered 0) = Some c \<and>
      \<not> cleared c \<and> received c = sample_request"
    by (simp add: sample_arrived_def)
qed

lemma sample_mt_arrived_ok:
  "mt_events_sized sample_mt_arrived"
  "\<And>k. mt_harmless sample_json (delivered x86_host sample_json numbered no_junk k (mt_started 2) sample_mt_arrived)"
  "\<exists>c. conns (foldl (mt_serve x86_host sample_json numbered no_junk) (mt_started 2) sample_mt_arrived) (numbered 0) = Some c \<and>
     \<not> cleared c \<and> received c = sample_request"
proof -
  show "mt_events_sized sample_mt_arrived"
    using sample_request_spec(1) by (simp add: mt_events_sized_def sample_mt_arrived_def sample_arrived_def sized_def)
  let ?serve = "mt_serve x86_host sample_json numbered no_junk"
  obtain c where c: "foldl ?serve (mt_started 2) [Mt_Event (Accept False)] =
      (connect (numbered 0) (Inr c) (mt_started 2))\<lparr>reg := mt_HandleAccept 0 False (mt_CServer 2)\<rparr>"
    "v3_accepted (numbered 0) [] = Inr c" "received c = []" "read_pending c"
    using mt_accept_first by blast
  let ?st = "?serve (mt_started 2) (Mt_Event (Accept False))"
  have st: "conns ?st = [numbered 0 \<mapsto> c]" "down ?st = None"
    using c(1) by (simp_all add: connect_def mt_started_def new_service_def)
  show "mt_harmless sample_json (delivered x86_host sample_json numbered no_junk k (mt_started 2) sample_mt_arrived)" for k
    using sample_harmless(3,4) c(4) by (simp add: sample_mt_arrived_def sample_arrived_def st inj_eq [OF inj_numbered])
  have ok: "v3_ep_ok (numbered 0) c" "\<not> cleared c" using v3_accepted_ok [of "numbered 0" "[]"] c(2) by auto
  have "running (fst (v3_spec (Head []) (received c @ sample_request)))" using c(3) sample_request_spec(2) by simp
  note got = session_contract.got_running [OF mt_session_contract [OF x86.network_order_axioms] ok(1) c(4) sample_request_spec(1) this]
  let ?c = "mt_event x86_host c (Got sample_request)"
  have "received ?c = sample_request" using c(3,4) by (simp add: mt_event_received)
  moreover have "\<not> cleared ?c" using got ok(2) by (simp add: mt_event_def)
  ultimately show "\<exists>c. conns (foldl ?serve (mt_started 2) sample_mt_arrived) (numbered 0) = Some c \<and>
      \<not> cleared c \<and> received c = sample_request"
    by (simp add: sample_mt_arrived_def sample_arrived_def mt_serve_def [of _ _ _ _ ?st] on_completion_def Let_def st)
qed

section \<open>Processes\<close>

text \<open>A message is pushed, and then the process is told to terminate before the worker has taken it.\<close>

definition sample_pushed :: "server service" where
  "sample_pushed = foldl (v3_serve x86_host sample_json numbered no_junk) v3_started
     [Accept False, On 0 (Got sample_request), Push 0]"

lemma sample_pushed_ok: "down sample_pushed = None" "all_pushed sample_pushed" "logic_que sample_pushed \<noteq> []"
proof -
  let ?serve = "v3_serve x86_host sample_json numbered no_junk"
  obtain c where c: "v3_accepted (numbered 0) (no_junk 0) = Inr c" "v3_ep_ok (numbered 0) c" "received c = []"
    "inbox c = []" "v3_queue (ep_sess c) = []" "\<not> cleared c"
    using v3_accepted_ok by blast
  then have pending: "read_pending c" by (auto simp: v3_ep.ep_ok_def v3_ep.stream_of_def)
  let ?st = "(connect (numbered 0) (Inr c) v3_started)\<lparr>reg := v3_HandleAccept numbered 0 False v3_CServer\<rparr>"
  have st: "?serve v3_started (Accept False) = ?st"
    using c(1) by (simp add: v3_serve_def v3_started_def new_service_def v3_CServer_def v3_StartAccept_def
        new_server_def connect_def)
  obtain c1 nd where c1: "v3_event x86_host c (Got sample_request) = c1" "ended c1 = None" "\<not> cleared c1" "inbox c1 = [nd]"
    using receive_one [OF x86.network_order_axioms c(2) pending c(5) _ sample_request_spec] c(3,4,6) by auto
  have "?serve ?st (On 0 (Got sample_request)) = ?st\<lparr>conns := (conns ?st)(numbered 0 \<mapsto> c1)\<rparr>"
    using v3_serve_on [of ?st numbered 0 c x86_host "Got sample_request"] c1
    by (simp add: connect_def v3_started_def new_service_def)
  moreover have "?serve (?st\<lparr>conns := (conns ?st)(numbered 0 \<mapsto> c1)\<rparr>) (Push 0) =
      ?st\<lparr>conns := [numbered 0 \<mapsto> c1], logic_que := [nd], handed := (\<lambda>_. 0)(numbered 0 := 1)\<rparr>"
    using c1(4) by (simp add: v3_serve_def push_next_def connect_def v3_started_def new_service_def)
  ultimately have eq: "sample_pushed = ?st\<lparr>conns := [numbered 0 \<mapsto> c1], logic_que := [nd], handed := (\<lambda>_. 0)(numbered 0 := 1)\<rparr>"
    by (simp add: sample_pushed_def st)
  show "down sample_pushed = None" "all_pushed sample_pushed" "logic_que sample_pushed \<noteq> []"
    unfolding eq using c1(4) by (simp_all add: connect_def v3_started_def new_service_def all_pushed_def)
qed

definition sample_late :: v3_process where
  "sample_late = \<lparr>phase = Exiting, main_thread = \<lparr>main_at = Leaving, is_server_terminated = True\<rparr>, network = Run_Over,
     ioc_stopped = True, ioc_gone = True, svc = sample_pushed, process_end = None\<rparr>"

lemma sample_late_reachable:
  "(v3_process_step x86_host sample_json numbered no_junk)\<^sup>*\<^sup>* v3_process_start sample_late"
  using shutdown_from [of "[Accept False, On 0 (Got sample_request), Push 0]" x86_host sample_json numbered no_junk]
    sample_pushed_ok(1,2) sample_request_spec(1)
  by (simp add: sample_late_def sample_pushed_def events_sized_def sized_def)

text \<open>The multi-threaded server with a pool of two contexts, running and told to stop.\<close>

definition sample_mt_running :: mt_process where
  "sample_mt_running = (mt_process_start 2)\<lparr>mt_phase := Mt_Running\<rparr>"

lemma mt_two_listening: "acceptor_at (mt_CServer 2) = Listening"
  by (simp add: mt_CServer_def mt_StartAccept_def mt_GetIOService_def mt_AsioIOServicePool_def)

lemma mt_registered:
  "(mt_process_step P J gen junk)\<^sup>*\<^sup>* (mt_process_start n) ((mt_process_start n)\<lparr>mt_phase := Mt_Registered\<rparr>)"
  by (rule r_into_rtranclp, rule mt_process_step.signals) (simp_all add: mt_process_start_def)

lemma sample_mt_running_reachable:
  "(mt_process_step P J gen junk)\<^sup>*\<^sup>* (mt_process_start 2) sample_mt_running"
proof -
  let ?p = "(mt_process_start 2)\<lparr>mt_phase := Mt_Registered\<rparr>"
  have "mt_process_step P J gen junk ?p (mt_construct True ?p)"
    by (rule mt_process_step.construct) (simp_all add: mt_process_start_def)
  moreover have "mt_construct True ?p = sample_mt_running"
    by (simp add: mt_construct_def sample_mt_running_def mt_process_start_def mt_started_def new_service_def mt_two_listening)
  ultimately show ?thesis
    by (metis mt_registered rtranclp.rtrancl_into_rtrancl)
qed

lemma sample_mt_stopping_reachable:
  "(mt_process_step P J gen junk)\<^sup>*\<^sup>* (mt_process_start 2) (sample_mt_running\<lparr>mt_phase := Mt_Stopping\<rparr>)"
proof -
  have "mt_process_step P J gen junk sample_mt_running (sample_mt_running\<lparr>mt_phase := Mt_Stopping\<rparr>)"
    by (rule mt_process_step.signal)
      (simp_all add: sample_mt_running_def mt_process_start_def mt_started_def new_service_def mt_two_listening)
  with sample_mt_running_reachable show ?thesis by (rule rtranclp.rtrancl_into_rtrancl)
qed

text \<open>Processes that have nothing left to handle when they end.\<close>

definition sample_quiet :: v3_process where
  "sample_quiet = \<lparr>phase = Exiting, main_thread = \<lparr>main_at = Leaving, is_server_terminated = True\<rparr>, network = Run_Over,
     ioc_stopped = True, ioc_gone = True, svc = v3_started, process_end = None\<rparr>"

lemma sample_quiet_reachable:
  "(v3_process_step x86_host sample_json numbered no_junk)\<^sup>*\<^sup>* v3_process_start sample_quiet"
proof -
  have "down v3_started = None" "all_pushed v3_started"
    by (simp_all add: v3_started_def new_service_def all_pushed_def)
  then show ?thesis
    using shutdown_from [of "[]" x86_host sample_json numbered no_junk]
    by (simp add: sample_quiet_def events_sized_def)
qed

lemma sample_mt_idle:
  "mt_end sample_mt_running = None" "all_pushed (mt_svc sample_mt_running)" "logic_que (mt_svc sample_mt_running) = []"
  by (simp_all add: sample_mt_running_def mt_process_start_def mt_started_def new_service_def all_pushed_def)

lemma sample_mt_exits:
  "\<exists>p. (mt_process_step x86_host sample_json numbered no_junk)\<^sup>*\<^sup>* (mt_process_start 2) p \<and> mt_end p = Some Exited"
proof -
  let ?p = "sample_mt_running\<lparr>mt_phase := Mt_Stopping\<rparr>"
  have idle: "mt_end ?p = None" "mt_phase ?p \<in> {Mt_Stopping, Mt_Leaving, Mt_Exiting}"
    "all_pushed (mt_svc ?p)" "logic_que (mt_svc ?p) = []"
    using sample_mt_idle by simp_all
  have "mt_inv x86_host sample_json 2 numbered ?p"
    by (rule mt_inv_reachable [OF x86.network_order_axioms inj_numbered sample_mt_stopping_reachable])
  from mt_shutdown_ends [OF x86.network_order_axioms inj_numbered this idle(1,2)] idle(3,4) show ?thesis
    using sample_mt_stopping_reachable [of x86_host sample_json numbered no_junk] by (meson rtranclp_trans)
qed

end
