(* ===== verification/Spec2Isabelle.thy ===== *)
theory Spec2Isabelle
  imports Samples
begin

text \<open>
  A model of the asynchronous TCP servers of this repository and of their clients, with the theorems that
  make them correct, and the ones that show where they are not. There are three servers, each a directory
  under \<open>src/\<close>: \<open>Server\<close> echoes messages with a two-byte header; \<open>Server-version-3\<close> adds message ids and
  a logic thread that answers JSON requests; \<open>Server-version-3-multi-thread\<close> runs its sessions on a pool
  of \<open>io_context\<close>s. Definitions of the first carry the prefix \<open>v2\<close>, of the second \<open>v3\<close>, of the third
  \<open>mt\<close>, and otherwise the names of the code.

  \<^bold>\<open>How the parts interact.\<close> \<open>CServer\<close> accepts a connection, starts a \<open>CSession\<close> and keeps it in a map by its
  uuid. The session reads into a buffer; \<open>HandleRead\<close> cuts the bytes into messages and posts each to the
  \<open>LogicSystem\<close> (\<open>v2\<close>: echoes it). The worker thread of the logic system dispatches on the message id; its
  only callback parses the JSON text and calls \<open>Send\<close> of the session. \<open>Send\<close> queues a frame and starts a
  write unless one is outstanding; \<open>HandleWrite\<close> starts the next. A failed read or write, or a header that
  is not valid, makes the session remove itself from the server's map.

  \<^bold>\<open>The theories\<close>, in the order in which they build on each other.
  \<^item> \<open>Cpp_Prelude\<close>: integer types at their width, conversions, bounds-checked memory, faults, effects.
    \<open>Byte_Order\<close>: the platform (byte order, signedness of \<open>char\<close>, Boost's conversions as parameters); the
    locale \<open>network_order\<close> states what Boost documents, interpreted on both kinds of host.
  \<^item> \<open>Framing\<close>: the specification of a receiving side, a machine on single bytes (\<open>pstep\<close>, \<open>prun\<close>); the locale
    \<open>stream_reader\<close> is the contract of a read handler. \<open>Send_Queue\<close>: the specification of a sending side
    (\<open>chan_step\<close>); the locale \<open>write_queue\<close> is the contract of \<open>Send\<close> and \<open>HandleWrite\<close>.
  \<^item> \<open>Msg_Node\<close> (\<open>MsgNode.h\<close>, \<open>MsgNode.cpp\<close>, \<open>const.h\<close>): nodes and the wire format \<open>frame\<close>. \<open>Session_State\<close>
    (\<open>Session.h\<close>): the members of \<open>CSession\<close>, the raw-data trace, connections.
  \<^item> \<open>V3_Session\<close> (\<open>Session.cpp\<close>): every method of the session with state. \<open>V3_Receive\<close> and \<open>V3_Connection\<close> prove
    that its read loop refines \<open>Framing\<close>, \<open>V3_Sending\<close> that its sending side refines \<open>Send_Queue\<close>.
    \<open>V2_Session\<close>, \<open>V2_Receive\<close>, \<open>V2_Connection\<close>: the same for the echo server. \<open>Mt_Session\<close>, \<open>Mt_Connection\<close>: for
    the multi-threaded server, by equality with the single-threaded one up to the exceptions it catches.
  \<^item> \<open>Logic_Queue\<close>: the state of a logic system and the threads around it; the locale \<open>fifo_worker\<close> is the
    contract of their steps. \<open>V3_Logic\<close>, \<open>Mt_Logic\<close> (\<open>LogicSystem.cpp\<close>): callback, dispatch, worker loop,
    posting and destructor, and the step relations \<open>v3_logic_step\<close> and \<open>mt_logic_step\<close>.
  \<^item> \<open>Io_Service_Pool\<close> (\<open>AsioServicePool.cpp\<close>, \<open>AsioIOServicePool.cpp\<close>), locale \<open>round_robin\<close>;
    \<open>Session_Registry\<close> (\<open>Server.cpp\<close> of two servers), locale \<open>session_registry\<close>; \<open>Mt_Server\<close>
    (\<open>CServer.cpp\<close>), a step relation of accept thread and pool threads; \<open>Lifecycle\<close> (\<open>Singleton.h\<close>, the
    waiting loop of \<open>main.cpp\<close>).
  \<^item> \<open>Endpoint\<close>: both directions of a connection at once, with the operations that asio has outstanding for it;
    the locale \<open>session_contract\<close> extends \<open>write_queue\<close> by the promises of the read handler. \<open>Endpoints\<close>
    interprets it on the sessions of the three servers.
  \<^item> Whole servers: \<open>Service\<close> (registry, all connections, the worker's queue; locale \<open>request_server\<close>), \<open>V3_Service\<close>
    and \<open>Mt_Service\<close>, which interpret it, \<open>V2_Service\<close> for the echo server, with its \<open>main\<close>. \<open>Catch_Up\<close>: the steps
    a server owes its clients (\<open>due\<close>), the measure \<open>work_left\<close> that bounds them, and the locale \<open>draining_server\<close>,
    which extends \<open>request_server\<close>; \<open>V3_Uptime\<close> and \<open>Mt_Uptime\<close> interpret it, and show which clients cannot end the
    two servers. \<open>Attendance\<close>: which operations are outstanding for a session, and sessions nothing is heard of.
  \<^item> Whole processes: \<open>V3_Process\<close> and \<open>Mt_Process\<close> (\<open>main.cpp\<close> of two servers): the threads, the signals and the
    order of the shutdown, down to the destructors after \<open>main\<close>, as step relations.
  \<^item> \<open>Clients\<close>: what the clients build and parse; \<open>Client_Threads\<close>: the clients as processes (\<open>SyncClient.cpp\<close> and
    the two \<open>main.cpp\<close> of the JSON clients). \<open>Round_Trip\<close>: a JSON client and a server in turn. \<open>Samples\<close>: the
    concrete instances at which the theorems below are applied.

  \<^bold>\<open>State and operations.\<close> A class is a record of its data members, a subclass a record extension, a method a
  function that returns its effects in program order (\<open>effect\<close>: the asynchronous operations it starts, what
  it posts, the calls to the server) and its outcome (\<open>Returned\<close> or \<open>Raised\<close> a \<open>fault\<close>). A \<open>shared_ptr\<close> to a
  session is the session's uuid. An exception is a fault like undefined behaviour, but only exceptions are
  caught where the code catches. A read loop is one function for one iteration, cut at the branches of the
  code, and a recursion over the iterations whose termination is proved from the bytes left; no fuel is
  needed anywhere, and \<open>v3_worker_run\<close> counts turns of the worker, with the number that is enough in its
  theorem. What asio does is in the way the functions are called: a read completes with 1 to 2048 bytes
  and only if one is outstanding, a write completes only if one is outstanding, handlers of one session
  do not overlap. Threads are interleavings of steps cut where a mutex is taken or given back.

  The steps of a whole server are events: an accept or an operation of a session completes, a read handler
  pushes its next message, the worker takes one. What the network does is which events come; a theorem
  holds for every list of them. Progress is stated by the steps that are due, each of which lowers a measure:
  a message is worth three (push, turn, write), one in the worker's queue two, a queued frame one; so any
  run of due steps is bounded by the measure, whatever the scheduler prefers. A process ends by a
  \<open>process_end\<close>, after which it has no step.

  \<^bold>\<open>What the theorems below show.\<close> Whole servers: every client is answered in order
  from its own messages, under any interleaving, and what exactly ends a server; where clients are
  harmless a server stays up, and has answered everything after boundedly many due steps. A session that
  has not been cleared is always reading (in the multi-threaded server, unless a handler has caught an
  exception); in the other two these are the sessions in the map, in the multi-threaded one the map may
  also keep a cleared session for good. Receiving: every connection refines the byte machine, so
  fragmentation is invisible and frames arrive once, whole and in order; which headers are refused, and
  what negative lengths do. Sending: the queue is a bounded channel in order, with one write at a time.
  The logic system handles messages in order, a greeting by one call of \<open>Send\<close>, and loses no
  wake-up, except in its destructor. Clients: a JSON client stays in lockstep with its server, the echo
  client is refused. Registries and pools. Processes: they shut down in order, and can always come to an
  end after a signal, each beside the cases in which the code fails: messages left for after
  \<open>main\<close>, a signal between test and wait.

  \<^bold>\<open>Not modelled.\<close> asio itself, the JSON library and the uuid generator are
  parameters or calling conventions; failures of \<open>_socket.close()\<close>, allocation failure,
  pauses and console output other than the raw-data trace, the text printed of a sent node and the
  replies clients print are left out. Lifetimes are modelled where the processes end (the
  \<open>io_context\<close>, the pool and its threads), not for sessions and nodes: that
  \<open>shared_ptr\<close> keeps a session as long as an operation or a message refers to it is taken
  for granted, and its destructor, which only prints, has no step. \<open>Server/test.cpp\<close> prints
  a value of the platform. Accessors (\<open>GetSocket\<close>, \<open>GetUuid\<close>) are the fields
  they return; \<open>SharedSelf\<close> is the session. Data races on \<open>_b_stop\<close> and
  \<open>is_server_terminated\<close>, and the concurrent use of a socket by the worker and a network
  thread, are modelled as atomic accesses.
\<close>

section \<open>The whole servers\<close>

text \<open>C1: \<open>Server-version-3\<close> as a whole, with any number of clients and any interleaving of accepts, completions,
  pushes and turns of the worker: every client gets exactly the answers to a first part of its own messages,
  in order and never those to another's; all of that part while it has at most 1001 messages, and it is
  all its messages once nothing of it is queued. The server's map holds the sessions that were not cleared.\<close>

theorem v3_server_answers:
  assumes P: "network_order P" and inj: "inj gen" and sized: "events_sized es"
    and up: "down (foldl (v3_serve P J gen junk) v3_started es) = None"
  defines "st \<equiv> foldl (v3_serve P J gen junk) v3_started es"
  shows "(\<forall>u c. conns st u = Some c \<longrightarrow> answered (v3_answer J) st u c) \<and>
    (\<forall>k. sessions (reg st) (gen k) = Some k \<longleftrightarrow> serving st (gen k))"
proof -
  have "reg_ok gen st" "request_server.service_ok (v3_answer J) st"
    using v3_run_ok [OF P inj sized up] by (simp_all add: st_def)
  then show ?thesis
    using service_answered [OF v3_request_server [OF P, of J]] unfolding reg_ok_def by blast
qed

theorem v3_server_answers_witness:
  "let st = foldl (v3_serve x86_host sample_json numbered no_junk) v3_started sample_run
   in (\<forall>u c. conns st u = Some c \<longrightarrow> answered (v3_answer sample_json) st u c) \<and>
     (\<forall>k. sessions (reg st) (numbered k) = Some k \<longleftrightarrow> serving st (numbered k))"
  unfolding Let_def
  by (rule v3_server_answers [OF x86.network_order_axioms inj_numbered sample_run_sized sample_run_up])

text \<open>C2: clients that send neither a negative length nor a request whose callback throws cannot end
  \<open>Server-version-3\<close>, whatever else they send, however it is cut, and whatever the interleaving.\<close>

theorem v3_server_stays_up:
  assumes "network_order P" "inj gen" "events_sized es" "\<And>k. harmless J (client_bytes 0 k es)"
  shows "down (foldl (v3_serve P J gen junk) v3_started es) = None"
  using v3_stays_up [OF assms] by blast

theorem v3_server_stays_up_witness:
  "down (foldl (v3_serve x86_host sample_json numbered no_junk) v3_started
    [Accept False, On 0 (Got [3, 233, 0]), Accept True, On 0 (Got [2, 104, 105, 8]), Push 0, Work, On 0 (Got [1, 0, 0])]) = None"
proof (rule v3_server_stays_up [OF x86.network_order_axioms inj_numbered])
  fix k
  show "harmless sample_json (client_bytes 0 k
    [Accept False, On 0 (Got [3, 233, 0]), Accept True, On 0 (Got [2, 104, 105, 8]), Push 0, Work, On 0 (Got [1, 0, 0])])"
    by (simp add: harmless_def eval_dec v3_fatal_message_def v3_hello_reply_def sample_json_def member_int_def
        member_string_def bytes_of_def)
qed (simp add: events_sized_def sized_def chunk_ok_def)

text \<open>C3: what ends \<open>Server-version-3\<close>, for all its clients: a completed read that makes the stream of one
  client announce a negative length, or a message whose callback throws; and such a read always does.\<close>

theorem v3_server_ends:
  assumes P: "network_order P" and inj: "inj gen" and sized: "events_sized (es @ [e])"
    and up: "down (foldl (v3_serve P J gen junk) v3_started es) = None"
  defines "st \<equiv> foldl (v3_serve P J gen junk) v3_started es"
  shows "(\<forall>f. down (v3_serve P J gen junk st e) = Some f \<longrightarrow>
      (\<exists>k chunk c. e = On k (Got chunk) \<and> conns st (gen k) = Some c \<and>
         fst (v3_spec (Head []) (received c @ chunk)) = Crashed f) \<or>
      (\<exists>nd rest. e = Work \<and> logic_que st = nd # rest \<and> v3_fatal_message J (msg_of nd))) \<and>
    (\<forall>k chunk c f. e = On k (Got chunk) \<and> conns st (gen k) = Some c \<and> read_pending c \<and>
       fst (v3_spec (Head []) (received c @ chunk)) = Crashed f \<longrightarrow>
       down (v3_serve P J gen junk st e) = Some f \<and>
       (\<forall>es'. foldl (v3_serve P J gen junk) (v3_serve P J gen junk st e) es' = v3_serve P J gen junk st e))"
proof -
  have es: "events_sized es" and e: "\<And>k ne. e = On k ne \<Longrightarrow> sized ne" using sized by (simp_all add: events_sized_def)
  have ok: "request_server.service_ok (v3_answer J) st" and st: "down st = None"
    using v3_run_ok(2) [OF P inj es up] up by (simp_all add: st_def)
  have stays: "foldl (v3_serve P J gen junk) st' es' = st'" if "down st' \<noteq> None" for st' es'
    using that by (induction es') (auto simp: v3_serve_def)
  have crash: "down (v3_serve P J gen junk st e) = Some f"
    if "e = On k (Got chunk)" "conns st (gen k) = Some c" "read_pending c"
      "fst (v3_spec (Head []) (received c @ chunk)) = Crashed f" for k chunk c f
  proof -
    have "chunk_ok chunk" using e [OF that(1)] by (simp add: sized_def)
    with that P ok st show ?thesis using v3_crash_ends_server [where st = st and gen = gen and k = k and c = c] by blast
  qed
  have ends: "(\<exists>k chunk c. e = On k (Got chunk) \<and> conns st (gen k) = Some c \<and>
         fst (v3_spec (Head []) (received c @ chunk)) = Crashed f) \<or>
      (\<exists>nd rest. e = Work \<and> logic_que st = nd # rest \<and> v3_fatal_message J (msg_of nd))"
    if "down (v3_serve P J gen junk st e) = Some f" for f
    by (rule v3_goes_down [OF P ok e st that])
  show ?thesis
    using crash stays [of "v3_serve P J gen junk st e"] ends by (intro conjI allI impI) (blast | simp)+
qed

theorem v3_server_ends_witness:
  "let st = foldl (v3_serve x86_host sample_json numbered no_junk) v3_started [Accept False];
       e = On 0 (Got [3, 233, 255, 254])
   in (\<forall>f. down (v3_serve x86_host sample_json numbered no_junk st e) = Some f \<longrightarrow>
      (\<exists>k chunk c. e = On k (Got chunk) \<and> conns st (numbered k) = Some c \<and>
         fst (v3_spec (Head []) (received c @ chunk)) = Crashed f) \<or>
      (\<exists>nd rest. e = Work \<and> logic_que st = nd # rest \<and> v3_fatal_message sample_json (msg_of nd))) \<and>
    (\<forall>k chunk c f. e = On k (Got chunk) \<and> conns st (numbered k) = Some c \<and> read_pending c \<and>
       fst (v3_spec (Head []) (received c @ chunk)) = Crashed f \<longrightarrow>
       down (v3_serve x86_host sample_json numbered no_junk st e) = Some f \<and>
       (\<forall>es'. foldl (v3_serve x86_host sample_json numbered no_junk)
          (v3_serve x86_host sample_json numbered no_junk st e) es' =
          v3_serve x86_host sample_json numbered no_junk st e))"
  unfolding Let_def
proof (rule v3_server_ends [OF x86.network_order_axioms inj_numbered])
  obtain c where "idle_conn numbered 0 (v3_serve x86_host sample_json numbered no_junk v3_started (Accept False)) c"
    using v3_accept_idle by blast
  then show "down (foldl (v3_serve x86_host sample_json numbered no_junk) v3_started [Accept False]) = None"
    by (simp add: idle_conn_def)
qed (simp add: events_sized_def sized_def chunk_ok_def)

text \<open>C4: \<open>Server-version-3\<close> catches up. After any run in which its clients sent nothing harmful, only boundedly many
  steps can be due one after the other (pushes of messages, turns of the worker, completions of writes), they
  lead to a state in which nothing is due, and there every client that is still served has the answers to all
  it has sent, in order, on its connection: all of them while it sent at most 1001 messages.\<close>

theorem v3_server_catches_up:
  fixes J :: "'j json" and junk
  assumes P: "network_order P" and inj: "inj gen" and sized: "events_sized es"
    and good: "\<And>k. harmless J (client_bytes 0 k es)"
  defines "st \<equiv> foldl (v3_serve P J gen junk) v3_started es" and "serve \<equiv> v3_serve P J gen junk"
  shows "(\<forall>owed. due_run serve (due gen) st owed \<longrightarrow> length owed \<le> work_left gen (next_object (reg st)) st) \<and>
    (\<exists>owed. due_run serve (due gen) st owed \<and> (\<forall>e. \<not> due gen (foldl serve st owed) e)) \<and>
    (\<forall>owed k c. due_run serve (due gen) st owed \<and> (\<forall>e. \<not> due gen (foldl serve st owed) e) \<and>
       conns st (gen k) = Some c \<and> \<not> cleared c \<longrightarrow>
       (\<exists>c'. conns (foldl serve st owed) (gen k) = Some c' \<and> received c' = received c \<and> all_answered (v3_answer J) c'))"
proof -
  have "v3_harmless_state P J gen junk st" using sized good by (auto simp: v3_harmless_state_def st_def)
  from v3_catches_up [OF P inj this] show ?thesis unfolding serve_def by blast
qed

theorem v3_server_catches_up_witness:
  "\<exists>owed c. due_run (v3_serve x86_host sample_json numbered no_junk) (due numbered)
      (foldl (v3_serve x86_host sample_json numbered no_junk) v3_started sample_arrived) owed \<and>
    conns (foldl (v3_serve x86_host sample_json numbered no_junk)
      (foldl (v3_serve x86_host sample_json numbered no_junk) v3_started sample_arrived) owed) (numbered 0) = Some c \<and>
    on_tcp c = [frame 1001 sample_reply]"
proof -
  note up = v3_server_catches_up [OF x86.network_order_axioms inj_numbered sample_arrived_ok(1,2), where junk = no_junk]
  obtain owed where owed: "due_run (v3_serve x86_host sample_json numbered no_junk) (due numbered)
      (foldl (v3_serve x86_host sample_json numbered no_junk) v3_started sample_arrived) owed"
    "\<forall>e. \<not> due numbered (foldl (v3_serve x86_host sample_json numbered no_junk)
      (foldl (v3_serve x86_host sample_json numbered no_junk) v3_started sample_arrived) owed) e"
    using up by blast
  obtain c where c: "conns (foldl (v3_serve x86_host sample_json numbered no_junk)
      (foldl (v3_serve x86_host sample_json numbered no_junk) v3_started sample_arrived) owed) (numbered 0) = Some c"
    "received c = sample_request" "all_answered (v3_answer sample_json) c"
    using up owed sample_arrived_ok(3) by metis
  have "on_tcp c = [frame 1001 sample_reply]"
    using c(3) by (simp add: all_answered_def sample_messages [OF c(2)] sample_frames)
  with owed(1) c(1) show ?thesis by blast
qed

text \<open>C5: the multi-threaded server as a whole answers its clients in the same way, whatever the threads of its
  pool, the accept thread and the worker interleave to; a session that was not cleared is in the map, or
  the accept thread is about to insert it.\<close>

theorem mt_server_answers:
  assumes P: "network_order P" and inj: "inj gen" and sized: "mt_events_sized es"
    and up: "down (foldl (mt_serve P J gen junk) (mt_started n) es) = None"
  defines "st \<equiv> foldl (mt_serve P J gen junk) (mt_started n) es"
  shows "(\<forall>u c. conns st u = Some c \<longrightarrow> answered (mt_answer J) st u c) \<and>
    (\<forall>k. serving st (gen k) \<longrightarrow> sessions (reg st) (gen k) = Some k \<or> acceptor_at (reg st) = Inserting k)"
proof -
  have reg: "mt_reg_ok n gen st" and ok: "request_server.service_ok (mt_answer J) st"
    using mt_run_ok [OF P inj sized up] by (simp_all add: st_def)
  then have "tracked gen (reg st)" using tracked_reachable [OF inj] unfolding mt_reg_ok_def by blast
  with reg have "sessions (reg st) (gen k) = Some k \<or> acceptor_at (reg st) = Inserting k" if "serving st (gen k)" for k
    using that unfolding mt_reg_ok_def tracked_def by blast
  with service_answered [OF mt_request_server [OF P, of J] ok] show ?thesis by blast
qed

theorem mt_server_answers_witness:
  "let st = foldl (mt_serve x86_host sample_json numbered no_junk) (mt_started 2) sample_mt_run
   in (\<forall>u c. conns st u = Some c \<longrightarrow> answered (mt_answer sample_json) st u c) \<and>
     (\<forall>k. serving st (numbered k) \<longrightarrow> sessions (reg st) (numbered k) = Some k \<or> acceptor_at (reg st) = Inserting k)"
  unfolding Let_def
  by (rule mt_server_answers [OF x86.network_order_axioms inj_numbered sample_mt_run_ok])

text \<open>C6: an exception in a handler of the multi-threaded server stays in its connection: a completion ends the
  process only by undefined behaviour, and only when the stream of that connection announces a negative
  length.\<close>

theorem mt_exceptions_isolated:
  assumes P: "network_order P" and inj: "inj gen" and sized: "mt_events_sized (es @ [Mt_Event (On k ne)])"
    and up: "down (foldl (mt_serve P J gen junk) (mt_started n) es) = None"
    and dn: "down (foldl (mt_serve P J gen junk) (mt_started n) (es @ [Mt_Event (On k ne)])) = Some f"
  shows "\<not> is_exception f \<and> (\<exists>chunk c. ne = Got chunk \<and>
    conns (foldl (mt_serve P J gen junk) (mt_started n) es) (gen k) = Some c \<and>
    fst (v3_spec (Head []) (received c @ chunk)) = Crashed f)"
proof -
  have "mt_events_sized es" "sized ne" using sized by (simp_all add: mt_events_sized_def)
  with mt_isolates_exceptions [OF P mt_run_ok(2) [OF P inj _ up] _ up] dn show ?thesis by fastforce
qed

theorem mt_exceptions_isolated_witness:
  "\<not> is_exception Out_Of_Bounds \<and> (\<exists>chunk c. Got [3, 233, 255, 255, 0] = Got chunk \<and>
    conns (foldl (mt_serve x86_host sample_json numbered no_junk) (mt_started 2) [Mt_Event (Accept False)]) (numbered 0) = Some c \<and>
    fst (v3_spec (Head []) (received c @ chunk)) = Crashed Out_Of_Bounds)"
  by (rule mt_exceptions_isolated [OF x86.network_order_axioms inj_numbered _ sample_mt_crash])
    (simp add: mt_events_sized_def sized_def chunk_ok_def)

text \<open>C7: clients that announce no length of exactly \<open>-1\<close> and send no request whose callback throws cannot end
  the multi-threaded server, on a pool with at least one context, whatever else they send (other negative
  lengths included) and whatever its threads interleave to.\<close>

theorem mt_server_stays_up:
  assumes "network_order P" "inj gen" "0 < n" "mt_events_sized es"
    "\<And>k. mt_harmless J (delivered P J gen junk k (mt_started n) es)"
  shows "down (foldl (mt_serve P J gen junk) (mt_started n) es) = None"
  using mt_stays_up [OF assms] by blast

theorem mt_server_stays_up_witness:
  "down (foldl (mt_serve x86_host sample_json numbered no_junk) (mt_started 2) sample_mt_arrived) = None"
  by (rule mt_server_stays_up [OF x86.network_order_axioms inj_numbered _ sample_mt_arrived_ok(1,2)]) simp

text \<open>C8: the multi-threaded server catches up in the same way: due steps come to an end, and where none is due
  every client that is still served has all its answers.\<close>

theorem mt_server_catches_up:
  fixes J :: "'j json" and junk
  assumes P: "network_order P" and inj: "inj gen" and n: "0 < n" and sized: "mt_events_sized es"
    and good: "\<And>k. mt_harmless J (delivered P J gen junk k (mt_started n) es)"
  defines "st \<equiv> foldl (mt_serve P J gen junk) (mt_started n) es"
    and "serve \<equiv> \<lambda>st e. mt_serve P J gen junk st (Mt_Event e)"
  shows "(\<forall>owed. due_run serve (due gen) st owed \<longrightarrow> length owed \<le> work_left gen (next_object (reg st)) st) \<and>
    (\<exists>owed. due_run serve (due gen) st owed \<and> (\<forall>e. \<not> due gen (foldl serve st owed) e)) \<and>
    (\<forall>owed k c. due_run serve (due gen) st owed \<and> (\<forall>e. \<not> due gen (foldl serve st owed) e) \<and>
       conns st (gen k) = Some c \<and> \<not> cleared c \<longrightarrow>
       (\<exists>c'. conns (foldl serve st owed) (gen k) = Some c' \<and> received c' = received c \<and> all_answered (mt_answer J) c'))"
proof -
  have "mt_harmless_state P J n gen junk st" using sized good by (auto simp: mt_harmless_state_def st_def)
  from mt_catches_up [OF P inj n this] show ?thesis unfolding serve_def by blast
qed

theorem mt_server_catches_up_witness:
  "let serve = mt_serve x86_host sample_json numbered no_junk;
       st = foldl serve (mt_started 2) sample_mt_arrived
   in \<exists>owed c. due_run (\<lambda>st e. serve st (Mt_Event e)) (due numbered) st owed \<and>
    conns (foldl (\<lambda>st e. serve st (Mt_Event e)) st owed) (numbered 0) = Some c \<and> on_tcp c = [frame 1001 sample_mt_reply]"
  unfolding Let_def
proof -
  let ?serve = "\<lambda>st e. mt_serve x86_host sample_json numbered no_junk st (Mt_Event e)"
    and ?st = "foldl (mt_serve x86_host sample_json numbered no_junk) (mt_started 2) sample_mt_arrived"
  have "0 < (2 :: nat)" by simp
  note up = mt_server_catches_up [OF x86.network_order_axioms inj_numbered this sample_mt_arrived_ok(1,2)]
  obtain owed where owed: "due_run ?serve (due numbered) ?st owed" "\<forall>e. \<not> due numbered (foldl ?serve ?st owed) e"
    using up by blast
  obtain c where c: "conns (foldl ?serve ?st owed) (numbered 0) = Some c" "received c = sample_request"
    "all_answered (mt_answer sample_json) c"
    using up owed sample_mt_arrived_ok(3) by metis
  have "on_tcp c = [frame 1001 sample_mt_reply]"
    using c(3) by (simp add: all_answered_def sample_messages [OF c(2)] sample_frames)
  with owed(1) c(1) show "\<exists>owed c. due_run ?serve (due numbered) ?st owed \<and>
      conns (foldl ?serve ?st owed) (numbered 0) = Some c \<and> on_tcp c = [frame 1001 sample_mt_reply]" by blast
qed

text \<open>C9: the echo server as a whole: every client gets back its own messages and only these, in order, each as a
  frame whose header is two zero bytes; all of them while there are at most 1001. They have all left
  the server where no write is outstanding and the session has not been cleared. The map holds the sessions that were not cleared.\<close>

theorem v2_server_echoes:
  assumes P: "network_order P" and inj: "inj gen" and sized: "echo_events_sized es"
    and up: "down (foldl (v2_serve P gen junk) v2_started es) = None"
  defines "st \<equiv> foldl (v2_serve P gen junk) v2_started es"
  shows "(\<forall>u c. conns st u = Some c \<longrightarrow> subseq (v2_backlog c) (map v2_frame (v2_messages c)) \<and>
      (length (v2_messages c) \<le> 1001 \<longrightarrow> v2_backlog c = map v2_frame (v2_messages c)) \<and>
      (write_pending c = None \<and> \<not> cleared c \<longrightarrow> on_tcp c = v2_backlog c)) \<and>
    (\<forall>k. sessions (reg st) (gen k) = Some k \<longleftrightarrow> serving st (gen k))"
proof -
  have ok: "v2_service_ok gen st" using v2_run_ok [OF P inj sized up] by (simp add: st_def)
  have "on_tcp c = v2_backlog c" if "conns st u = Some c" "write_pending c = None" "\<not> cleared c" for u c
  proof -
    have "v2_ep.ep_ok c" using ok that(1) by (auto simp: v2_service_ok_def echo_ok_def)
    with that(2,3) show ?thesis by (simp add: v2_ep.ep_ok_def v2_backlog_def)
  qed
  with ok show ?thesis by (auto simp: v2_service_ok_def echo_ok_def reg_ok_def)
qed

theorem v2_server_echoes_witness:
  "let st = foldl (v2_serve x86_host numbered no_junk) v2_started sample_echo_run
   in (\<forall>u c. conns st u = Some c \<longrightarrow> subseq (v2_backlog c) (map v2_frame (v2_messages c)) \<and>
        (length (v2_messages c) \<le> 1001 \<longrightarrow> v2_backlog c = map v2_frame (v2_messages c)) \<and>
        (write_pending c = None \<and> \<not> cleared c \<longrightarrow> on_tcp c = v2_backlog c)) \<and>
      (\<forall>k. sessions (reg st) (numbered k) = Some k \<longleftrightarrow> serving st (numbered k))"
  unfolding Let_def
  by (rule v2_server_echoes [OF x86.network_order_axioms inj_numbered sample_echo_run_ok])

text \<open>C10: no session that is served is left behind. In the echo server and in \<open>Server-version-3\<close> every session in
  the map has a read outstanding, so that its client is heard, or its leaving noticed; if frames are queued,
  the write of the first is outstanding. In the multi-threaded server the same holds of every session that
  has not been cleared, except that a session may have no read outstanding because a handler has caught an
  exception that the bytes of its client cause.\<close>

theorem no_session_left_behind:
  fixes J :: "'j json" and junk n
  assumes P: "network_order P" and inj: "inj gen"
    and sized: "events_sized es" "mt_events_sized ms" "echo_events_sized os"
    and up: "down (foldl (v3_serve P J gen junk) v3_started es) = None"
      "down (foldl (mt_serve P J gen junk) (mt_started n) ms) = None"
      "down (foldl (v2_serve P gen junk) v2_started os) = None"
  defines "a \<equiv> foldl (v3_serve P J gen junk) v3_started es" and "b \<equiv> foldl (mt_serve P J gen junk) (mt_started n) ms"
    and "c \<equiv> foldl (v2_serve P gen junk) v2_started os"
  shows "(\<forall>k. sessions (reg a) (gen k) = Some k \<longrightarrow>
      (\<exists>x. conns a (gen k) = Some x \<and> read_pending x \<and> in_order x (v3_queue (ep_sess x)))) \<and>
    (\<forall>k. sessions (reg c) (gen k) = Some k \<longrightarrow>
      (\<exists>x. conns c (gen k) = Some x \<and> read_pending x \<and> in_order x (v2_queue (ep_sess x)))) \<and>
    (\<forall>k x. conns b (gen k) = Some x \<and> \<not> cleared x \<longrightarrow>
      (read_pending x \<or> (\<exists>f. fst (v3_spec (Head []) (received x)) = Crashed f \<and> is_exception f)) \<and>
      in_order x (v3_queue (ep_sess x)))"
proof (intro conjI allI impI)
  show "\<exists>x. conns a (gen k) = Some x \<and> read_pending x \<and> in_order x (v3_queue (ep_sess x))"
    if "sessions (reg a) (gen k) = Some k" for k
    using v3_sessions_attended [OF P inj sized(1) up(1)] that by (simp add: a_def)
  show "\<exists>x. conns c (gen k) = Some x \<and> read_pending x \<and> in_order x (v2_queue (ep_sess x))"
    if "sessions (reg c) (gen k) = Some k" for k
    using v2_sessions_attended [OF P inj sized(3) up(3)] that by (simp add: c_def)
  show "read_pending x \<or> (\<exists>f. fst (v3_spec (Head []) (received x)) = Crashed f \<and> is_exception f)"
    "in_order x (v3_queue (ep_sess x))"
    if "conns b (gen k) = Some x \<and> \<not> cleared x" for k x
    using mt_sessions_attended [OF P inj sized(2) up(2)] that by (auto simp: b_def)
qed

theorem no_session_left_behind_witness:
  "let a = foldl (v3_serve x86_host sample_json numbered no_junk) v3_started sample_run;
      b = foldl (mt_serve x86_host sample_json numbered no_junk) (mt_started 2) sample_mt_run;
      c = foldl (v2_serve x86_host numbered no_junk) v2_started sample_echo_run
   in (\<forall>k. sessions (reg a) (numbered k) = Some k \<longrightarrow>
      (\<exists>x. conns a (numbered k) = Some x \<and> read_pending x \<and> in_order x (v3_queue (ep_sess x)))) \<and>
    (\<forall>k. sessions (reg c) (numbered k) = Some k \<longrightarrow>
      (\<exists>x. conns c (numbered k) = Some x \<and> read_pending x \<and> in_order x (v2_queue (ep_sess x)))) \<and>
    (\<forall>k x. conns b (numbered k) = Some x \<and> \<not> cleared x \<longrightarrow>
      (read_pending x \<or> (\<exists>f. fst (v3_spec (Head []) (received x)) = Crashed f \<and> is_exception f)) \<and>
      in_order x (v3_queue (ep_sess x)))"
  unfolding Let_def
  using no_session_left_behind [OF x86.network_order_axioms inj_numbered sample_run_sized sample_mt_run_ok(1)
      sample_echo_run_ok(1) sample_run_up sample_mt_run_ok(2) sample_echo_run_ok(2)] by blast

text \<open>C11: a JSON client and \<open>Server-version-3\<close> together, on a little-endian host: in every round of a request, a
  push, a turn of the worker and a completed write the client gets its reply, however many rounds there are.
  What the server has received is what the client has sent, what it has written is what the client reads,
  and after its last turn the client leaves its loop.\<close>

theorem client_server_lockstep:
  fixes gen :: "nat \<Rightarrow> string" and junk :: "nat \<Rightarrow> byte list"
  assumes P: "network_order P" "endianness P = Little_Endian"
    and request: "length (json_styled J root) \<le> 2044" "json_request P (json_styled J root) = Inr bytes"
    and reply: "v3_hello_reply J (json_styled J root) = Inr (reply, i)" "length reply \<le> 2048"
    and printed: "json_show J root reply = Inr shown" and m: "m \<le> turns"
  defines "st \<equiv> foldl (v3_serve P J gen junk) v3_started (Accept False # v3_rounds m 0 bytes)"
    and "client \<equiv> json_client_run P J root turns
      (Connect_Done False # concat (replicate m (client_round (frame i reply))))"
  shows "(\<exists>c. idle_conn gen 0 st c \<and> received c = jc_sent client \<and> on_tcp c = replicate m (frame i reply)) \<and>
    jc_shown client = replicate m shown \<and> jc_unread client = [] \<and>
    jc_at client = (if m < turns then Requesting else Gone Turns_Done)"
proof -
  have bytes: "bytes = frame (short_of_int MSG_HELLO_WORD) (json_styled J root)"
    using json_request_frame [OF P request(1)] request(2) by simp
  then have "chunk_ok bytes" using request(1) by (simp add: chunk_ok_def frame_def)
  moreover have "v3_spec (Head []) bytes = (Head [], [(short_of_int MSG_HELLO_WORD, json_styled J root)])"
    using v3_run_frames [of "[(short_of_int MSG_HELLO_WORD, json_styled J root)]"] request(1)
    by (simp add: bytes sint_short_of_int)
  ultimately obtain c where "idle_conn gen 0 st c" "received c = concat (replicate m bytes)"
    "on_tcp c = replicate m (frame i reply)"
    using v3_rounds_ok [OF P(1) _ _ reply, of bytes gen junk m] by (auto simp: st_def)
  then show ?thesis
    using client_rounds [OF P request(2) reply(2) printed m, of i] by (auto simp: client_def next_turn_def)
qed

theorem client_server_lockstep_witness:
  "let st = foldl (v3_serve x86_host sample_json numbered no_junk) v3_started (Accept False # v3_rounds 2 0 sample_request);
       client = json_client_run x86_host sample_json [104, 105] 2
         (Connect_Done False # concat (replicate 2 (client_round (frame 1001 sample_reply))))
   in (\<exists>c. idle_conn numbered 0 st c \<and> received c = jc_sent client \<and> on_tcp c = replicate 2 (frame 1001 sample_reply)) \<and>
     jc_shown client = replicate 2 (sample_reply, sample_reply) \<and> jc_unread client = [] \<and>
     jc_at client = (if 2 < (2 :: nat) then Requesting else Gone Turns_Done)"
  unfolding Let_def
proof (rule client_server_lockstep [OF x86.network_order_axioms])
  show le: "endianness x86_host = Little_Endian" by (simp add: x86_host_def)
  show "json_request x86_host (json_styled sample_json [104, 105]) = Inr sample_request"
    using json_request_frame [OF x86.network_order_axioms le, of "[104, 105]"]
    by (simp add: sample_json_def sample_request_def eval_frame)
  show "v3_hello_reply sample_json (json_styled sample_json [104, 105]) = Inr (sample_reply, 1001)"
    using sample_hello(1) by (simp add: sample_json_def)
  show "json_show sample_json [104, 105] sample_reply = Inr (sample_reply, sample_reply)"
    by (simp add: json_show_def sample_json_def sample_reply_def bytes_of_def)
qed (simp_all add: sample_hello(2), simp add: sample_json_def)

text \<open>C12: the sessions of all three servers are well-formed from their construction on: each completed or failed
  operation keeps the representation invariant of the session and of the operations outstanding for it, or
  ends in one of the two faults of a negative length; and each call of \<open>Send\<close> with a message that fits a node
  keeps it: its length is not negative, lies within the caller's buffer, and is at most 32763, or 32764 in the
  echo server (in the two others, after the conversion to \<open>short\<close> has taken it modulo \<open>2 ^ 16\<close>).\<close>

theorem sessions_stay_well_formed:
  assumes P: "network_order P" and e: "\<And>chunk. e = Got chunk \<Longrightarrow> chunk_ok chunk"
    and c: "v3_ep_ok u c" and d: "v2_ep.ep_ok d"
    and a: "call_ok a" "call_ok (as_send_call b)" "n \<le> 32764" "n \<le> length msg"
  shows "kept_or_crashed (v3_ep_ok u) (v3_event P c e) \<and> kept_or_crashed (v3_ep_ok u) (mt_event P c e) \<and>
    kept_or_crashed v2_ep.ep_ok (v2_event P d e) \<and>
    v3_ep_ok u (finish_call c (v3_Send P a (ep_sess c))) \<and> v3_ep_ok u (finish_call c (mt_Send P b (ep_sess c))) \<and>
    v2_ep.ep_ok (finish_call d (v2_Send P msg (int n) (ep_sess d))) \<and>
    (\<exists>c0. v3_accepted v junk = Inr c0 \<and> v3_ep_ok v c0) \<and> (\<exists>c0. mt_accepted v junk = Inr c0 \<and> v3_ep_ok v c0) \<and>
    (\<exists>d0. v2_accepted v junk = Inr d0 \<and> v2_ep.ep_ok d0)"
proof (intro conjI)
  show "\<exists>c0. v3_accepted v junk = Inr c0 \<and> v3_ep_ok v c0" using v3_accepted_ok by blast
  then show "\<exists>c0. mt_accepted v junk = Inr c0 \<and> v3_ep_ok v c0" by (simp add: mt_accepted_eq)
  show "\<exists>d0. v2_accepted v junk = Inr d0 \<and> v2_ep.ep_ok d0" using v2_accepted_ok by blast
  show "v2_ep.ep_ok (finish_call d (v2_Send P msg (int n) (ep_sess d)))"
    using v2_Send_kept [OF P d, of "(msg, n)"] a(3,4) by (simp add: v2_call_def v2_call_ok_def)
qed (rule v3_event_kept [OF P c e] mt_event_kept [OF P c e] v2_event_kept [OF P d e]
    Send_kept(1) [OF P c a(1)] Send_kept(2) [OF P c a(2)], assumption?)+

theorem sessions_stay_well_formed_witness:
  "let c = projr (v3_accepted ''s'' []); d = projr (v2_accepted ''s'' []); e = Got [3, 233, 0]
   in kept_or_crashed (v3_ep_ok ''s'') (v3_event x86_host c e) \<and> kept_or_crashed (v3_ep_ok ''s'') (mt_event x86_host c e) \<and>
    kept_or_crashed v2_ep.ep_ok (v2_event x86_host d e) \<and>
    v3_ep_ok ''s'' (finish_call c (v3_Send x86_host (Send_String [104] 7) (ep_sess c))) \<and>
    v3_ep_ok ''s'' (finish_call c (mt_Send x86_host (Mt_String [104] 7) (ep_sess c))) \<and>
    v2_ep.ep_ok (finish_call d (v2_Send x86_host [104, 105] (int 2) (ep_sess d))) \<and>
    (\<exists>c0. v3_accepted ''t'' [] = Inr c0 \<and> v3_ep_ok ''t'' c0) \<and> (\<exists>c0. mt_accepted ''t'' [] = Inr c0 \<and> v3_ep_ok ''t'' c0) \<and>
    (\<exists>d0. v2_accepted ''t'' [] = Inr d0 \<and> v2_ep.ep_ok d0)"
  unfolding Let_def
proof (rule sessions_stay_well_formed [OF x86.network_order_axioms])
  show "v3_ep_ok ''s'' (projr (v3_accepted ''s'' []))" using v3_accepted_ok [of "''s''" "[]"] by auto
  show "v2_ep.ep_ok (projr (v2_accepted ''s'' []))" using v2_accepted_ok [of "''s''" "[]"] by auto
qed (simp_all add: chunk_ok_def)

section \<open>Receiving\<close>

text \<open>C13: from its construction and over any sequence of reads, a connection of \<open>Server-version-3\<close> is in
  the state in which the byte machine is after the concatenated bytes, and has posted to the logic system
  exactly the messages the machine delivers, in order: reads of any size, several messages in one read,
  headers and bodies cut anywhere, refused headers and crashes included.\<close>

theorem v3_connection_refines:
  assumes P: "network_order P" and cs: "\<forall>chunk\<in>set cs. chunk_ok chunk"
    and run: "v3_spec (Head []) (concat cs) = (a, ms)"
  shows "\<exists>c. v3_open u junk = Inr c \<and> v3_conn_abs (foldl (v3_on_read P) c cs) = a \<and>
    state (foldl (v3_on_read P) c cs) = status_of a \<and>
    v3_delivered (foldl (v3_on_read P) c cs) = map (Pair u) ms"
  using v3_open_reads [OF P cs run] by blast

theorem v3_connection_refines_witness:
  "\<exists>c. v3_open ''s'' [] = Inr c \<and> v3_conn_abs (foldl (v3_on_read x86_host) c sample_reads) = Head [] \<and>
    state (foldl (v3_on_read x86_host) c sample_reads) = status_of (Head [] :: short pstate) \<and>
    v3_delivered (foldl (v3_on_read x86_host) c sample_reads) = map (Pair ''s'') [(1001, [104, 105])]"
  by (rule v3_connection_refines [OF x86.network_order_axioms sample_reads_ok])
    (simp add: sample_reads_def eval_dec)

text \<open>C14: the frames of any messages with an id and a length of at most 2048 arrive once each, whole and in
  order, and the connection goes on reading, however TCP cuts the stream.\<close>

theorem v3_frames_delivered:
  assumes P: "network_order P" and cs: "\<forall>chunk\<in>set cs. chunk_ok chunk"
    and ms: "\<forall>m\<in>set ms. sint (fst m) \<le> MAX_LENGTH \<and> length (snd m) \<le> 2048"
    and bytes: "concat cs = concat (map (\<lambda>m. frame (fst m) (snd m)) ms)"
  shows "\<exists>c. v3_open u junk = Inr c \<and> state (foldl (v3_on_read P) c cs) = Reading \<and>
    v3_delivered (foldl (v3_on_read P) c cs) = map (Pair u) ms"
proof -
  have "v3_spec (Head []) (concat cs) = (Head [], ms)" using v3_run_frames [OF ms] bytes by simp
  then show ?thesis by (rule v3_open_reads [OF P cs, of _ _ u junk]) auto
qed

theorem v3_frames_delivered_witness:
  "\<exists>c. v3_open ''s'' [] = Inr c \<and>
    state (foldl (v3_on_read x86_host) c [[3, 233, 0, 2, 104], [105, 0, 7, 0], [0]]) = Reading \<and>
    v3_delivered (foldl (v3_on_read x86_host) c [[3, 233, 0, 2, 104], [105, 0, 7, 0], [0]]) =
      map (Pair ''s'') [(1001, [104, 105]), (7, [])]"
  by (rule v3_frames_delivered [OF x86.network_order_axioms])
    (simp_all add: chunk_ok_def eval_frame)

text \<open>C15: how the bytes were cut into reads makes no difference in any of the three servers: two read sequences
  with the same bytes deliver the same messages (\<open>v2\<close>: leave the same queue and have started the same writes)
  and leave the connection in the same state.\<close>

theorem reads_cut_anyhow:
  assumes P: "network_order P" and cs: "\<forall>chunk\<in>set cs. chunk_ok chunk" and ds: "\<forall>chunk\<in>set ds. chunk_ok chunk"
    and same: "concat cs = concat ds"
  shows "(\<exists>c. v3_open u junk = Inr c \<and> v3_delivered (foldl (v3_on_read P) c cs) = v3_delivered (foldl (v3_on_read P) c ds) \<and>
      state (foldl (v3_on_read P) c cs) = state (foldl (v3_on_read P) c ds)) \<and>
    (\<exists>c. mt_open u junk = Inr c \<and> v3_delivered (foldl (mt_on_read P) c cs) = v3_delivered (foldl (mt_on_read P) c ds) \<and>
      state (foldl (mt_on_read P) c cs) = state (foldl (mt_on_read P) c ds)) \<and>
    (\<exists>c. v2_open u junk = Inr c \<and> v2_sent (foldl (v2_on_read P) c cs) = v2_sent (foldl (v2_on_read P) c ds) \<and>
      state (foldl (v2_on_read P) c cs) = state (foldl (v2_on_read P) c ds))"
proof (intro conjI)
  obtain a ms where run: "v3_spec (Head []) (concat cs) = (a, ms)" by fastforce
  with same have run': "v3_spec (Head []) (concat ds) = (a, ms)" by simp
  show "\<exists>c. v3_open u junk = Inr c \<and> v3_delivered (foldl (v3_on_read P) c cs) = v3_delivered (foldl (v3_on_read P) c ds) \<and>
      state (foldl (v3_on_read P) c cs) = state (foldl (v3_on_read P) c ds)"
    by (rule v3_open_reads [OF P cs run, of u junk], rule v3_open_reads [OF P ds run', of u junk]) auto
  show "\<exists>c. mt_open u junk = Inr c \<and> v3_delivered (foldl (mt_on_read P) c cs) = v3_delivered (foldl (mt_on_read P) c ds) \<and>
      state (foldl (mt_on_read P) c cs) = state (foldl (mt_on_read P) c ds)"
    by (rule mt_open_reads [OF P cs run, of u junk], rule mt_open_reads [OF P ds run', of u junk]) auto
next
  obtain a ms where run: "v2_spec (Head []) (concat cs) = (a, ms)" by fastforce
  with same have run': "v2_spec (Head []) (concat ds) = (a, ms)" by simp
  show "\<exists>c. v2_open u junk = Inr c \<and> v2_sent (foldl (v2_on_read P) c cs) = v2_sent (foldl (v2_on_read P) c ds) \<and>
      state (foldl (v2_on_read P) c cs) = state (foldl (v2_on_read P) c ds)"
    by (rule v2_open_reads [OF P cs run, of u junk], rule v2_open_reads [OF P ds run', of u junk]) auto
qed

theorem reads_cut_anyhow_witness:
  "let ds = [[3], [233, 0, 2, 104, 105]] in
    (\<exists>c. v3_open ''s'' [] = Inr c \<and>
      v3_delivered (foldl (v3_on_read x86_host) c sample_reads) = v3_delivered (foldl (v3_on_read x86_host) c ds) \<and>
      state (foldl (v3_on_read x86_host) c sample_reads) = state (foldl (v3_on_read x86_host) c ds)) \<and>
    (\<exists>c. mt_open ''s'' [] = Inr c \<and>
      v3_delivered (foldl (mt_on_read x86_host) c sample_reads) = v3_delivered (foldl (mt_on_read x86_host) c ds) \<and>
      state (foldl (mt_on_read x86_host) c sample_reads) = state (foldl (mt_on_read x86_host) c ds)) \<and>
    (\<exists>c. v2_open ''s'' [] = Inr c \<and>
      v2_sent (foldl (v2_on_read x86_host) c sample_reads) = v2_sent (foldl (v2_on_read x86_host) c ds) \<and>
      state (foldl (v2_on_read x86_host) c sample_reads) = state (foldl (v2_on_read x86_host) c ds))"
  unfolding Let_def
  by (rule reads_cut_anyhow [OF x86.network_order_axioms sample_reads_ok])
    (simp_all add: chunk_ok_def sample_reads_def)

text \<open>C16: a header with an id or a length above \<open>MAX_LENGTH\<close>, at any point of the stream, makes the session
  remove itself from the server and never read again; the messages before it have been posted, nothing
  after it is, and nothing was written.\<close>

theorem v3_refuses_bad_header:
  assumes P: "network_order P" and cs: "\<forall>chunk\<in>set cs. chunk_ok chunk"
    and before: "\<forall>m\<in>set ms. sint (fst m) \<le> MAX_LENGTH \<and> length (snd m) \<le> 2048"
    and bad: "sint msg_id > MAX_LENGTH \<or> sint msg_len > MAX_LENGTH"
    and bytes: "concat cs = concat (map (\<lambda>m. frame (fst m) (snd m)) ms) @
      [high_byte msg_id, low_byte msg_id, high_byte msg_len, low_byte msg_len] @ rest"
  shows "\<exists>c. v3_open u junk = Inr c \<and> state (foldl (v3_on_read P) c cs) = Idle \<and>
    Clear_Session u \<in> set (trace (foldl (v3_on_read P) c cs)) \<and>
    v3_delivered (foldl (v3_on_read P) c cs) = map (Pair u) ms \<and>
    send_que (sess (foldl (v3_on_read P) c cs)) = []"
proof -
  let ?hs = "[high_byte msg_id, low_byte msg_id, high_byte msg_len, low_byte msg_len]"
  have "v3_spec (Head []) ?hs = (Refused, [])"
    using bad by (auto simp: prun_head_full head_done_def v3_dec_def)
  then have "v3_spec (Head []) (?hs @ rest) = (Refused, [])"
    using prun_appendI [of 4 v3_dec "Head []" ?hs Refused "[]" rest] by simp
  then have "v3_spec (Head []) (concat cs) = (Refused, ms)"
    using prun_appendI [OF v3_run_frames [OF before]] by (auto simp: bytes)
  then show ?thesis by (rule v3_open_reads [OF P cs, of _ _ u junk]) (auto simp: v3_quiet_def)
qed

theorem v3_refuses_bad_header_witness:
  "\<exists>c. v3_open ''s'' [] = Inr c \<and> state (foldl (v3_on_read x86_host) c [[0, 7, 0, 0, 8], [1, 0, 0, 1]]) = Idle \<and>
    Clear_Session ''s'' \<in> set (trace (foldl (v3_on_read x86_host) c [[0, 7, 0, 0, 8], [1, 0, 0, 1]])) \<and>
    v3_delivered (foldl (v3_on_read x86_host) c [[0, 7, 0, 0, 8], [1, 0, 0, 1]]) = map (Pair ''s'') [(7, [])] \<and>
    send_que (sess (foldl (v3_on_read x86_host) c [[0, 7, 0, 0, 8], [1, 0, 0, 1]])) = []"
  by (rule v3_refuses_bad_header [OF x86.network_order_axioms, where msg_id = 2049 and msg_len = 0 and rest = "[1]"])
    (simp_all add: chunk_ok_def eval_frame)

text \<open>C17: a negative length is not refused by \<open>Server-version-3\<close>. On a connection that has got any number of valid
  messages and then a header with a valid id and a negative length, in reads of any size, the read handler
  faults: below \<open>-1\<close> by the exception of \<open>new[]\<close> for an invalid length, at \<open>-1\<close> by an access outside a block.\<close>

theorem v3_negative_length_faults:
  assumes P: "network_order P" and cs: "\<forall>chunk\<in>set cs. chunk_ok chunk"
    and before: "\<forall>m\<in>set ms. sint (fst m) \<le> MAX_LENGTH \<and> length (snd m) \<le> 2048"
    and neg: "sint msg_id \<le> MAX_LENGTH" "sint msg_len < 0"
    and bytes: "concat cs = concat (map (\<lambda>m. frame (fst m) (snd m)) ms) @
      [high_byte msg_id, low_byte msg_id, high_byte msg_len, low_byte msg_len] @ rest"
  shows "\<exists>c. v3_open u junk = Inr c \<and>
    state (foldl (v3_on_read P) c cs) =
      Faulted (if sint msg_len = - 1 then Out_Of_Bounds else Bad_Array_New_Length)"
proof -
  let ?hs = "[high_byte msg_id, low_byte msg_id, high_byte msg_len, low_byte msg_len]"
  let ?f = "if sint msg_len = - 1 then Out_Of_Bounds else Bad_Array_New_Length"
  have "v3_spec (Head []) ?hs = (Crashed ?f, [])"
    using neg by (simp add: prun_head_full head_done_def v3_dec_def)
  then have "v3_spec (Head []) (?hs @ rest) = (Crashed ?f, [])"
    using prun_appendI [of 4 v3_dec "Head []" ?hs "Crashed ?f" "[]" rest] by simp
  then have "v3_spec (Head []) (concat cs) = (Crashed ?f, ms)"
    using prun_appendI [OF v3_run_frames [OF before]] by (auto simp: bytes)
  then show ?thesis by (rule v3_open_reads [OF P cs, of _ _ u junk]) auto
qed

theorem v3_negative_length_faults_witness:
  "\<exists>c. v3_open ''s'' [] = Inr c \<and>
    state (foldl (v3_on_read x86_host) c [[3, 233, 255], [254]]) =
      Faulted (if sint (65534 :: short) = - 1 then Out_Of_Bounds else Bad_Array_New_Length)"
  by (rule v3_negative_length_faults [OF x86.network_order_axioms, where msg_id = 1001 and ms = "[]" and rest = "[]"])
    (simp_all add: chunk_ok_def eval_frame)

text \<open>C18: the multi-threaded server reads like the single-threaded one, except that an exception ends the
  read instead of the process: its connection is where the specification of \<open>Server-version-3\<close> is, with a
  crash by an exception replaced by a refusal, and it has posted the same messages.\<close>

theorem mt_connection_refines:
  assumes P: "network_order P" and cs: "\<forall>chunk\<in>set cs. chunk_ok chunk"
    and run: "v3_spec (Head []) (concat cs) = (a, ms)"
  shows "\<exists>c. mt_open u junk = Inr c \<and> mt_conn_abs (foldl (mt_on_read P) c cs) = caught a \<and>
    state (foldl (mt_on_read P) c cs) = status_of (caught a) \<and>
    v3_delivered (foldl (mt_on_read P) c cs) = map (Pair u) ms"
  by (rule mt_open_reads [OF P cs run, of u junk]) auto

theorem mt_connection_refines_witness:
  "\<exists>c. mt_open ''s'' [] = Inr c \<and> mt_conn_abs (foldl (mt_on_read x86_host) c sample_reads) = caught (Head []) \<and>
    state (foldl (mt_on_read x86_host) c sample_reads) = status_of (caught (Head [] :: short pstate)) \<and>
    v3_delivered (foldl (mt_on_read x86_host) c sample_reads) = map (Pair ''s'') [(1001, [104, 105])]"
  by (rule mt_connection_refines [OF x86.network_order_axioms sample_reads_ok])
    (simp add: sample_reads_def eval_dec)

text \<open>C19: a length below \<open>-1\<close> leaves a session of the multi-threaded server stuck: it stops reading, but
  the exception was caught before anything cleared the session, so the server keeps it.\<close>

theorem mt_negative_length_leaks:
  assumes P: "network_order P" and cs: "\<forall>chunk\<in>set cs. chunk_ok chunk"
    and before: "\<forall>m\<in>set ms. sint (fst m) \<le> MAX_LENGTH \<and> length (snd m) \<le> 2048"
    and neg: "sint msg_id \<le> MAX_LENGTH" "sint msg_len < - 1"
    and bytes: "concat cs = concat (map (\<lambda>m. frame (fst m) (snd m)) ms) @
      [high_byte msg_id, low_byte msg_id, high_byte msg_len, low_byte msg_len] @ rest"
  shows "\<exists>c. mt_open u junk = Inr c \<and> state (foldl (mt_on_read P) c cs) = Idle \<and>
    (\<forall>v. Clear_Session v \<notin> set (trace (foldl (mt_on_read P) c cs)))"
proof -
  let ?hs = "[high_byte msg_id, low_byte msg_id, high_byte msg_len, low_byte msg_len]"
  have "v3_spec (Head []) ?hs = (Crashed Bad_Array_New_Length, [])"
    using neg by (simp add: prun_head_full head_done_def v3_dec_def)
  then have "v3_spec (Head []) (?hs @ rest) = (Crashed Bad_Array_New_Length, [])"
    using prun_appendI [of 4 v3_dec "Head []" ?hs "Crashed Bad_Array_New_Length" "[]" rest] by simp
  then have "v3_spec (Head []) (concat cs) = (Crashed Bad_Array_New_Length, ms)"
    using prun_appendI [OF v3_run_frames [OF before]] by (auto simp: bytes)
  then show ?thesis by (rule mt_open_reads [OF P cs, of _ _ u junk]) (auto simp: mt_clears_nothing_def)
qed

theorem mt_negative_length_leaks_witness:
  "\<exists>c. mt_open ''s'' [] = Inr c \<and> state (foldl (mt_on_read x86_host) c [[3, 233, 255], [254]]) = Idle \<and>
    (\<forall>v. Clear_Session v \<notin> set (trace (foldl (mt_on_read x86_host) c [[3, 233, 255], [254]])))"
  by (rule mt_negative_length_leaks [OF x86.network_order_axioms, where msg_id = 1001 and msg_len = 65534
        and ms = "[]" and rest = "[]"])
    (simp_all add: chunk_ok_def eval_frame)

text \<open>C20: a connection of the echo server follows the two-byte-header machine over any reads, and its send
  queue and the writes it has started are those of submitting every delivered message in order.\<close>

theorem v2_connection_refines:
  assumes P: "network_order P" and cs: "\<forall>chunk\<in>set cs. chunk_ok chunk"
    and run: "v2_spec (Head []) (concat cs) = (a, ms)"
  shows "\<exists>c. v2_open u junk = Inr c \<and> v2_conn_abs (foldl (v2_on_read P) c cs) = a \<and>
    state (foldl (v2_on_read P) c cs) = status_of a \<and>
    v2_sent (foldl (v2_on_read P) c cs) = fold v2_deliver ms ([], [])"
  by (rule v2_open_reads [OF P cs run, of u junk]) auto

theorem v2_connection_refines_witness:
  "\<exists>c. v2_open ''s'' [] = Inr c \<and> v2_conn_abs (foldl (v2_on_read x86_host) c [[0], [2, 104, 105, 8, 1]]) = Refused \<and>
    state (foldl (v2_on_read x86_host) c [[0], [2, 104, 105, 8, 1]]) = status_of (Refused :: unit pstate) \<and>
    v2_sent (foldl (v2_on_read x86_host) c [[0], [2, 104, 105, 8, 1]]) =
      fold v2_deliver [((), [104, 105])] ([], [])"
  by (rule v2_connection_refines [OF x86.network_order_axioms])
    (simp_all add: chunk_ok_def eval_dec)

text \<open>C21: the echo server echoes: after up to 1001 messages of at most 2048 bytes, cut into reads in any way, and
  before a write completes, a new connection goes on reading, its queue holds one frame per message, in
  order, and exactly the first of them is being written. Every echoed frame has a header of two zero bytes
  in place of its length.\<close>

theorem v2_echoes_in_order:
  assumes P: "network_order P" and cs: "\<forall>chunk\<in>set cs. chunk_ok chunk"
    and bodies: "\<forall>body\<in>set bodies. length body \<le> 2048" "length bodies \<le> 1001"
    and bytes: "concat cs = concat (map v2_request bodies)"
  shows "\<exists>c. v2_open u junk = Inr c \<and> state (foldl (v2_on_read P) c cs) = Reading \<and>
    map node_wire (send_que (sess (foldl (v2_on_read P) c cs))) = map (\<lambda>body. [0, 0] @ body) bodies \<and>
    written (trace (foldl (v2_on_read P) c cs)) = map (\<lambda>body. [0, 0] @ body) (take 1 bodies)"
proof -
  have "v2_spec (Head []) (concat cs) = (Head [], map (Pair ()) bodies)"
    using v2_run_requests [OF bodies(1)] bytes by simp
  moreover have "fold v2_deliver (map (Pair ()) bodies) ([], []) = (map v2_frame bodies, map v2_frame (take 1 bodies))"
    using fold_v2_deliver [of "[]" bodies "[]"] bodies(2) by simp
  ultimately show ?thesis
    by - (rule v2_open_reads [OF P cs, of _ _ u junk], assumption,
      auto simp: v2_sent_def v2_queue_def v2_frame_def)
qed

theorem v2_echoes_in_order_witness:
  "\<exists>c. v2_open ''s'' [] = Inr c \<and> state (foldl (v2_on_read x86_host) c [[0, 2, 104], [105, 0, 1, 33]]) = Reading \<and>
    map node_wire (send_que (sess (foldl (v2_on_read x86_host) c [[0, 2, 104], [105, 0, 1, 33]]))) =
      map (\<lambda>body. [0, 0] @ body) [[104, 105], [33]] \<and>
    written (trace (foldl (v2_on_read x86_host) c [[0, 2, 104], [105, 0, 1, 33]])) =
      map (\<lambda>body. [0, 0] @ body) (take 1 [[104, 105], [33]])"
  by (rule v2_echoes_in_order [OF x86.network_order_axioms])
    (simp_all add: chunk_ok_def v2_request_def eval_frame)

section \<open>Sending\<close>

text \<open>The node built for a message of \<open>len\<close> bytes sends id and length in network order and then the
  first \<open>len mod 65536\<close> bytes of the message: the conversion to \<open>short\<close> cuts longer messages silently.\<close>

theorem v3_SendNode_wire:
  assumes "network_order P" "0 \<le> len" "len mod 65536 \<le> 32763" "nat (len mod 65536) \<le> length msg"
  shows "\<exists>nd. v3_SendNode P msg (short_of_int len) msg_id = Inr nd \<and>
    node_buffer nd = Inr (frame msg_id (take (nat (len mod 65536)) msg))"
  using assms by (rule v3_SendNode_truncates)

theorem v3_SendNode_wire_witness:
  "\<exists>nd. v3_SendNode x86_host [104, 105, 33] (short_of_int 65538) 1001 = Inr nd \<and>
    node_buffer nd = Inr (frame 1001 (take (nat (65538 mod 65536)) [104, 105, 33]))"
  by (rule v3_SendNode_wire [OF x86.network_order_axioms]) simp_all

text \<open>C22: a reply of 32764 to 65530 bytes cannot be sent: the frame's length turns negative and the
  constructor of the node throws, in both servers that build such nodes.\<close>

theorem SendNode_overflow:
  assumes "32764 \<le> len" "len \<le> 65530"
  shows "v3_SendNode P msg (short_of_int len) msg_id = Inl Bad_Array_New_Length \<and>
    mt_SendNode P msg (short_of_int len) msg_id = Inl Bad_Array_New_Length"
  using v3_SendNode_throws [OF assms] by (simp add: mt_SendNode_eq)

theorem SendNode_overflow_witness:
  "v3_SendNode x86_host [] (short_of_int 40000) 1001 = Inl Bad_Array_New_Length \<and>
    mt_SendNode x86_host [] (short_of_int 40000) 1001 = Inl Bad_Array_New_Length"
  by (rule SendNode_overflow) simp_all

text \<open>C23: for any interleaving of calls of \<open>Send\<close> whose messages fit a node (their length is not negative and,
  taken modulo \<open>2 ^ 16\<close>, at most 32763 and within the caller's buffer; others may throw) and of completions or failures of the outstanding write, the sending side of \<open>Server-version-3\<close> is the
  abstract channel: what is on the wire and in the queue are the channel's, at most one write is ever
  outstanding and it is the front of the queue, and none of these calls faults.\<close>

theorem v3_sending_refines:
  assumes P: "network_order P" and start: "send_que s = []"
    and es: "list_all (\<lambda>e. case e of Submit a \<Rightarrow> call_ok a | _ \<Rightarrow> True) es"
  defines "w \<equiv> foldl (write_event (v3_Send P) v3_HandleWrite) (idle_writer s) es"
    and "ch \<equiv> foldl (chan_step MAX_SENDQUEUE) empty_channel (map (map_chan_event call_frame) es)"
  shows "crashed w = None \<and> \<not> overlap w \<and> on_wire w = wire ch \<and>
    map node_wire (send_que (wsess w)) = waiting ch \<and>
    in_flight w = (if stuck ch \<or> waiting ch = [] then None else Some (hd (waiting ch)))"
proof -
  note q = v3_write_queue [OF P]
  have "v3_send_inv s" "v3_queue s = []" using start by (simp_all add: v3_send_inv_def v3_queue_def)
  moreover have "list_all (write_queue.event_ok call_ok) es"
    using es by (simp add: write_queue.event_ok_def [OF q] list_all_iff)
  ultimately show ?thesis
    using write_queue.writer_channel [OF q, of s es] by (simp add: w_def ch_def v3_queue_def)
qed

theorem v3_sending_refines_witness:
  "let w = foldl (write_event (v3_Send x86_host) v3_HandleWrite) (idle_writer sample_session) sample_events;
       ch = foldl (chan_step MAX_SENDQUEUE) empty_channel (map (map_chan_event call_frame) sample_events)
   in crashed w = None \<and> \<not> overlap w \<and> on_wire w = wire ch \<and>
     map node_wire (send_que (wsess w)) = waiting ch \<and>
     in_flight w = (if stuck ch \<or> waiting ch = [] then None else Some (hd (waiting ch)))"
  unfolding Let_def
  by (rule v3_sending_refines [OF x86.network_order_axioms])
    (simp_all add: sample_session_def sample_events_def)

text \<open>The send queue never holds more than 1001 frames, one more than \<open>MAX_SENDQUEUE\<close>, and as long as no
  more than 1001 messages are submitted, frames leave in the order of submission, none lost or repeated.\<close>

theorem v3_queue_bounded_fifo:
  assumes P: "network_order P" and start: "send_que s = []"
    and es: "list_all (\<lambda>e. case e of Submit a \<Rightarrow> call_ok a | _ \<Rightarrow> True) es"
  defines "w \<equiv> foldl (write_event (v3_Send P) v3_HandleWrite) (idle_writer s) es"
  shows "length (send_que (wsess w)) \<le> 1001 \<and>
    (length (submissions es) \<le> 1001 \<longrightarrow>
       on_wire w @ map node_wire (send_que (wsess w)) = map call_frame (submissions es))"
proof -
  note q = v3_write_queue [OF P]
  have "v3_send_inv s" "v3_queue s = []" using start by (simp_all add: v3_send_inv_def v3_queue_def)
  moreover have "list_all (write_queue.event_ok call_ok) es"
    using es by (simp add: write_queue.event_ok_def [OF q] list_all_iff)
  ultimately show ?thesis
    using write_queue.queue_bounded [OF q, of s es] write_queue.frames_in_order [OF q, of s es]
    by (simp add: w_def v3_queue_def)
qed

theorem v3_queue_bounded_fifo_witness:
  "let w = foldl (write_event (v3_Send x86_host) v3_HandleWrite) (idle_writer sample_session) sample_events
   in length (send_que (wsess w)) \<le> 1001 \<and>
    (length (submissions sample_events) \<le> 1001 \<longrightarrow>
       on_wire w @ map node_wire (send_que (wsess w)) = map call_frame (submissions sample_events))"
  unfolding Let_def
  by (rule v3_queue_bounded_fifo [OF x86.network_order_axioms])
    (simp_all add: sample_session_def sample_events_def)

text \<open>C24: the limit is not reached at 1000: with 1000 frames queued \<open>Send\<close> still takes a message of at most 32763
  bytes, in all three servers; with 1001 it drops it without a change.\<close>

theorem send_limit:
  assumes P: "network_order P" and body: "length body \<le> 32763"
    and n: "length (send_que s) = n" "length (send_que s2) = n" "1000 \<le> n"
  shows "if n = 1000
    then (\<exists>s'. v3_Send_string P body msg_id s = ([], Returned s') \<and> length (send_que s') = 1001) \<and>
      (\<exists>s'. mt_Send_string P body msg_id s = ([], Returned s') \<and> length (send_que s') = 1001) \<and>
      (\<exists>s'. v2_Send P body (int (length body)) s2 = ([], Returned s') \<and> length (send_que s') = 1001)
    else v3_Send_string P body msg_id s = ([], Returned s) \<and> mt_Send_string P body msg_id s = ([], Returned s) \<and>
      v2_Send P body (int (length body)) s2 = ([], Returned s2)"
proof -
  have "call_ok (Send_String body msg_id)" using body by simp
  then obtain nd where nd: "\<And>s. v3_Send P (Send_String body msg_id) s =
      (if length (send_que s) > MAX_SENDQUEUE then ([], Returned s)
       else if length (send_que s) > 0 then ([], Returned (s\<lparr>send_que := send_que s @ [nd]\<rparr>))
       else v3_write_front (s\<lparr>send_que := send_que s @ [nd]\<rparr>))"
    using v3_call_node [OF P] by blast
  have "send_que s2 \<noteq> []" using n by auto
  then show ?thesis
    using nd [of s] v2_Send_echo [OF P, of "length body" body s2] body n by (simp add: mt_Send_eq)
qed

theorem send_limit_witness:
  "if (1000 :: nat) = 1000
    then (\<exists>s'. v3_Send_string x86_host [104] 7 full_session = ([], Returned s') \<and> length (send_que s') = 1001) \<and>
      (\<exists>s'. mt_Send_string x86_host [104] 7 full_session = ([], Returned s') \<and> length (send_que s') = 1001) \<and>
      (\<exists>s'. v2_Send x86_host [104] (int (length [104 :: byte])) full_echo_session = ([], Returned s') \<and>
         length (send_que s') = 1001)
    else v3_Send_string x86_host [104] 7 full_session = ([], Returned full_session) \<and>
      mt_Send_string x86_host [104] 7 full_session = ([], Returned full_session) \<and>
      v2_Send x86_host [104] (int (length [104 :: byte])) full_echo_session = ([], Returned full_echo_session)"
  by (rule send_limit [OF x86.network_order_axioms])
    (simp_all add: full_session_def full_echo_session_def)

text \<open>The echo server's sending side is the same abstract channel, for bodies of at most 32764 bytes; its
  frames start with two zero bytes.\<close>

theorem v2_sending_refines:
  assumes P: "network_order P" and start: "send_que s = []"
    and es: "list_all (\<lambda>e. case e of Submit a \<Rightarrow> v2_call_ok a | _ \<Rightarrow> True) es"
  defines "w \<equiv> foldl (write_event (v2_call P) v2_HandleWrite) (idle_writer s) es"
    and "ch \<equiv> foldl (chan_step MAX_SENDQUEUE) empty_channel (map (map_chan_event v2_call_frame) es)"
  shows "crashed w = None \<and> \<not> overlap w \<and> on_wire w = wire ch \<and>
    map node_wire (send_que (wsess w)) = waiting ch \<and>
    in_flight w = (if stuck ch \<or> waiting ch = [] then None else Some (hd (waiting ch)))"
proof -
  note q = v2_write_queue [OF P]
  have "v2_send_inv s" "v2_queue s = []" using start by (simp_all add: v2_send_inv_def v2_queue_def)
  moreover have "list_all (write_queue.event_ok v2_call_ok) es"
    using es by (simp add: write_queue.event_ok_def [OF q] list_all_iff)
  ultimately show ?thesis
    using write_queue.writer_channel [OF q, of s es] by (simp add: w_def ch_def v2_queue_def)
qed

theorem v2_sending_refines_witness:
  "let w = foldl (write_event (v2_call x86_host) v2_HandleWrite) (idle_writer echo_session) echo_events;
       ch = foldl (chan_step MAX_SENDQUEUE) empty_channel (map (map_chan_event v2_call_frame) echo_events)
   in crashed w = None \<and> \<not> overlap w \<and> on_wire w = wire ch \<and>
     map node_wire (send_que (wsess w)) = waiting ch \<and>
     in_flight w = (if stuck ch \<or> waiting ch = [] then None else Some (hd (waiting ch)))"
  unfolding Let_def
  by (rule v2_sending_refines [OF x86.network_order_axioms])
    (simp_all add: echo_session_def echo_events_def v2_call_ok_def)

text \<open>So is that of the multi-threaded server, whose write handler catches exceptions.\<close>

theorem mt_sending_refines:
  assumes P: "network_order P" and start: "send_que s = []"
    and es: "list_all (\<lambda>e. case e of Submit a \<Rightarrow> call_ok (as_send_call a) | _ \<Rightarrow> True) es"
  defines "w \<equiv> foldl (write_event (mt_Send P) mt_HandleWrite) (idle_writer s) es"
    and "ch \<equiv> foldl (chan_step MAX_SENDQUEUE) empty_channel
      (map (map_chan_event (\<lambda>a. call_frame (as_send_call a))) es)"
  shows "crashed w = None \<and> \<not> overlap w \<and> on_wire w = wire ch \<and>
    map node_wire (send_que (wsess w)) = waiting ch \<and>
    in_flight w = (if stuck ch \<or> waiting ch = [] then None else Some (hd (waiting ch)))"
proof -
  note q = mt_write_queue [OF P]
  have "v3_send_inv s" "v3_queue s = []" using start by (simp_all add: v3_send_inv_def v3_queue_def)
  moreover have "list_all (write_queue.event_ok (\<lambda>a. call_ok (as_send_call a))) es"
    using es by (simp add: write_queue.event_ok_def [OF q] list_all_iff)
  ultimately show ?thesis
    using write_queue.writer_channel [OF q, of s es] by (simp add: w_def ch_def v3_queue_def)
qed

theorem mt_sending_refines_witness:
  "let w = foldl (write_event (mt_Send x86_host) mt_HandleWrite) (idle_writer sample_session) mt_events;
       ch = foldl (chan_step MAX_SENDQUEUE) empty_channel
         (map (map_chan_event (\<lambda>a. call_frame (as_send_call a))) mt_events)
   in crashed w = None \<and> \<not> overlap w \<and> on_wire w = wire ch \<and>
     map node_wire (send_que (wsess w)) = waiting ch \<and>
     in_flight w = (if stuck ch \<or> waiting ch = [] then None else Some (hd (waiting ch)))"
  unfolding Let_def
  by (rule mt_sending_refines [OF x86.network_order_axioms])
    (simp_all add: sample_session_def mt_events_def)

section \<open>The logic system\<close>

text \<open>C25: in every reachable state of the logic system of \<open>Server-version-3\<close>, whatever threads post, change
  sessions or destroy it in between, and also after a callback has ended the process, the messages handled
  followed by those queued are those posted, in order. Each message was handled in one turn of its own, in
  that order: a greeting by one call of \<open>Send\<close> of the session it points to, with the reply to its text, whose
  effects are those of the turn, and which changed that session only; any other message by nothing.\<close>

theorem v3_messages_in_order:
  assumes "(v3_logic_step P J)\<^sup>*\<^sup>* (new_logic heap) L"
  shows "handled L @ msg_queue L = posts L \<and> list_all2 (v3_turn P J) (handled L) (turn_log L)"
  using assms by (rule v3_worker.reachable_lists)

theorem v3_messages_in_order_witness:
  "handled served_logic @ msg_queue served_logic = posts served_logic \<and>
    list_all2 (v3_turn x86_host sample_json) (handled served_logic) (turn_log served_logic)"
  by (rule v3_messages_in_order [OF served_logic_ok(1)])

text \<open>C26: no wake-up is lost between posting threads and the worker of \<open>Server-version-3\<close>: a worker that
  sleeps has an empty queue.\<close>

theorem v3_no_lost_wakeup:
  assumes "(v3_logic_step P J)\<^sup>*\<^sup>* (new_logic heap) L" "worker_at L = Blocked"
  shows "msg_queue L = []"
  using assms by (rule v3_sleeps_empty)

theorem v3_no_lost_wakeup_witness:
  "msg_queue (v3_worker_run x86_host sample_json 2 (new_logic (\<lambda>_. sample_session))) = []"
  by (rule v3_no_lost_wakeup [OF v3_worker_run_steps]) (simp add: new_logic_def v3_DealMsg_def numeral_2_eq_2)

text \<open>Once the stop flag is seen, the worker needs at most as many further turns as there are queued
  messages: it handles all of them and leaves, unless a callback ends the process.\<close>

theorem v3_worker_stops:
  assumes "worker_at L = Ready" "b_stop L"
  shows "worker_at (v3_worker_run P J (length (msg_queue L) + 2) L) = Finished \<and>
      msg_queue (v3_worker_run P J (length (msg_queue L) + 2) L) = [] \<and>
      handled (v3_worker_run P J (length (msg_queue L) + 2) L) = handled L @ msg_queue L \<or>
    (\<exists>f. worker_at (v3_worker_run P J (length (msg_queue L) + 2) L) = Terminated f)"
  using v3_stops [OF assms, of P J] by (simp only: not_alive_iff)

theorem v3_worker_stops_witness:
  "worker_at (v3_worker_run x86_host sample_json (length (msg_queue stopped_logic) + 2) stopped_logic) = Finished \<and>
      msg_queue (v3_worker_run x86_host sample_json (length (msg_queue stopped_logic) + 2) stopped_logic) = [] \<and>
      handled (v3_worker_run x86_host sample_json (length (msg_queue stopped_logic) + 2) stopped_logic) =
        handled stopped_logic @ msg_queue stopped_logic \<or>
    (\<exists>f. worker_at (v3_worker_run x86_host sample_json (length (msg_queue stopped_logic) + 2) stopped_logic) = Terminated f)"
  by (rule v3_worker_stops) (simp_all add: stopped_logic_def sample_logic_def v3_PostMsgtoQueue_def new_logic_def)

text \<open>C27: the destructor of either logic system can hang: its notification may fall between the worker's test
  of \<open>_b_stop\<close> and its wait, since the flag is set without the mutex. In the state reached neither the
  worker nor the destructor can move, although the destructor is waiting for the worker to end.\<close>

theorem destructor_can_hang:
  "((v3_logic_step P J)\<^sup>*\<^sup>* (new_logic heap) (v3_hang heap) \<and>
     v3_DealMsg P J (v3_hang heap) = None \<and> v3_destruct (v3_hang heap) = None) \<and>
   ((mt_logic_step P J)\<^sup>*\<^sup>* (new_logic heap) (mt_hang heap) \<and>
     mt_DealMsg P J (mt_hang heap) = None \<and> mt_destruct (mt_hang heap) = None) \<and>
   destr (v3_hang heap) = Notified \<and> b_stop (v3_hang heap) \<and> destr (mt_hang heap) = Notified \<and> b_stop (mt_hang heap)"
  by (simp add: v3_hang_reachable v3_hang_stuck mt_hang_reachable mt_hang_stuck) (simp add: v3_hang_def mt_hang_def)

text \<open>C28: an exception in the callback, of the JSON library or of the constructor of a reply that is too long,
  leaves the worker thread and ends the process: after it no thread has a step.\<close>

theorem callback_exception_ends_process:
  assumes L: "worker_at L = Ready" "\<not> b_stop L" "msg_queue L = nd # rest"
    and nd: "recv_msg_id (ln_recvnode nd) = short_of_int MSG_HELLO_WORD" "v3_throws J nd (objects L (ln_session nd)) f"
  shows "\<exists>L'. v3_DealMsg P J L = Some L' \<and> worker_at L' = Terminated f \<and> (\<forall>L''. \<not> v3_logic_step P J L' L'')"
proof -
  obtain heap' where "v3_deal_front P J (v3_RegisterCallBacks Map.empty) nd (objects L) = ([], Raised f heap')"
    using v3_callback_throws [of nd J "objects L" f P] nd by blast
  with L show ?thesis by (rule v3_throw_ends_process)
qed

theorem callback_exception_ends_process_witness:
  "\<exists>L'. v3_DealMsg x86_host sample_json (sample_logic\<lparr>msg_queue := [sample_node [91]]\<rparr>) = Some L' \<and>
    worker_at L' = Terminated Json_Exception \<and> (\<forall>L''. \<not> v3_logic_step x86_host sample_json L' L'')"
  by (rule callback_exception_ends_process [where nd = "sample_node [91]" and rest = "[]"])
    (simp_all add: sample_logic_def v3_PostMsgtoQueue_def new_logic_def sample_node_def v3_throws_def v3_hello_reply_def
      member_int_def sample_json_def node_text_def sint_short_of_int)

text \<open>The multi-threaded server's messages are handled in order too, for the callback it registers.\<close>

theorem mt_messages_in_order:
  assumes "(mt_logic_step P J)\<^sup>*\<^sup>* (new_logic heap) L"
  shows "handled L @ msg_queue L = posts L \<and> list_all2 (mt_turn P J) (handled L) (turn_log L)"
  using assms by (rule mt_worker.reachable_lists)

theorem mt_messages_in_order_witness:
  "handled mt_served_logic @ msg_queue mt_served_logic = posts mt_served_logic \<and>
    list_all2 (mt_turn x86_host sample_json) (handled mt_served_logic) (turn_log mt_served_logic)"
  by (rule mt_messages_in_order [OF mt_served_logic_ok(1)])

text \<open>In the multi-threaded server a worker may sleep on a non-empty queue only while a posting thread is
  on its way to notify it.\<close>

theorem mt_no_lost_wakeup:
  assumes "(mt_logic_step P J)\<^sup>*\<^sup>* (new_logic heap) L" "worker_at L = Blocked" "notifies L = 0"
  shows "msg_queue L = []"
  using assms by (rule mt_worker.no_lost_wakeup)

theorem mt_no_lost_wakeup_witness:
  "msg_queue (mt_worker_run x86_host sample_json 2 (new_logic (\<lambda>_. sample_session))) = []"
  by (rule mt_no_lost_wakeup [OF mt_worker_run_steps]) (simp_all add: new_logic_def mt_DealMsg_def numeral_2_eq_2)

text \<open>An exception in the callback ends the multi-threaded server too: its handlers catch exceptions, its
  worker thread does not.\<close>

theorem mt_callback_exception_ends_process:
  assumes L: "worker_at L = Ready" "\<not> b_stop L" "msg_queue L = nd # rest"
    and nd: "recv_msg_id (ln_recvnode nd) = short_of_int MSG_HELLO_WORD" "mt_throws J nd (objects L (ln_session nd)) f"
  shows "\<exists>L'. mt_DealMsg P J L = Some L' \<and> worker_at L' = Terminated f \<and> (\<forall>L''. \<not> mt_logic_step P J L' L'')"
proof -
  obtain heap' where "mt_deal_front P J (mt_RegisterCallBacks Map.empty) nd (objects L) = ([], Raised f heap')"
    using mt_callback_throws [of nd J "objects L" f P] nd by blast
  with L show ?thesis by (rule mt_throw_ends_process)
qed

theorem mt_callback_exception_ends_process_witness:
  "\<exists>L'. mt_DealMsg x86_host sample_json (sample_logic\<lparr>msg_queue := [sample_node [91]]\<rparr>) = Some L' \<and>
    worker_at L' = Terminated Json_Exception \<and> (\<forall>L''. \<not> mt_logic_step x86_host sample_json L' L'')"
  by (rule mt_callback_exception_ends_process [where nd = "sample_node [91]" and rest = "[]"])
    (simp_all add: sample_logic_def v3_PostMsgtoQueue_def new_logic_def sample_node_def mt_throws_def mt_hello_reply_def
      member_int_def sample_json_def node_text_def sint_short_of_int)

section \<open>A request and its reply\<close>

text \<open>A JSON client's request, cut in any way by the network, makes the session post one node; the worker
  answers it with one write, and the client reads from that write the reply the callback computed and the id
  it chose. The lengths are those that fit the client's two arrays.\<close>

theorem v3_request_reply:
  assumes P: "network_order P" "endianness P = Little_Endian" and cs: "\<forall>chunk\<in>set cs. chunk_ok chunk"
    and request: "length request \<le> 2044" "json_request P request = Inr (concat cs)"
    and reply: "v3_hello_reply J request = Inr (reply, i)" "length reply \<le> 2048"
  shows "\<exists>c nd wire heap. v3_open u junk = Inr c \<and> posted (trace (foldl (v3_on_read P) c cs)) = [nd] \<and>
    v3_deal_front P J (v3_RegisterCallBacks Map.empty) nd (\<lambda>_. sess (foldl (v3_on_read P) c cs)) =
      ([Async_Write wire], Returned heap) \<and>
    json_reply P wire = Some ((i, reply), [])"
proof -
  let ?id = "short_of_int MSG_HELLO_WORD"
  have "concat cs = frame ?id request" using json_request_frame [OF P request(1)] request(2) by simp
  moreover have "v3_spec (Head []) (concat (map (\<lambda>m. frame (fst m) (snd m)) [(?id, request)])) =
      (Head [], [(?id, request)])"
    using request(1) by (intro v3_run_frames) (simp add: sint_short_of_int)
  ultimately have run: "v3_spec (Head []) (concat cs) = (Head [], [(?id, request)])" by simp
  obtain c where c: "v3_open u junk = Inr c" "v3_delivered (foldl (v3_on_read P) c cs) = map (Pair u) [(?id, request)]"
    "v3_quiet u (foldl (v3_on_read P) c cs)"
    by (rule v3_open_reads [OF P(1) cs run])
  then obtain nd where nd: "posted (trace (foldl (v3_on_read P) c cs)) = [nd]"
    "recv_msg_id (ln_recvnode nd) = ?id" "node_text (ln_recvnode nd) = request"
    by (auto simp: v3_delivered_def ln_view_def)
  define s where "s = sess (foldl (v3_on_read P) c cs)"
  obtain s' where "v3_Send_string P reply i s = ([Async_Write (frame i reply)], Returned s')"
    using send_string_idle [OF P(1) reply(2)] c(3) by (auto simp: v3_quiet_def s_def)
  then have "v3_deal_front P J (v3_RegisterCallBacks Map.empty) nd (\<lambda>_. s) =
      ([Async_Write (frame i reply)], Returned ((\<lambda>_. s)(ln_session nd := s')))"
    using nd reply(1) by (simp add: v3_deal_front_def v3_RegisterCallBacks_def v3_HelloWorldCallBack_def)
  moreover have "json_reply P (frame i reply) = Some ((i, reply), [])"
    using json_reply_frame [OF P reply(2), of i "[]"] by simp
  ultimately show ?thesis using c(1) nd(1) by (auto simp: s_def)
qed

theorem v3_request_reply_witness:
  "\<exists>c nd wire heap. v3_open ''s'' [] = Inr c \<and>
    posted (trace (foldl (v3_on_read x86_host) c sample_reads)) = [nd] \<and>
    v3_deal_front x86_host sample_json (v3_RegisterCallBacks Map.empty) nd
      (\<lambda>_. sess (foldl (v3_on_read x86_host) c sample_reads)) = ([Async_Write wire], Returned heap) \<and>
    json_reply x86_host wire =
      Some ((1001, bytes_of ''Server has received msg, msg data is '' @ [104, 105]), [])"
proof (rule v3_request_reply [OF x86.network_order_axioms _ sample_reads_ok, of "[104, 105]"])
  have le: "endianness x86_host = Little_Endian" by (simp add: x86_host_def)
  then show "endianness x86_host = Little_Endian" .
  show "json_request x86_host [104, 105] = Inr (concat sample_reads)"
    using json_request_frame [OF x86.network_order_axioms le, of "[104, 105]"]
    by (simp add: sample_reads_def eval_frame)
qed (simp_all add: v3_hello_reply_def sample_json_def member_int_def member_string_def bytes_of_def short_of_int_def)

text \<open>The multi-threaded server answers a JSON client's request in the same way: one node is posted however
  the request was cut, the worker answers it with one write, and the client reads the callback's reply.\<close>

theorem mt_request_reply:
  assumes P: "network_order P" "endianness P = Little_Endian" and cs: "\<forall>chunk\<in>set cs. chunk_ok chunk"
    and request: "length request \<le> 2044" "json_request P request = Inr (concat cs)"
    and reply: "mt_hello_reply J request = Inr (reply, i)" "length reply \<le> 2048"
  shows "\<exists>c nd wire heap. mt_open u junk = Inr c \<and> posted (trace (foldl (mt_on_read P) c cs)) = [nd] \<and>
    mt_deal_front P J (mt_RegisterCallBacks Map.empty) nd (\<lambda>_. sess (foldl (mt_on_read P) c cs)) =
      ([Async_Write wire], Returned heap) \<and>
    json_reply P wire = Some ((i, reply), [])"
proof -
  let ?id = "short_of_int MSG_HELLO_WORD"
  have "concat cs = frame ?id request" using json_request_frame [OF P request(1)] request(2) by simp
  moreover have "v3_spec (Head []) (concat (map (\<lambda>m. frame (fst m) (snd m)) [(?id, request)])) =
      (Head [], [(?id, request)])"
    using request(1) by (intro v3_run_frames) (simp add: sint_short_of_int)
  ultimately have run: "v3_spec (Head []) (concat cs) = (Head [], [(?id, request)])" by simp
  obtain c where c: "mt_open u junk = Inr c" "v3_delivered (foldl (mt_on_read P) c cs) = map (Pair u) [(?id, request)]"
    "send_que (sess (foldl (mt_on_read P) c cs)) = []"
    by (rule mt_open_reads [OF P(1) cs run])
  then obtain nd where nd: "posted (trace (foldl (mt_on_read P) c cs)) = [nd]"
    "recv_msg_id (ln_recvnode nd) = ?id" "node_text (ln_recvnode nd) = request"
    by (auto simp: v3_delivered_def ln_view_def)
  define s where "s = sess (foldl (mt_on_read P) c cs)"
  obtain s' where "v3_Send_string P reply i s = ([Async_Write (frame i reply)], Returned s')"
    using send_string_idle [OF P(1) reply(2)] c(3) by (auto simp: s_def)
  then have "mt_deal_front P J (mt_RegisterCallBacks Map.empty) nd (\<lambda>_. s) =
      ([Async_Write (frame i reply)], Returned ((\<lambda>_. s)(ln_session nd := s')))"
    using nd reply(1) by (simp add: mt_deal_front_def mt_RegisterCallBacks_def mt_HelloWordCallBack_def mt_Send_eq)
  moreover have "json_reply P (frame i reply) = Some ((i, reply), [])"
    using json_reply_frame [OF P reply(2), of i "[]"] by simp
  ultimately show ?thesis using c(1) nd(1) by (auto simp: s_def)
qed

theorem mt_request_reply_witness:
  "\<exists>c nd wire heap. mt_open ''s'' [] = Inr c \<and>
    posted (trace (foldl (mt_on_read x86_host) c sample_reads)) = [nd] \<and>
    mt_deal_front x86_host sample_json (mt_RegisterCallBacks Map.empty) nd
      (\<lambda>_. sess (foldl (mt_on_read x86_host) c sample_reads)) = ([Async_Write wire], Returned heap) \<and>
    json_reply x86_host wire =
      Some ((1001, bytes_of ''server has received msg, msg data is '' @ [104, 105]), [])"
proof (rule mt_request_reply [OF x86.network_order_axioms _ sample_reads_ok, of "[104, 105]"])
  have le: "endianness x86_host = Little_Endian" by (simp add: x86_host_def)
  then show "endianness x86_host = Little_Endian" .
  show "json_request x86_host [104, 105] = Inr (concat sample_reads)"
    using json_request_frame [OF x86.network_order_axioms le, of "[104, 105]"]
    by (simp add: sample_reads_def eval_frame)
qed (simp_all add: mt_hello_reply_def sample_json_def member_int_def member_string_def bytes_of_def short_of_int_def)

section \<open>Clients\<close>

text \<open>The JSON clients read any sequence of replies framed by the servers, one after the other, and leave
  what follows in the stream, on a little-endian host.\<close>

theorem json_conversation_replies:
  assumes "network_order P" "endianness P = Little_Endian" "\<forall>m\<in>set ms. length (snd m) \<le> 2048"
  shows "json_conversation P (length ms) (concat (map (\<lambda>m. frame (fst m) (snd m)) ms) @ rest) = Some (ms, rest)"
  using assms by (rule json_conversation_frames)

theorem json_conversation_replies_witness:
  "json_conversation x86_host (length [(1001 :: short, [104 :: byte, 105]), (7, [])])
    (concat (map (\<lambda>m. frame (fst m) (snd m)) [(1001, [104, 105]), (7, [])]) @ [9]) =
      Some ([(1001, [104, 105]), (7, [])], [9])"
  by (rule json_conversation_replies [OF x86.network_order_axioms]) (simp_all add: x86_host_def)

text \<open>C29: the echo client and the echo server do not understand each other on a little-endian host. The client sends
  its fixed greeting over and over, with the length in host order, which the server reads as 3584 and refuses:
  once at least two bytes of what the client has sent have arrived, in whatever reads, the session is closed to
  reading and nothing is echoed; and the client, once connected, never ends in order.\<close>

theorem echo_client_refused:
  assumes P: "network_order P" "endianness P = Little_Endian" and cs: "\<forall>chunk\<in>set cs. chunk_ok chunk"
    and sent: "prefix (concat cs) (sc_sent (sync_client_run P es))" "2 \<le> length (concat cs)"
  shows "(\<exists>c. v2_open u junk = Inr c \<and> state (foldl (v2_on_read P) c cs) = Idle \<and>
      v2_sent (foldl (v2_on_read P) c cs) = ([], [])) \<and> sc_ended (sync_client_run P es) \<noteq> Some Exited"
proof -
  let ?greeting = "[14, 0] @ sync_greeting"
  have "sync_send_data P sync_greeting = Inr ?greeting"
    using sync_send_data_ok [OF P(2), of sync_greeting]
    by (simp add: sync_greeting_def bytes_of_def low_byte_def high_byte_def)
  from sync_client_run_ok [OF this, of es]
  obtain n k where shape: "sc_sent (sync_client_run P es) = concat (replicate n ?greeting) @ take k ?greeting"
    and ended: "sc_connected (sync_client_run P es) \<longrightarrow> sc_ended (sync_client_run P es) \<noteq> Some Exited"
      "\<not> sc_connected (sync_client_run P es) \<longrightarrow> sc_sent (sync_client_run P es) = []"
    by (auto simp: sync_client_ok_def)
  have "take 2 (sc_sent (sync_client_run P es)) = [14, 0]" if "2 \<le> length (sc_sent (sync_client_run P es))"
  proof (cases n)
    case 0
    then have "min 2 k = 2" using that unfolding shape by simp
    then have "take 2 (take k ([14, 0] @ sync_greeting)) = take 2 ([14, 0] @ sync_greeting)" by (simp only: take_take)
    then show ?thesis unfolding shape 0 by simp
  qed (simp add: shape)
  moreover have long: "2 \<le> length (sc_sent (sync_client_run P es))" using sent by (meson order_trans prefix_length_le)
  ultimately have "take 2 (concat cs) = [14, 0]" using sent by (auto simp: prefix_def)
  then obtain rest where bytes: "concat cs = [14, 0] @ rest" by (metis append_take_drop_id)
  have "v2_spec (Head []) [14, 0] = (Refused, [])" by (simp add: eval_dec)
  from prun_appendI [OF this prun_Refused] have "v2_spec (Head []) (concat cs) = (Refused, [])" by (simp add: bytes)
  then have "\<exists>c. v2_open u junk = Inr c \<and> state (foldl (v2_on_read P) c cs) = Idle \<and>
      v2_sent (foldl (v2_on_read P) c cs) = ([], [])"
    by (rule v2_open_reads [OF P(1) cs, of _ _ u junk]) auto
  moreover have "sc_sent (sync_client_run P es) \<noteq> []" using long by auto
  ultimately show ?thesis using ended by blast
qed

theorem echo_client_refused_witness:
  "(\<exists>c. v2_open ''s'' [] = Inr c \<and> state (foldl (v2_on_read x86_host) c [[14], 0 # bytes_of ''Hellow'']) = Idle \<and>
      v2_sent (foldl (v2_on_read x86_host) c [[14], 0 # bytes_of ''Hellow'']) = ([], [])) \<and>
    sc_ended (sync_client_run x86_host [Connect_Done False, Write_Done, Write_Done]) \<noteq> Some Exited"
proof (rule echo_client_refused [OF x86.network_order_axioms])
  show le: "endianness x86_host = Little_Endian" by (simp add: x86_host_def)
  have "sync_send_data x86_host sync_greeting = Inr ([14, 0] @ sync_greeting)"
    using sync_send_data_ok [OF le, of sync_greeting]
    by (simp add: sync_greeting_def bytes_of_def low_byte_def high_byte_def)
  then show "prefix (concat [[14], 0 # bytes_of ''Hellow''])
      (sc_sent (sync_client_run x86_host [Connect_Done False, Write_Done, Write_Done]))"
    by (simp add: sync_client_run_def sync_client_event_def sync_client_start_def)
      (simp add: sync_greeting_def bytes_of_def)
qed (simp_all add: chunk_ok_def bytes_of_def)

text \<open>C30: on a little-endian host and with a request text of at most 2044 bytes, a JSON client is in lockstep with its
  server at every moment, whatever arrives and whatever fails: it has written one frame for every turn
  finished, and one more exactly while it awaits a reply, so that it never has two requests outstanding. It
  leaves its loop after its last turn, by a caught exception, then with at most one more request, or
  part of it, sent, or by undefined behaviour; and if it is not connected it has sent nothing.\<close>

theorem json_client_in_lockstep:
  assumes "network_order P" "endianness P = Little_Endian" "length (json_styled J root) \<le> 2044"
  shows "lockstep P (frame (short_of_int MSG_HELLO_WORD) (json_styled J root)) turns (json_client_run P J root turns es)"
  using assms by (intro lockstep_run json_request_frame)

theorem json_client_in_lockstep_witness:
  "lockstep x86_host (frame (short_of_int MSG_HELLO_WORD) (json_styled sample_json [104, 105])) 100
    (json_client_run x86_host sample_json [104, 105] 100 [Connect_Done False, Write_Done, Arrived [0, 7], Read_Done])"
  by (rule json_client_in_lockstep [OF x86.network_order_axioms]) (simp_all add: x86_host_def sample_json_def)

text \<open>C31: the process of \<open>json-Client\<close> returns from joining its ten threads only if every one of them failed to
  connect: the lambda of a thread has to return an \<open>int\<close>, and a thread that was connected reaches its end
  without one, be it after its last turn or after a caught exception.\<close>

theorem json_threads_undefined:
  fixes P :: platform and J :: "'j json" and root :: 'j
  defines "run \<equiv> json_client_run P J root JSON_CLIENT_TURNS"
  assumes "length ess = JSON_CLIENT_THREADS"
  shows "(join_all (map run ess) = Some (Inr v) \<longleftrightarrow> v = 0 \<and> (\<forall>es\<in>set ess. connect_error es = Some True)) \<and>
    (\<forall>es\<in>set ess. is_gone (jc_at (run es)) \<and> connect_error es = Some False \<longrightarrow>
      client_fault (run es) = Some Missing_Return)"
proof -
  have "client_fault (run es) = Some Missing_Return"
    if gone: "is_gone (jc_at (run es))" and connected: "connect_error es = Some False" for es
  proof -
    obtain x where "jc_at (run es) = Gone x" using gone by (cases "jc_at (run es)") auto
    moreover have "x \<noteq> Not_Connected" using json_not_connected [of P J root _ es] calculation connected by (auto simp: run_def)
    ultimately show ?thesis by (cases x) (simp_all add: client_fault_def)
  qed
  then show ?thesis by (auto simp: join_all_value run_def json_not_connected)
qed

theorem json_threads_undefined_witness:
  "join_all (map (json_client_run x86_host sample_json [104] JSON_CLIENT_TURNS) (replicate 10 [Connect_Done True])) =
      Some (Inr 0) \<and>
    client_fault (json_client_run x86_host sample_json [104] JSON_CLIENT_TURNS [Connect_Done False, Write_Done, Read_Broken]) =
      Some Missing_Return"
proof
  show "join_all (map (json_client_run x86_host sample_json [104] JSON_CLIENT_TURNS) (replicate 10 [Connect_Done True])) =
      Some (Inr 0)"
    using json_threads_undefined [of "replicate 10 [Connect_Done True]" x86_host sample_json "[104]" 0]
    by (simp add: JSON_CLIENT_THREADS_def)
  let ?es = "[Connect_Done False, Write_Done, Read_Broken]"
  have "json_request x86_host [104] = Inr (frame (short_of_int MSG_HELLO_WORD) [104])"
    by (rule json_request_frame [OF x86.network_order_axioms]) (simp_all add: x86_host_def)
  then have "is_gone (jc_at (json_client_run x86_host sample_json [104] JSON_CLIENT_TURNS ?es))"
    by (simp add: json_client_run_def json_client_event_def json_client_start_def next_turn_def JSON_CLIENT_TURNS_def
        sample_json_def client_throw_def)
  then show "client_fault (json_client_run x86_host sample_json [104] JSON_CLIENT_TURNS ?es) = Some Missing_Return"
    using json_threads_undefined [of "?es # replicate 9 [Connect_Done True]" x86_host sample_json "[104]" 0]
    by (simp add: JSON_CLIENT_THREADS_def)
qed

text \<open>An echoed frame, whose header is two zero bytes, is read by the echo client as an empty reply; the
  echoed bytes stay in the stream, where the next read takes them for a header.\<close>

theorem echo_client_reads_nothing:
  "sync_receive P (v2_frame body @ rest) = Some (Inr ([], body @ rest))"
  by (simp add: sync_receive_def socket_read_def cout_write_def load_short_def short_of_bytes_def size_of_int_def v2_frame_def
      split: endian.split)

text \<open>A reply that announces more than the client's array of 2048 bytes is read up to the array's length, but
  printed at the length announced: the client reads past the end of the array.\<close>

theorem echo_client_overreads:
  assumes le: "endianness P = Little_Endian" and len: "2048 < sint (n :: short)" and body: "2048 \<le> length body"
  shows "sync_receive P ([low_byte n, high_byte n] @ body) = Some (Inl Out_Of_Bounds)"
proof -
  have "unat (size_of_int (sint n)) = nat (sint n)"
    using len by (intro unat_size_of_int) (use sint_lt [of n] in auto)
  with assms show ?thesis
    by (simp add: sync_receive_def socket_read_def CLIENT_MAX_LENGTH_def load_short_def cout_write_def mem_read_def Let_def)
qed

theorem echo_client_overreads_witness:
  "sync_receive x86_host ([low_byte 4096, high_byte 4096] @ replicate 2048 0) = Some (Inl Out_Of_Bounds)"
  by (rule echo_client_overreads) (simp_all add: x86_host_def)

section \<open>Servers, pools and processes\<close>

text \<open>C32: either pool of \<open>n > 0\<close> contexts hands them out in turn, the \<open>k\<close>-th call giving context \<open>k mod n\<close>, so
  that after any number of calls no context has been given out more than once more than another.\<close>

theorem pool_round_robin:
  assumes "0 < n" "j < n"
  shows "fst (call_times mt_GetIOService k (mt_AsioIOServicePool n)) = map (\<lambda>i. Inr (i mod n)) [0..<k] \<and>
    fst (call_times v3_GetIOService k (v3_AsioIOServicePool n)) = map (\<lambda>i. Inr (i mod n)) [0..<k] \<and>
    length (filter (\<lambda>r. r = Inr j) (fst (call_times mt_GetIOService k (mt_AsioIOServicePool n)))) =
      k div n + (if j < k mod n then 1 else 0)"
  using assms mt_pool.calls_in_turn [of "mt_AsioIOServicePool n" k] v3_pool.calls_in_turn [of "v3_AsioIOServicePool n" k]
    mt_pool.balanced [of "mt_AsioIOServicePool n" j k]
  by (simp add: mt_AsioIOServicePool_def v3_AsioIOServicePool_def)

theorem pool_round_robin_witness:
  "fst (call_times mt_GetIOService 5 (mt_AsioIOServicePool 2)) = map (\<lambda>i. Inr (i mod 2)) [0..<5] \<and>
    fst (call_times v3_GetIOService 5 (v3_AsioIOServicePool 2)) = map (\<lambda>i. Inr (i mod 2)) [0..<5] \<and>
    length (filter (\<lambda>r. r = Inr 0) (fst (call_times mt_GetIOService 5 (mt_AsioIOServicePool 2)))) =
      5 div 2 + (if 0 < 5 mod (2 :: nat) then 1 else 0)"
  by (rule pool_round_robin) simp_all

text \<open>C33: the multi-threaded server's pool always stops, and stopping it again dereferences a null pointer; the
  other pool stops exactly if no context has operations outstanding, since it does not stop the contexts, and
  stopping it again throws.\<close>

theorem pool_stop:
  assumes n: "0 < n"
  shows "(\<exists>p. mt_Stop busy (mt_AsioIOServicePool n) = Some (Inr p) \<and> mt_Stop busy p = Some (Inl Null_Deref)) \<and>
    (if \<exists>i<n. busy i then v3_Stop busy (v3_AsioIOServicePool n) = None
     else \<exists>p. v3_Stop busy (v3_AsioIOServicePool n) = Some (Inr p) \<and> v3_Stop busy p = Some (Inl System_Exception))"
  using mt_Stop_twice [OF n, of busy] v3_Stop_twice [OF n, of busy] by (simp add: v3_Stop_eq)

theorem pool_stop_witness:
  "(\<exists>p. mt_Stop (\<lambda>i. i = 1) (mt_AsioIOServicePool 2) = Some (Inr p) \<and>
      mt_Stop (\<lambda>i. i = 1) p = Some (Inl Null_Deref)) \<and>
    (if \<exists>i<2. i = (1 :: nat) then v3_Stop (\<lambda>i. i = 1) (v3_AsioIOServicePool 2) = None
     else \<exists>p. v3_Stop (\<lambda>i. i = 1) (v3_AsioIOServicePool 2) = Some (Inr p) \<and>
       v3_Stop (\<lambda>i. i = 1) p = Some (Inl System_Exception))"
  by (rule pool_stop) simp

text \<open>Where the number of hardware threads is not known (\<open>hardware_concurrency\<close> gives 0), the pool is empty
  and the multi-threaded server accesses it out of bounds before it accepts anything.\<close>

theorem empty_pool_faults:
  "acceptor_at (mt_CServer 0) = Failed_With Out_Of_Bounds \<and> accepting (mt_CServer 0) = None"
  by (simp add: mt_CServer_def mt_StartAccept_def mt_GetIOService_def mt_AsioIOServicePool_def)

text \<open>After any sequence of accepted, failed and cleared connections the maps of the echo server and of
  \<open>Server-version-3\<close> hold exactly the sessions accepted and not cleared since, each under its own uuid, and
  one accept is outstanding, for a session not in the map.\<close>

theorem servers_hold_accepted_sessions:
  assumes inj: "inj gen"
  shows "(sessions (foldl (v3_server_event gen) v3_CServer es) (gen k) = Some k \<longleftrightarrow> k \<in> registered 0 {} es) \<and>
    (sessions (foldl (v2_server_event gen) v2_CServer es) (gen k) = Some k \<longleftrightarrow> k \<in> registered 0 {} es) \<and>
    (\<exists>j. accepting (foldl (v3_server_event gen) v3_CServer es) = Some j \<and> j \<notin> registered 0 {} es)"
proof -
  have v3: "server_inv gen (foldl (v3_server_event gen) v3_CServer es) \<and>
      held (foldl (v3_server_event gen) v3_CServer es) = registered 0 {} es"
    using session_registry.registry [OF v3_session_registry [OF inj] server_inv_new(1)] by (simp add: server_inv_new)
  have v2: "server_inv gen (foldl (v2_server_event gen) v2_CServer es) \<and>
      held (foldl (v2_server_event gen) v2_CServer es) = registered 0 {} es"
    using session_registry.registry [OF v2_session_registry [OF inj] server_inv_new(1)] by (simp add: server_inv_new)
  have "accepting srv = Some (next_object srv - 1) \<and> next_object srv - 1 \<notin> held srv" if "server_inv gen srv" for srv
    using that by (fastforce simp: server_inv_def held_def ran_def)
  with v3 have "\<exists>j. accepting (foldl (v3_server_event gen) v3_CServer es) = Some j \<and> j \<notin> registered 0 {} es" by metis
  with v3 v2 held_iff show ?thesis by blast
qed

theorem servers_hold_accepted_sessions_witness:
  "(sessions (foldl (v3_server_event numbered) v3_CServer [Accepted False, Accepted True, Cleared 0]) (numbered 0) = Some 0 \<longleftrightarrow>
      0 \<in> registered 0 {} [Accepted False, Accepted True, Cleared 0]) \<and>
    (sessions (foldl (v2_server_event numbered) v2_CServer [Accepted False, Accepted True, Cleared 0]) (numbered 0) = Some 0 \<longleftrightarrow>
      0 \<in> registered 0 {} [Accepted False, Accepted True, Cleared 0]) \<and>
    (\<exists>j. accepting (foldl (v3_server_event numbered) v3_CServer [Accepted False, Accepted True, Cleared 0]) = Some j \<and>
      j \<notin> registered 0 {} [Accepted False, Accepted True, Cleared 0])"
  by (rule servers_hold_accepted_sessions) (rule inj_numbered)

text \<open>In every reachable state of the multi-threaded server the \<open>k\<close>-th session's socket runs on context
  \<open>k mod n\<close> of the pool.\<close>

theorem mt_sessions_spread:
  assumes "0 < n" "(mt_server_step gen)\<^sup>*\<^sup>* (mt_CServer n) srv" "k < next_object srv"
  shows "bound_to srv k = Some (k mod n)"
  using spread_reachable [OF assms(1,2)] assms(3) by (simp add: spread_def)

theorem mt_sessions_spread_witness:
  "bound_to (mt_CServer 2) 0 = Some (0 mod 2)"
  by (rule mt_sessions_spread [where gen = numbered])
    (simp_all add: mt_CServer_def mt_StartAccept_def mt_GetIOService_def mt_AsioIOServicePool_def)

text \<open>In every reachable state of the multi-threaded server, a session that has not been
  cleared is in the map under its uuid, or the accept thread is about to insert it.\<close>

theorem mt_served_sessions_registered:
  assumes "inj gen" "(mt_server_step gen)\<^sup>*\<^sup>* (mt_CServer n) srv" "k \<in> uncleared srv"
  shows "sessions srv (gen k) = Some k \<or> acceptor_at srv = Inserting k"
  using tracked_reachable [OF assms(1,2)] assms(3) by (auto simp: tracked_def)

theorem mt_served_sessions_registered_witness:
  "sessions (mt_HandleAccept 0 False (mt_CServer 1)) (numbered 0) = Some 0 \<or>
    acceptor_at (mt_HandleAccept 0 False (mt_CServer 1)) = Inserting 0"
proof (rule mt_served_sessions_registered [OF inj_numbered])
  show "(mt_server_step numbered)\<^sup>*\<^sup>* (mt_CServer 1) (mt_HandleAccept 0 False (mt_CServer 1))"
    by (rule r_into_rtranclp, rule mt_server_step.accept)
      (simp_all add: mt_CServer_def mt_StartAccept_def mt_GetIOService_def mt_AsioIOServicePool_def)
qed (simp add: mt_HandleAccept_def)

text \<open>C34: the map of the multi-threaded server can keep a session that has been cleared. Its first session may fail
  between \<open>Start\<close> and its insertion; it clears itself before it is in the map, and is then in the map although
  it is cleared, no operation of it is outstanding and no message of it is under way. And any session in the
  map of which nothing is outstanding and nothing is under way stays there, whatever happens. Where an answer
  to a message still under way is written and the write fails, the session does leave the map: while the
  server is up, each failing write takes its session out.\<close>

theorem mt_session_leak:
  fixes P and J :: "'j json" and gen junk n
  assumes P: "network_order P" and inj: "inj gen" and n: "0 < n"
  defines "run \<equiv> foldl (mt_serve P J gen junk) (mt_started n)"
    and "early \<equiv> [Mt_Event (Accept False), Mt_Event (On 0 Read_Failed), Insert]"
  shows "(\<exists>c. conns (run early) (gen 0) = Some c \<and> cleared c) \<and> forgotten (run early) (gen 0) 0 \<and>
    (\<forall>es es' k. mt_events_sized (es @ es') \<and> forgotten (run es) (gen k) k \<longrightarrow>
       sessions (reg (run (es @ es'))) (gen k) = Some k) \<and>
    (\<forall>es k c. mt_events_sized es \<and> down (run es) = None \<and> conns (run es) (gen k) = Some c \<and> write_pending c \<noteq> None \<longrightarrow>
       sessions (reg (run (es @ [Mt_Event (On k Write_Failed)]))) (gen k) = None)"
proof (intro conjI allI impI)
  show "\<exists>c. conns (run early) (gen 0) = Some c \<and> cleared c" "forgotten (run early) (gen 0) 0"
    unfolding run_def early_def by (rule mt_leaks [OF n])+
  show "sessions (reg (run (es @ es'))) (gen k) = Some k"
    if "mt_events_sized (es @ es') \<and> forgotten (run es) (gen k) k" for es es' k
    using forgotten_run [OF P inj, of es es' J junk n "gen k" k] that by (simp add: run_def forgotten_def)
  show "sessions (reg (run (es @ [Mt_Event (On k Write_Failed)]))) (gen k) = None"
    if es: "mt_events_sized es \<and> down (run es) = None \<and> conns (run es) (gen k) = Some c \<and> write_pending c \<noteq> None"
    for es k c
  proof -
    have "request_server.service_ok (mt_answer J) (run es)" 
      using es unfolding run_def by (intro mt_run_ok(2) [OF P inj]) simp_all
    then have "v3_ep_ok (gen k) c" using es request_server.conn_endpoint_ok [OF mt_request_server [OF P]] by blast
    then show ?thesis using mt_failure_erases [OF P, of "run es" gen k c Write_Failed J junk] es by (simp add: run_def)
  qed
qed

theorem mt_session_leak_witness:
  "sessions (reg (foldl (mt_serve x86_host sample_json numbered no_junk) (mt_started 4)
    ([Mt_Event (Accept False), Mt_Event (On 0 Read_Failed), Insert] @
     [Mt_Event (On 0 Wrote), Restart, Mt_Event (Accept False), Insert]))) (numbered 0) = Some 0"
proof -
  have n: "0 < (4 :: nat)" by simp
  note leak = mt_session_leak [OF x86.network_order_axioms inj_numbered n, of sample_json no_junk]
  show ?thesis
    by (rule leak [THEN conjunct2, THEN conjunct2, THEN conjunct1, rule_format], intro conjI)
      (simp add: mt_events_sized_def sized_def, rule leak [THEN conjunct2, THEN conjunct1])
qed

text \<open>All calls of \<open>GetInstance\<close> that return give the object of the first constructor that succeeded; the
  calls before it fail with their constructors' exceptions.\<close>

theorem singleton_is_single:
  "get_instances (map Inl fs @ Inr x # cs) new_singleton =
     map Inl fs @ Inr (Some x) # replicate (length cs) (Inr (Some x))"
  by (rule get_instances_new)

text \<open>The main thread of \<open>Server-version-3\<close> leaves its loop only after a signal.\<close>

theorem main_needs_signal:
  assumes "v3_main_step\<^sup>*\<^sup>* v3_main_start m" "main_at m = Leaving"
  shows "is_server_terminated m"
  using assms by (rule main_leaves_only_on_signal)

theorem main_needs_signal_witness:
  "is_server_terminated (\<lparr>main_at = Leaving, is_server_terminated = True\<rparr> :: v3_main)"
proof (rule main_needs_signal)
  have "v3_main_step v3_main_start (v3_signal_handler v3_main_start)"
    by (rule v3_main_step.signal) (simp add: v3_main_start_def)
  moreover have "v3_main_step (v3_signal_handler v3_main_start) \<lparr>main_at = Leaving, is_server_terminated = True\<rparr>"
    by (rule v3_main_step.loop) (simp add: v3_signal_handler_def v3_main_start_def v3_main_loop_def)
  ultimately show "v3_main_step\<^sup>*\<^sup>* v3_main_start \<lparr>main_at = Leaving, is_server_terminated = True\<rparr>" by simp
qed simp

text \<open>A signal can be lost: it may come between the test of the flag and the wait, and the main thread then
  waits, with no step of its own, although the server has been told to terminate.\<close>

theorem main_can_lose_signal:
  "v3_main_step\<^sup>*\<^sup>* v3_main_start v3_lost_signal \<and> is_server_terminated v3_lost_signal \<and>
   v3_main_loop v3_lost_signal = None"
  by (simp add: lost_signal_reachable) (simp add: v3_lost_signal_def v3_main_loop_def)

section \<open>Processes\<close>

text \<open>C35: the process of \<open>Server-version-3\<close> in every reachable state: it begins to shut down only after a signal; the
  server and its handlers never outlive the \<open>io_context\<close>, and no message they have cut out is left unpushed;
  it exits only with the worker's queue empty; and as long as it lives, through all phases of the shutdown,
  its clients are answered in order and its map is right.\<close>

theorem v3_orderly_shutdown:
  assumes P: "network_order P" and inj: "inj gen" and p: "(v3_process_step P J gen junk)\<^sup>*\<^sup>* v3_process_start p"
  shows "(phase p \<in> {Stopping, Joining, Unwinding, Exiting} \<longrightarrow> is_server_terminated (main_thread p)) \<and>
    (ioc_gone p \<longrightarrow> network p = Run_Over \<and> all_pushed (svc p)) \<and>
    (process_end p = Some Exited \<longrightarrow> phase p = Exiting \<and> logic_que (svc p) = []) \<and>
    (process_end p = None \<longrightarrow> down (svc p) = None \<and> reg_ok gen (svc p) \<and>
      (\<forall>u c. conns (svc p) u = Some c \<longrightarrow> answered (v3_answer J) (svc p) u c))"
  using shutdown_reachable [OF p] sound_reachable [OF P inj p] service_answered [OF v3_request_server [OF P, of J]]
  by (auto simp: shutdown_ok_def server_sound_def)

theorem v3_orderly_shutdown_witness:
  "is_server_terminated (main_thread sample_late) \<and> all_pushed (svc sample_late) \<and> down (svc sample_late) = None \<and>
    reg_ok numbered (svc sample_late) \<and>
    (\<exists>u c. conns (svc sample_late) u = Some c \<and> answered (v3_answer sample_json) (svc sample_late) u c)"
proof -
  have at: "phase sample_late = Exiting" "ioc_gone sample_late" "process_end sample_late = None" "svc sample_late = sample_pushed"
    by (simp_all add: sample_late_def)
  obtain nd rest where q: "logic_que (svc sample_late) = nd # rest"
    using sample_pushed_ok(3) at(4) by (auto simp: neq_Nil_conv)
  have "request_server.service_ok (v3_answer sample_json) (svc sample_late)"
    using sound_reachable [OF x86.network_order_axioms inj_numbered sample_late_reachable] at(3) by (simp add: server_sound_def)
  from request_server.next_message [OF v3_request_server [OF x86.network_order_axioms] this q]
  have "\<exists>c. conns (svc sample_late) (ln_session nd) = Some c" by blast
  with v3_orderly_shutdown [OF x86.network_order_axioms inj_numbered sample_late_reachable] at show ?thesis by auto
qed

text \<open>C36: once \<open>main\<close> has left its loop and the server was constructed, the process of \<open>Server-version-3\<close> can always
  come to an end, whatever the clients and the worker have done; if nothing was left to push or to handle,
  it exits in order.\<close>

theorem v3_shutdown_completes:
  assumes P: "network_order P" and inj: "inj gen" and p: "(v3_process_step P J gen junk)\<^sup>*\<^sup>* v3_process_start p"
    and after: "process_end p = None" "phase p \<in> {Stopping, Joining, Unwinding, Exiting}" "network p \<noteq> Constructing"
  shows "\<exists>p'. (v3_process_step P J gen junk)\<^sup>*\<^sup>* p p' \<and> process_end p' \<noteq> None \<and>
    (all_pushed (svc p) \<and> logic_que (svc p) = [] \<longrightarrow> process_end p' = Some Exited)"
  by (rule shutdown_ends [OF P inj shutdown_reachable [OF p] sound_reachable [OF P inj p] after])

theorem v3_shutdown_completes_witness:
  "\<exists>p'. (v3_process_step x86_host sample_json numbered no_junk)\<^sup>*\<^sup>* sample_quiet p' \<and> process_end p' = Some Exited"
proof -
  have "all_pushed (svc sample_quiet)" "logic_que (svc sample_quiet) = []"
    by (simp_all add: sample_quiet_def v3_started_def new_service_def all_pushed_def)
  moreover have "process_end sample_quiet = None" "phase sample_quiet \<in> {Stopping, Joining, Unwinding, Exiting}"
    "network sample_quiet \<noteq> Constructing"
    by (simp_all add: sample_quiet_def)
  note v3_shutdown_completes [OF x86.network_order_axioms inj_numbered sample_quiet_reachable this]
  ultimately show ?thesis by blast
qed

text \<open>C37: a message that the worker has not handled when \<open>main\<close> destroys the \<open>io_context\<close> is fatal: the process never
  exits in order, since the last pointer to the session is released, or its socket written to, after the
  context is gone. The destructor of the logic system, which handles what is queued, comes too late.\<close>

theorem v3_late_message_fatal:
  assumes p: "(v3_process_step P J gen junk)\<^sup>*\<^sup>* v3_process_start p"
    and late: "phase p = Exiting" "process_end p = None" "logic_que (svc p) \<noteq> []"
    and p': "(v3_process_step P J gen junk)\<^sup>*\<^sup>* p p'"
  shows "process_end p' \<noteq> Some Exited"
proof -
  have "doomed p" using late shutdown_reachable [OF p] by (auto simp: doomed_def shutdown_ok_def)
  with doomed_run [OF p'] show ?thesis by (auto simp: doomed_def)
qed

theorem v3_late_message_fatal_witness:
  "process_end (v3_process_work x86_host sample_json numbered no_junk sample_late) \<noteq> Some Exited"
proof (rule v3_late_message_fatal [OF sample_late_reachable])
  have "v3_process_step x86_host sample_json numbered no_junk sample_late
      (v3_process_work x86_host sample_json numbered no_junk sample_late)"
    by (rule v3_process_step.work) (simp add: sample_late_def)
  then show "(v3_process_step x86_host sample_json numbered no_junk)\<^sup>*\<^sup>* sample_late
      (v3_process_work x86_host sample_json numbered no_junk sample_late)" by simp
qed (simp_all add: sample_late_def sample_pushed_ok)

text \<open>C38: the process of the multi-threaded server, on a pool with at least one context, in every reachable state: it exits only after a signal has stopped
  every context and joined every thread of the pool, and with the worker's queue empty; a thread that was
  not joined is destroyed only if the server could not be constructed; and while it lives its clients are
  answered in order.\<close>

theorem mt_orderly_shutdown:
  assumes P: "network_order P" and inj: "inj gen" and n: "0 < n"
    and p: "(mt_process_step P J gen junk)\<^sup>*\<^sup>* (mt_process_start n) p"
  shows "(mt_end p = Some Exited \<longrightarrow> mt_phase p = Mt_Exiting \<and> pool_down n (io_pool_of (reg (mt_svc p))) \<and>
      all_pushed (mt_svc p) \<and> logic_que (mt_svc p) = []) \<and>
    (mt_end p = Some Joinable_Destroyed \<longrightarrow> mt_phase p = Mt_Registered) \<and>
    (mt_end p = None \<longrightarrow> down (mt_svc p) = None \<and>
      (mt_phase p \<in> {Mt_Leaving, Mt_Exiting} \<longrightarrow> pool_down n (io_pool_of (reg (mt_svc p)))) \<and>
      (\<forall>u c. conns (mt_svc p) u = Some c \<longrightarrow> answered (mt_answer J) (mt_svc p) u c))"
  using mt_inv_reachable [OF P inj p] n service_answered [OF mt_request_server [OF P, of J]]
  by (auto simp: mt_inv_def mt_end_ok_def mt_live_def)

theorem mt_orderly_shutdown_witness:
  "\<exists>p. (mt_process_step x86_host sample_json numbered no_junk)\<^sup>*\<^sup>* (mt_process_start 2) p \<and> mt_end p = Some Exited \<and>
    mt_phase p = Mt_Exiting \<and> pool_down 2 (io_pool_of (reg (mt_svc p)))"
proof -
  obtain p where p: "(mt_process_step x86_host sample_json numbered no_junk)\<^sup>*\<^sup>* (mt_process_start 2) p" "mt_end p = Some Exited"
    using sample_mt_exits by blast
  with mt_orderly_shutdown [OF x86.network_order_axioms inj_numbered _ p(1)] show ?thesis by auto
qed

text \<open>C39: a signal brings the multi-threaded server's process down: from any state after it the process can come to an
  end, and exits in order if nothing was left to push or to handle.\<close>

theorem mt_shutdown_completes:
  assumes P: "network_order P" and inj: "inj gen"
    and p: "(mt_process_step P J gen junk)\<^sup>*\<^sup>* (mt_process_start n) p"
    and after: "mt_end p = None" "mt_phase p \<in> {Mt_Stopping, Mt_Leaving, Mt_Exiting}"
  shows "\<exists>p'. (mt_process_step P J gen junk)\<^sup>*\<^sup>* p p' \<and> mt_end p' \<noteq> None \<and>
    (all_pushed (mt_svc p) \<and> logic_que (mt_svc p) = [] \<longrightarrow> mt_end p' = Some Exited)"
  by (rule mt_shutdown_ends [OF P inj mt_inv_reachable [OF P inj p] after])

theorem mt_shutdown_completes_witness:
  "\<exists>p. (mt_process_step x86_host sample_json numbered no_junk)\<^sup>*\<^sup>* (sample_mt_running\<lparr>mt_phase := Mt_Stopping\<rparr>) p \<and>
    mt_end p = Some Exited"
proof -
  let ?p = "sample_mt_running\<lparr>mt_phase := Mt_Stopping\<rparr>"
  have idle: "mt_end ?p = None" "mt_phase ?p \<in> {Mt_Stopping, Mt_Leaving, Mt_Exiting}"
    "all_pushed (mt_svc ?p)" "logic_que (mt_svc ?p) = []"
    using sample_mt_idle by simp_all
  from mt_shutdown_completes [OF x86.network_order_axioms inj_numbered sample_mt_stopping_reachable idle(1,2)] idle(3,4)
  show ?thesis by blast
qed

text \<open>C40: the process of the echo server, once it listens, ends only with a completed read after which the bytes
  received from one client crash the byte machine of its stream. If they do so by an invalid array length,
  which is an exception, \<open>main\<close> catches it and the process exits in order; if by an access outside a block, the
  process ends by that fault. There is no other end.\<close>

theorem echo_process_ends:
  assumes P: "network_order P" and inj: "inj gen" and sized: "echo_events_sized es"
    and ends: "v2_main P gen junk True es = Some x"
  shows "\<exists>es1 k chunk es2 c f. es = es1 @ Echo_On k (Got chunk) # es2 \<and>
    conns (foldl (v2_serve P gen junk) v2_started es1) (gen k) = Some c \<and>
    fst (v2_spec (Head []) (received c @ chunk)) = Crashed f \<and>
    (f = Bad_Array_New_Length \<and> x = Exited \<or> f = Out_Of_Bounds \<and> x = Terminated_By Out_Of_Bounds)"
proof -
  obtain f where f: "down (foldl (v2_serve P gen junk) v2_started es) = Some f"
    "x = (if is_exception f then Exited else Terminated_By f)"
    using ends by (auto simp: v2_main_def split: option.splits)
  from v2_last_event [OF P inj sized f(1)]
  obtain es1 k chunk es2 c where run: "es = es1 @ Echo_On k (Got chunk) # es2"
    "conns (foldl (v2_serve P gen junk) v2_started es1) (gen k) = Some c"
    "fst (v2_spec (Head []) (received c @ chunk)) = Crashed f" by blast
  moreover have "f = Bad_Array_New_Length \<and> x = Exited \<or> f = Out_Of_Bounds \<and> x = Terminated_By Out_Of_Bounds"
    using v2_dec_faults [OF run(3)] f(2) by auto
  ultimately show ?thesis by blast
qed

theorem echo_process_ends_witness:
  "\<exists>es1 k chunk es2 c f. [Echo_Accept False, Echo_On 0 (Got [255, 254])] = es1 @ Echo_On k (Got chunk) # es2 \<and>
    conns (foldl (v2_serve x86_host numbered no_junk) v2_started es1) (numbered k) = Some c \<and>
    fst (v2_spec (Head []) (received c @ chunk)) = Crashed f \<and>
    (f = Bad_Array_New_Length \<and> Exited = Exited \<or> f = Out_Of_Bounds \<and> Exited = Terminated_By Out_Of_Bounds)"
  by (rule echo_process_ends [OF x86.network_order_axioms inj_numbered _ sample_echo_crash])
    (simp add: echo_events_sized_def sized_def chunk_ok_def)

text \<open>The raw-data trace prints two hexadecimal digits per byte, except for bytes from \<open>0x80\<close> on where
  \<open>char\<close> is signed: these are sign-extended and print as eight.\<close>

theorem raw_data_width:
  "length (hex_token P b) = (if char_is_signed P \<and> 128 \<le> uint b then 8 else 2)"
  by (rule length_hex_token)

text \<open>What is printed when a frame has been sent is meant to be its body. The header of \<open>Server-version-3\<close> is
  longer than \<open>HEAD_LENGTH\<close>, so there the length comes first, whose high byte ends the text for every message
  of less than 256 bytes: nothing is printed. The echo server prints the message, up to its first zero.\<close>

theorem sent_trace_of_nodes:
  assumes P: "network_order P" and n: "length msg \<le> 2048"
  shows "\<exists>nd. v3_SendNode P msg (short_of_int (int (length msg))) msg_id = Inr nd \<and>
      (length msg < 256 \<longrightarrow> sent_trace nd = [])"
    and "\<exists>nd. v2_MsgNode_msg P msg (short_of_int (int (length msg))) = Inr nd \<and>
      (0 \<notin> set msg \<longrightarrow> sent_trace nd = msg)"
proof -
  have s: "sint (short_of_int (int (length msg))) = int (length msg)" using n by (simp add: sint_short_of_int)
  have "high_byte (short_of_int (int (length msg))) = 0" if "length msg < 256"
    using that by (simp add: word_uint_eq_iff uint_high_byte short_of_int_def unsigned_of_nat take_bit_nat_eq_self)
  with v3_SendNode_frame [OF P, of "short_of_int (int (length msg))" msg msg_id] n s
  show "\<exists>nd. v3_SendNode P msg (short_of_int (int (length msg))) msg_id = Inr nd \<and>
      (length msg < 256 \<longrightarrow> sent_trace nd = [])"
    by (simp add: sent_trace_def frame_def)
  have "takeWhile (\<lambda>b. b \<noteq> 0) (msg @ [0]) = msg" if "0 \<notin> set msg" using that by (induction msg) auto
  with v2_MsgNode_msg_ok [OF P s, of msg] n show "\<exists>nd. v2_MsgNode_msg P msg (short_of_int (int (length msg))) = Inr nd \<and>
      (0 \<notin> set msg \<longrightarrow> sent_trace nd = msg)"
    by (simp add: sent_trace_def v2_node_def v2_frame_def)
qed

end
